(* ===== verification/Http.thy ===== *)
theory Http
  imports GoBase
begin

text \<open>
  The part of \<open>net/http\<close> that the code uses on messages: header maps and the fields of
  \<open>http.Request\<close> it reads or writes. A header map is an association list with distinct keys;
  the code either looks a key up or iterates over the sorted keys, so the order of the list is
  not observed. \<open>Add\<close>, \<open>Set\<close> and \<open>Get\<close> canonicalise the key as \<open>net/textproto\<close> does.
\<close>

section \<open>Header keys\<close>

definition token_char :: "char \<Rightarrow> bool" where
  "token_char c \<longleftrightarrow>
     is_digit c \<or> is_lower_letter c \<or> (65 \<le> byte_val c \<and> byte_val c \<le> 90) \<or>
     c \<in> set [CHR ''!'', CHR ''#'', CHR ''$'', CHR ''%'', CHR ''&'', CHR 0x27, CHR ''*'', CHR ''+'',
              CHR ''-'', CHR ''.'', CHR ''^'', CHR ''_'', CHR 0x60, CHR ''|'', CHR ''~'']"

fun canonical_walk :: "bool \<Rightarrow> string \<Rightarrow> string" where
  "canonical_walk upper [] = []"
| "canonical_walk upper (c # s) =
     (let c' = (if upper then char_upper c else char_lower c)
      in c' # canonical_walk (c = CHR ''-'') s)"

definition canonical_header_key :: "string \<Rightarrow> string" where
  "canonical_header_key k = (if list_all token_char k then canonical_walk True k else k)"

section \<open>Header maps\<close>

type_synonym header = "(string \<times> string list) list"

text \<open>\<open>h[k]\<close> on the map itself, without canonicalising: nil when absent.\<close>

definition header_values :: "header \<Rightarrow> string \<Rightarrow> string list" where
  "header_values h k = (case map_of h k of None \<Rightarrow> [] | Some vs \<Rightarrow> vs)"

definition header_get :: "header \<Rightarrow> string \<Rightarrow> string" where
  "header_get h k = (case header_values h (canonical_header_key k) of [] \<Rightarrow> [] | v # _ \<Rightarrow> v)"

fun header_put :: "header \<Rightarrow> string \<Rightarrow> string list \<Rightarrow> header" where
  "header_put [] k vs = [(k, vs)]"
| "header_put ((k', vs') # h) k vs =
     (if k' = k then (k, vs) # h else (k', vs') # header_put h k vs)"

definition header_add :: "header \<Rightarrow> string \<Rightarrow> string \<Rightarrow> header" where
  "header_add h k v =
     (let k = canonical_header_key k in header_put h k (header_values h k @ [v]))"

definition header_set :: "header \<Rightarrow> string \<Rightarrow> string \<Rightarrow> header" where
  "header_set h k v = header_put h (canonical_header_key k) [v]"

text \<open>The \<open>"k: v\n"\<close> lines of a map, by sorted key.\<close>

definition header_lines :: "header \<Rightarrow> string" where
  "header_lines h =
     concat (map (\<lambda>k. concat (map (\<lambda>v. k @ '': '' @ v @ [CHR 0x0A]) (header_values h k)))
       (sort (map fst h)))"

section \<open>Requests\<close>

record http_req =
  rq_method :: string
  rq_scheme :: string
  rq_url_host :: string
  rq_path :: string
  rq_host :: string
  rq_header :: header
  rq_body :: "string option"
  rq_content_length :: int
  rq_remote_addr :: string
  rq_request_uri :: string

section \<open>Lemmas\<close>

lemma header_values_put [simp]:
  "header_values (header_put h k vs) k' = (if k' = k then vs else header_values h k')"
  by (induction h) (auto simp: header_values_def)

lemma header_put_keys:
  "map fst (header_put h k vs) = (if k \<in> fst ` set h then map fst h else map fst h @ [k])"
  by (induction h k vs rule: header_put.induct) (auto simp: image_iff)

lemma header_put_distinct: "distinct (map fst h) \<Longrightarrow> distinct (map fst (header_put h k vs))"
  by (simp add: header_put_keys)

lemma header_get_set [simp]: "header_get (header_set h k v) k = v"
  by (simp add: header_get_def header_set_def)

end
