(* ===== verification/Regex.thy ===== *)
theory Regex
  imports GoBase
begin

text \<open>
  Go's \<open>regexp\<close> as the code uses it on patterns an operator types. A compiled expression is
  what the code calls on it: \<open>MatchString\<close>/\<open>Match\<close>, \<open>ReplaceAllString\<close>/\<open>ReplaceAll\<close> with a
  template, and the first submatch of \<open>FindStringSubmatch\<close>. \<open>regexp.Compile\<close> itself is an
  argument \<open>rx\<close> of the definitions that compile a pattern (\<open>None\<close> is the compile error), so
  every theorem holds whatever the patterns mean. The regular expressions written in the source
  are not arguments: their meaning is written out where they are used.
\<close>

record regex =
  rx_match :: "string \<Rightarrow> bool"
  rx_replace :: "string \<Rightarrow> string \<Rightarrow> string"
  rx_submatch :: "string \<Rightarrow> string option"

type_synonym rx_compiler = "string \<Rightarrow> regex option"

text \<open>
  A concrete compiler, used to instantiate \<open>rx\<close> in closed examples: a pattern without a
  parenthesis is a literal to search for, any other pattern is a compile error.
\<close>

definition literal_regex :: "string \<Rightarrow> regex" where
  "literal_regex p =
     \<lparr>rx_match = (\<lambda>s. str_contains s p), rx_replace = (\<lambda>s t. if s = p then t else s),
      rx_submatch = (\<lambda>s. None)\<rparr>"

definition literal_compiler :: rx_compiler where
  "literal_compiler p = (if CHR ''('' \<in> set p then None else Some (literal_regex p))"

end
