(* ===== verification/Intercept.thy ===== *)
theory Intercept
  imports Http Regex
begin

text \<open>
  Model of the hold queue of \<open>internal/intercept\<close> (\<open>intercept.go\<close> and \<open>response.go\<close>): the
  engine's state, every operation that changes it, and the conditional-intercept filter. Each
  definition is one section of code under the engine's lock; the decisions it puts on the
  holders' channels and the \<open>Change\<close> it passes to \<open>emit\<close> after unlocking are returned beside the
  new state (theory InterceptSystem interleaves them). Ids and \<open>seq\<close> are \<open>int64\<close> counters that
  start at 0 and are only incremented; they are modelled as \<open>int\<close>.
\<close>

section \<open>Data\<close>

text \<open>The fields of \<open>store.Flow\<close> that the filter reads.\<close>

record held_flow =
  hf_method :: string
  hf_host :: string
  hf_path :: string

datatype intercept_err = ErrNotHeld | ErrDropPending | ErrParse | ErrRegex

record decision =
  d_drop :: bool
  d_edited :: bool
  d_held :: bool
  d_canceled :: bool
  d_request :: "http_req option"

record held =
  h_id :: int
  h_flow :: "held_flow option"
  h_raw :: string
  h_drop_pending :: bool

record held_item =
  hi_held :: held
  hi_req :: http_req

record resp_decision =
  rd_drop :: bool
  rd_edited :: bool
  rd_canceled :: bool
  rd_raw :: string

record resp_item =
  ri_held :: held
  ri_raw :: string

record compiled_mr_rule =
  mr_id :: int
  mr_enabled :: bool
  mr_typ :: string
  mr_re :: regex
  mr_replace :: string
  mr_big_body :: bool

datatype release_reason = ReleaseForwarded | ReleaseDropped | ReleaseCanceled

datatype hold_side = SideRequest | SideResponse

datatype change =
    ChangeReset int
  | ChangeHeld int hold_side int held
  | ChangeReleased int hold_side int release_reason

fun change_seq :: "change \<Rightarrow> int" where
  "change_seq (ChangeReset n) = n"
| "change_seq (ChangeHeld n _ _ _) = n"
| "change_seq (ChangeReleased n _ _ _) = n"

record engine =
  en_enabled :: bool
  en_next_id :: int
  en_queue :: "int \<rightharpoonup> held_item"
  en_order :: "int list"
  en_rules :: "compiled_mr_rule list"
  en_seq :: int
  en_match_enabled :: bool
  en_match_target :: string
  en_match_pattern :: string
  en_match_re :: "regex option"
  en_resp_enabled :: bool
  en_resp_next_id :: int
  en_resp_queue :: "int \<rightharpoonup> resp_item"
  en_resp_order :: "int list"

definition new_intercept :: engine where
  "new_intercept =
     \<lparr>en_enabled = False, en_next_id = 0, en_queue = Map.empty, en_order = [], en_rules = [],
      en_seq = 0, en_match_enabled = False, en_match_target = [], en_match_pattern = [],
      en_match_re = None, en_resp_enabled = False, en_resp_next_id = 0,
      en_resp_queue = Map.empty, en_resp_order = []\<rparr>"

definition forward_decision :: "http_req \<Rightarrow> bool \<Rightarrow> decision" where
  "forward_decision req edited =
     \<lparr>d_drop = False, d_edited = edited, d_held = False, d_canceled = False, d_request = Some req\<rparr>"

definition drop_decision :: decision where
  "drop_decision =
     \<lparr>d_drop = True, d_edited = False, d_held = False, d_canceled = False, d_request = None\<rparr>"

definition resp_forward_decision :: "string \<Rightarrow> bool \<Rightarrow> resp_decision" where
  "resp_forward_decision raw edited =
     \<lparr>rd_drop = False, rd_edited = edited, rd_canceled = False, rd_raw = raw\<rparr>"

definition resp_drop_decision :: resp_decision where
  "resp_drop_decision = \<lparr>rd_drop = True, rd_edited = False, rd_canceled = False, rd_raw = []\<rparr>"

section \<open>The conditional-intercept filter\<close>

definition crlf2 :: string where
  "crlf2 = [CHR 0x0D, CHR 0x0A, CHR 0x0D, CHR 0x0A]"

text \<open>\<open>SetInterceptFilter\<close>: an invalid pattern is an error and changes nothing.\<close>

definition set_intercept_filter ::
    "rx_compiler \<Rightarrow> bool \<Rightarrow> string \<Rightarrow> string \<Rightarrow> engine \<Rightarrow> intercept_err + engine" where
  "set_intercept_filter rx enabled target pattern e =
     (let compiled = (if enabled \<and> pattern \<noteq> [] then map_option Some (rx pattern) else Some None)
      in case compiled of
           None \<Rightarrow> Inl ErrRegex
         | Some re \<Rightarrow>
             Inr (e\<lparr>en_match_enabled := (enabled \<and> re \<noteq> None),
                    en_match_target := (if target = [] then ''any'' else target),
                    en_match_pattern := pattern, en_match_re := re\<rparr>))"

definition intercept_filter :: "engine \<Rightarrow> bool \<times> string \<times> string" where
  "intercept_filter e =
     (let t = (if en_match_target e = [] then ''any'' else en_match_target e)
      in (en_match_enabled e, t, en_match_pattern e))"

definition match_field :: "string \<Rightarrow> regex \<Rightarrow> held_flow option \<Rightarrow> string \<Rightarrow> bool" where
  "match_field target re flow raw =
     (let s =
        (if target = ''url'' then
           (case flow of None \<Rightarrow> [] | Some f \<Rightarrow> hf_host f @ hf_path f)
         else if target = ''method'' then
           (case flow of None \<Rightarrow> [] | Some f \<Rightarrow> hf_method f)
         else if target = ''header'' then
           (case str_index raw crlf2 of Some i \<Rightarrow> take i raw | None \<Rightarrow> raw)
         else if target = ''body'' then
           (case str_index raw crlf2 of Some i \<Rightarrow> drop (i + 4) raw | None \<Rightarrow> [])
         else raw)
      in rx_match re s)"

definition match_response_field :: "string \<Rightarrow> regex \<Rightarrow> held_flow option \<Rightarrow> string \<Rightarrow> bool" where
  "match_response_field target re flow raw =
     (if target = ''any'' \<or> target = [] then
        rx_match re
          ((case flow of
              None \<Rightarrow> []
            | Some f \<Rightarrow> hf_method f @ '' '' @ hf_host f @ hf_path f @ [CHR 0x0D, CHR 0x0A]) @ raw)
      else match_field target re flow raw)"

text \<open>The condition under which \<open>HoldContext\<close> and \<open>HoldResponseContext\<close> let a message through.\<close>

definition filtered_out ::
    "(string \<Rightarrow> regex \<Rightarrow> held_flow option \<Rightarrow> string \<Rightarrow> bool) \<Rightarrow> engine \<Rightarrow> held_flow option \<Rightarrow>
     string \<Rightarrow> bool" where
  "filtered_out mf e flow raw \<longleftrightarrow>
     en_match_enabled e \<and>
     (case en_match_re e of None \<Rightarrow> False | Some re \<Rightarrow> \<not> mf (en_match_target e) re flow raw)"

section \<open>Request side\<close>

text \<open>The first section of \<open>HoldContext\<close>: straight through, or queued under a fresh id.\<close>

datatype hold_result = PassThrough decision | Queued engine int change

definition hold_enter :: "engine \<Rightarrow> held_flow option \<Rightarrow> http_req \<Rightarrow> string \<Rightarrow> hold_result" where
  "hold_enter e flow req raw =
     (if \<not> en_enabled e then PassThrough (forward_decision req False)
      else if filtered_out match_field e flow raw then PassThrough (forward_decision req False)
      else
        let i = en_next_id e + 1;
            held = \<lparr>h_id = i, h_flow = flow, h_raw = raw, h_drop_pending = False\<rparr>;
            seq = en_seq e + 1
        in Queued (e\<lparr>en_next_id := i,
                     en_queue := (en_queue e)(i \<mapsto> \<lparr>hi_held = held, hi_req = req\<rparr>),
                     en_order := en_order e @ [i], en_seq := seq\<rparr>)
                  i (ChangeHeld seq SideRequest i held))"

text \<open>\<open>removeReqLocked\<close>: the caller has checked that the id is queued.\<close>

definition remove_req_locked :: "int \<Rightarrow> engine \<Rightarrow> engine \<times> int" where
  "remove_req_locked i e =
     (let e = e\<lparr>en_queue := (en_queue e)(i := None), en_order := remove1 i (en_order e),
                en_seq := en_seq e + 1\<rparr>
      in (e, en_seq e))"

definition remove_req :: "int \<Rightarrow> engine \<Rightarrow> (engine \<times> int) option" where
  "remove_req i e = (if en_queue e i = None then None else Some (remove_req_locked i e))"

definition take_for_forward :: "int \<Rightarrow> engine \<Rightarrow> intercept_err + (engine \<times> int)" where
  "take_for_forward i e =
     (case en_queue e i of
        None \<Rightarrow> Inl ErrNotHeld
      | Some item \<Rightarrow>
          if h_drop_pending (hi_held item) then Inl ErrDropPending
          else Inr (remove_req_locked i e))"

text \<open>
  \<open>Forward\<close>: \<open>parse\<close> is \<open>parseEditedRequest\<close>. The item's request never changes while it is
  queued, so reading it again when the item is taken gives what the first lookup gave.
\<close>

definition forward_req ::
    "(string \<Rightarrow> http_req \<Rightarrow> http_req option) \<Rightarrow> int \<Rightarrow> string \<Rightarrow> engine \<Rightarrow>
     intercept_err + (engine \<times> decision \<times> change)" where
  "forward_req parse i edited_raw e =
     (case en_queue e i of
        None \<Rightarrow> Inl ErrNotHeld
      | Some item \<Rightarrow>
          let edited = (length edited_raw > 0)
          in case (if edited then parse edited_raw (hi_req item) else Some (hi_req item)) of
               None \<Rightarrow> Inl ErrParse
             | Some req \<Rightarrow>
                 (case take_for_forward i e of
                    Inl err \<Rightarrow> Inl err
                  | Inr (e, seq) \<Rightarrow>
                      Inr (e, forward_decision req edited,
                           ChangeReleased seq SideRequest i ReleaseForwarded)))"

definition drop_req :: "int \<Rightarrow> engine \<Rightarrow> intercept_err + (engine \<times> decision \<times> change)" where
  "drop_req i e =
     (case en_queue e i of
        None \<Rightarrow> Inl ErrNotHeld
      | Some item \<Rightarrow>
          (case remove_req i e of
             None \<Rightarrow> Inl ErrNotHeld
           | Some (e, seq) \<Rightarrow>
               Inr (e, drop_decision, ChangeReleased seq SideRequest i ReleaseDropped)))"

text \<open>The cancel branch of \<open>HoldContext\<close>; \<open>None\<close> when the item was resolved first.\<close>

definition cancel_req :: "int \<Rightarrow> engine \<Rightarrow> (engine \<times> decision \<times> change) option" where
  "cancel_req i e =
     (case remove_req i e of
        None \<Rightarrow> None
      | Some (e, seq) \<Rightarrow>
          Some (e, \<lparr>d_drop = True, d_edited = False, d_held = True, d_canceled = True,
                    d_request = None\<rparr>,
                ChangeReleased seq SideRequest i ReleaseCanceled))"

definition set_drop_pending :: "int \<Rightarrow> bool \<Rightarrow> engine \<Rightarrow> intercept_err + engine" where
  "set_drop_pending i pending e =
     (case en_queue e i of
        None \<Rightarrow> Inl ErrNotHeld
      | Some item \<Rightarrow>
          Inr (e\<lparr>en_queue := (en_queue e)
                   (i \<mapsto> item\<lparr>hi_held := (hi_held item)\<lparr>h_drop_pending := pending\<rparr>\<rparr>)\<rparr>))"

text \<open>\<open>SetEnabled\<close>: the new state, the decisions for the drained items in order, the change.\<close>

definition drain_decision :: "held_item \<Rightarrow> decision" where
  "drain_decision item =
     (if h_drop_pending (hi_held item) then drop_decision else forward_decision (hi_req item) False)"

definition set_enabled :: "bool \<Rightarrow> engine \<Rightarrow> engine \<times> (int \<times> decision) list \<times> change" where
  "set_enabled on e =
     (let drained = (if on then [] else map (\<lambda>i. (i, drain_decision (the (en_queue e i)))) (en_order e));
          e1 = (if on then e\<lparr>en_enabled := on\<rparr>
                else e\<lparr>en_enabled := on, en_queue := Map.empty, en_order := []\<rparr>);
          e2 = e1\<lparr>en_seq := en_seq e + 1\<rparr>
      in (e2, drained, ChangeReset (en_seq e2)))"

definition held_queue :: "engine \<Rightarrow> held list" where
  "held_queue e = map (\<lambda>i. hi_held (the (en_queue e i))) (en_order e)"

section \<open>Response side\<close>

datatype resp_hold_result = RespPassThrough resp_decision | RespQueued engine int change

definition hold_response_enter :: "engine \<Rightarrow> held_flow option \<Rightarrow> string \<Rightarrow> resp_hold_result" where
  "hold_response_enter e flow raw =
     (if \<not> en_resp_enabled e then RespPassThrough (resp_forward_decision raw False)
      else if filtered_out match_response_field e flow raw
        then RespPassThrough (resp_forward_decision raw False)
      else
        let i = en_resp_next_id e + 1;
            held = \<lparr>h_id = i, h_flow = flow, h_raw = raw, h_drop_pending = False\<rparr>;
            seq = en_seq e + 1
        in RespQueued
             (e\<lparr>en_resp_next_id := i,
                en_resp_queue := (en_resp_queue e)(i \<mapsto> \<lparr>ri_held = held, ri_raw = raw\<rparr>),
                en_resp_order := en_resp_order e @ [i], en_seq := seq\<rparr>)
             i (ChangeHeld seq SideResponse i held))"

definition remove_resp_locked :: "int \<Rightarrow> engine \<Rightarrow> engine \<times> int" where
  "remove_resp_locked i e =
     (let e = e\<lparr>en_resp_queue := (en_resp_queue e)(i := None),
                en_resp_order := remove1 i (en_resp_order e), en_seq := en_seq e + 1\<rparr>
      in (e, en_seq e))"

definition remove_resp :: "int \<Rightarrow> engine \<Rightarrow> (engine \<times> int) option" where
  "remove_resp i e = (if en_resp_queue e i = None then None else Some (remove_resp_locked i e))"

definition take_response_for_forward :: "int \<Rightarrow> engine \<Rightarrow> intercept_err + (engine \<times> int)" where
  "take_response_for_forward i e =
     (case en_resp_queue e i of
        None \<Rightarrow> Inl ErrNotHeld
      | Some item \<Rightarrow>
          if h_drop_pending (ri_held item) then Inl ErrDropPending
          else Inr (remove_resp_locked i e))"

definition forward_response ::
    "int \<Rightarrow> string \<Rightarrow> engine \<Rightarrow> intercept_err + (engine \<times> resp_decision \<times> change)" where
  "forward_response i edited_raw e =
     (case en_resp_queue e i of
        None \<Rightarrow> Inl ErrNotHeld
      | Some item \<Rightarrow>
          let edited = (length edited_raw > 0);
              raw = (if edited then edited_raw else ri_raw item)
          in (case take_response_for_forward i e of
                Inl err \<Rightarrow> Inl err
              | Inr (e, seq) \<Rightarrow>
                  Inr (e, resp_forward_decision raw edited,
                       ChangeReleased seq SideResponse i ReleaseForwarded)))"

definition drop_response :: "int \<Rightarrow> engine \<Rightarrow> intercept_err + (engine \<times> resp_decision \<times> change)" where
  "drop_response i e =
     (case en_resp_queue e i of
        None \<Rightarrow> Inl ErrNotHeld
      | Some item \<Rightarrow>
          (case remove_resp i e of
             None \<Rightarrow> Inl ErrNotHeld
           | Some (e, seq) \<Rightarrow>
               Inr (e, resp_drop_decision, ChangeReleased seq SideResponse i ReleaseDropped)))"

definition cancel_response :: "int \<Rightarrow> engine \<Rightarrow> (engine \<times> resp_decision \<times> change) option" where
  "cancel_response i e =
     (case remove_resp i e of
        None \<Rightarrow> None
      | Some (e, seq) \<Rightarrow>
          Some (e, \<lparr>rd_drop = True, rd_edited = False, rd_canceled = True, rd_raw = []\<rparr>,
                ChangeReleased seq SideResponse i ReleaseCanceled))"

definition set_response_drop_pending :: "int \<Rightarrow> bool \<Rightarrow> engine \<Rightarrow> intercept_err + engine" where
  "set_response_drop_pending i pending e =
     (case en_resp_queue e i of
        None \<Rightarrow> Inl ErrNotHeld
      | Some item \<Rightarrow>
          Inr (e\<lparr>en_resp_queue := (en_resp_queue e)
                   (i \<mapsto> item\<lparr>ri_held := (ri_held item)\<lparr>h_drop_pending := pending\<rparr>\<rparr>)\<rparr>))"

definition resp_drain_decision :: "resp_item \<Rightarrow> resp_decision" where
  "resp_drain_decision item =
     (if h_drop_pending (ri_held item) then resp_drop_decision
      else resp_forward_decision (ri_raw item) False)"

definition set_response_enabled ::
    "bool \<Rightarrow> engine \<Rightarrow> engine \<times> (int \<times> resp_decision) list \<times> change" where
  "set_response_enabled on e =
     (let drained = (if on then []
                     else map (\<lambda>i. (i, resp_drain_decision (the (en_resp_queue e i)))) (en_resp_order e));
          e1 = (if on then e\<lparr>en_resp_enabled := on\<rparr>
                else e\<lparr>en_resp_enabled := on, en_resp_queue := Map.empty, en_resp_order := []\<rparr>);
          e2 = e1\<lparr>en_seq := en_seq e + 1\<rparr>
      in (e2, drained, ChangeReset (en_seq e2)))"

definition response_queue :: "engine \<Rightarrow> held list" where
  "response_queue e = map (\<lambda>i. ri_held (the (en_resp_queue e i))) (en_resp_order e)"

section \<open>Snapshot\<close>

record snapshot =
  sn_seq :: int
  sn_enabled :: bool
  sn_response_enabled :: bool
  sn_queue :: "held list"
  sn_response_queue :: "held list"
  sn_filter_enabled :: bool
  sn_filter_target :: string
  sn_filter_pattern :: string

definition take_snapshot :: "engine \<Rightarrow> snapshot" where
  "take_snapshot e =
     \<lparr>sn_seq = en_seq e, sn_enabled = en_enabled e, sn_response_enabled = en_resp_enabled e,
      sn_queue = map (\<lambda>i. hi_held (the (en_queue e i))) (en_order e),
      sn_response_queue = map (\<lambda>i. ri_held (the (en_resp_queue e i))) (en_resp_order e),
      sn_filter_enabled = en_match_enabled e,
      sn_filter_target = (if en_match_target e = [] then ''any'' else en_match_target e),
      sn_filter_pattern = en_match_pattern e\<rparr>"

end
