(* ===== verification/HoldQueue.thy ===== *)
theory HoldQueue
  imports Intercept
begin

text \<open>
  The contract that both hold queues of \<open>internal/intercept\<close> keep, as a locale: a map from ids
  to held items, the arrival order and the last id given out, with the three state changes enter,
  remove and drain. The lemmas of the locale hold for every provider of the contract; the
  request side and the response side of the engine are interpreted below. A mailbox models the
  channels between an operator's action and the blocked holder: \<open>m_sends\<close> are decisions on
  their way, \<open>m_box\<close> the one-place channel buffers, \<open>m_wait\<close> the blocked holders and
  \<open>m_out\<close> what the holders returned.
\<close>

section \<open>The queue contract\<close>

locale hold_queue =
  fixes q :: "'s \<Rightarrow> int \<rightharpoonup> 'i"
    and ord :: "'s \<Rightarrow> int list"
    and nxt :: "'s \<Rightarrow> int"
    and enter :: "'m \<Rightarrow> 's \<Rightarrow> 's option"
    and remove :: "int \<Rightarrow> 's \<Rightarrow> 's option"
    and drain :: "'s \<Rightarrow> 's"
  assumes enter_next: "enter m s = Some s' \<Longrightarrow> nxt s' = nxt s + 1"
    and enter_ord: "enter m s = Some s' \<Longrightarrow> ord s' = ord s @ [nxt s']"
    and enter_dom: "enter m s = Some s' \<Longrightarrow> dom (q s') = insert (nxt s') (dom (q s))"
    and remove_present: "remove i s = None \<longleftrightarrow> i \<notin> dom (q s)"
    and remove_next: "remove i s = Some s' \<Longrightarrow> nxt s' = nxt s"
    and remove_ord: "remove i s = Some s' \<Longrightarrow> ord s' = remove1 i (ord s)"
    and remove_dom: "remove i s = Some s' \<Longrightarrow> dom (q s') = dom (q s) - {i}"
    and drain_empty: "ord (drain s) = [] \<and> dom (q (drain s)) = {} \<and> nxt (drain s) = nxt s"
begin

definition wf :: "'s \<Rightarrow> bool" where
  "wf s \<longleftrightarrow>
     sorted_wrt (<) (ord s) \<and> set (ord s) = dom (q s) \<and> (\<forall>i \<in> set (ord s). 0 < i \<and> i \<le> nxt s) \<and> 0 \<le> nxt s"

lemma wf_distinct: "wf s \<Longrightarrow> distinct (ord s)"
  by (simp add: wf_def strict_sorted_iff)

lemma wf_enter:
  assumes "wf s" and "enter m s = Some s'"
  shows "wf s'"
proof -
  have le: "\<forall>i \<in> set (ord s). 0 < i \<and> i < nxt s + 1" and "0 \<le> nxt s"
    using assms(1) by (auto simp: wf_def)
  then show ?thesis
    using assms(1) enter_next [OF assms(2)] enter_ord [OF assms(2)] enter_dom [OF assms(2)]
    by (simp add: wf_def sorted_wrt_append less_imp_le)
qed

lemma sorted_wrt_remove1: "sorted_wrt (<) (xs :: int list) \<Longrightarrow> sorted_wrt (<) (remove1 i xs)"
  by (induction xs) (auto dest: notin_set_remove1)

lemma wf_remove:
  assumes "wf s" and "remove i s = Some s'"
  shows "wf s'"
  using assms(1) remove_next [OF assms(2)] remove_ord [OF assms(2)] remove_dom [OF assms(2)]
    wf_distinct [OF assms(1)]
  unfolding wf_def by (simp add: sorted_wrt_remove1 set_remove1_distinct)

lemma wf_drain: "wf s \<Longrightarrow> wf (drain s)"
  using drain_empty [of s] by (simp add: wf_def)

text \<open>A fresh id is larger than every queued id, so an id never names two items.\<close>

lemma enter_fresh: "wf s \<Longrightarrow> enter m s = Some s' \<Longrightarrow> nxt s' \<notin> dom (q s)"
  using enter_next [of m s s'] unfolding wf_def by (metis add_le_same_cancel1 not_one_le_zero)

end

section \<open>The two queues of the engine\<close>

definition req_enter :: "held_flow option \<times> http_req \<times> string \<Rightarrow> engine \<Rightarrow> engine option" where
  "req_enter m e =
     (case hold_enter e (fst m) (fst (snd m)) (snd (snd m)) of
        PassThrough d \<Rightarrow> None | Queued e' i c \<Rightarrow> Some e')"

definition resp_enter :: "held_flow option \<times> string \<Rightarrow> engine \<Rightarrow> engine option" where
  "resp_enter m e =
     (case hold_response_enter e (fst m) (snd m) of
        RespPassThrough d \<Rightarrow> None | RespQueued e' i c \<Rightarrow> Some e')"

interpretation reqq: hold_queue en_queue en_order en_next_id req_enter
    "\<lambda>i e. map_option fst (remove_req i e)" "\<lambda>e. fst (set_enabled False e)"
  by unfold_locales
     (auto simp: req_enter_def hold_enter_def remove_req_def remove_req_locked_def set_enabled_def
        Let_def domIff dom_map_remove split: if_splits)

interpretation respq: hold_queue en_resp_queue en_resp_order en_resp_next_id resp_enter
    "\<lambda>i e. map_option fst (remove_resp i e)" "\<lambda>e. fst (set_response_enabled False e)"
  by unfold_locales
     (auto simp: resp_enter_def hold_response_enter_def remove_resp_def remove_resp_locked_def
        set_response_enabled_def Let_def domIff dom_map_remove split: if_splits)

section \<open>Mailboxes\<close>

record 'd mail =
  m_wait :: "int set"
  m_sends :: "(int \<times> 'd) list"
  m_box :: "int \<rightharpoonup> 'd"
  m_out :: "(int \<times> 'd) list"

definition mail_init :: "'d mail" where
  "mail_init = \<lparr>m_wait = {}, m_sends = [], m_box = Map.empty, m_out = []\<rparr>"

text \<open>
  The invariant, for the queued ids \<open>Q\<close> and the last id \<open>n\<close>: every blocked holder is in exactly
  one of the three places a decision can still come from, and no holder returned twice. \<open>S\<close>, \<open>B\<close>,
  \<open>D\<close> and \<open>W\<close> are the ids in flight, buffered, done and waiting.
\<close>

definition mail_sets :: "int set \<Rightarrow> int set \<Rightarrow> int set \<Rightarrow> int set \<Rightarrow> int set \<Rightarrow> int \<Rightarrow> bool" where
  "mail_sets Q S B D W n \<longleftrightarrow>
     W = Q \<union> S \<union> B \<and> Q \<inter> S = {} \<and> Q \<inter> B = {} \<and> S \<inter> B = {} \<and> D \<inter> W = {} \<and> (\<forall>i \<in> W \<union> D. i \<le> n)"

definition mail_ok :: "int set \<Rightarrow> int \<Rightarrow> 'd mail \<Rightarrow> bool" where
  "mail_ok Q n m \<longleftrightarrow>
     mail_sets Q (set (map fst (m_sends m))) (dom (m_box m)) (set (map fst (m_out m))) (m_wait m) n \<and>
     distinct (map fst (m_sends m)) \<and> distinct (map fst (m_out m))"

lemma mail_ok_init: "mail_ok {} 0 mail_init"
  by (simp add: mail_ok_def mail_init_def mail_sets_def)

lemma mail_sets_enter: "mail_sets Q S B D W n \<Longrightarrow> mail_sets (insert (n + 1) Q) S B D (insert (n + 1) W) (n + 1)"
proof -
  assume a: "mail_sets Q S B D W n"
  then have b: "i \<le> n" if "i \<in> W \<union> D" for i
    using that by (simp add: mail_sets_def)
  have "n + 1 \<notin> W" "n + 1 \<notin> D"
    using b [of "n + 1"] by auto
  moreover have "\<forall>i \<in> W \<union> D. i \<le> n + 1"
    using b by (simp add: add_increasing2)
  moreover note a
  ultimately show ?thesis unfolding mail_sets_def by auto
qed

lemma mail_sets_send: "mail_sets Q S B D W n \<Longrightarrow> i \<in> Q \<Longrightarrow> mail_sets (Q - {i}) (insert i S) B D W n \<and> i \<notin> S"
  unfolding mail_sets_def by blast

lemma mail_sets_drain: "mail_sets Q S B D W n \<Longrightarrow> mail_sets {} (S \<union> Q) B D W n \<and> S \<inter> Q = {}"
  unfolding mail_sets_def by blast

lemma mail_sets_deliver:
  "mail_sets Q (insert i S) B D W n \<Longrightarrow> i \<notin> S \<Longrightarrow> mail_sets Q S (insert i B) D W n"
  unfolding mail_sets_def by blast

lemma mail_sets_receive:
  "mail_sets Q S B D W n \<Longrightarrow> i \<in> B \<Longrightarrow> mail_sets Q S (B - {i}) (insert i D) (W - {i}) n \<and> i \<notin> D"
  unfolding mail_sets_def by blast

lemma mail_sets_cancel:
  "mail_sets Q S B D W n \<Longrightarrow> i \<in> Q \<Longrightarrow> mail_sets (Q - {i}) S B (insert i D) (W - {i}) n \<and> i \<notin> D"
  unfolding mail_sets_def by blast

lemma mail_ok_enter:
  "mail_ok Q n m \<Longrightarrow> mail_ok (insert (n + 1) Q) (n + 1) (m\<lparr>m_wait := insert (n + 1) (m_wait m)\<rparr>)"
  unfolding mail_ok_def by (simp add: mail_sets_enter)

lemma mail_ok_send:
  "mail_ok Q n m \<Longrightarrow> i \<in> Q \<Longrightarrow> mail_ok (Q - {i}) n (m\<lparr>m_sends := m_sends m @ [(i, d)]\<rparr>)"
  unfolding mail_ok_def using mail_sets_send by fastforce

lemma mail_ok_drain:
  "mail_ok Q n m \<Longrightarrow> set (map fst ds) = Q \<Longrightarrow> distinct (map fst ds) \<Longrightarrow>
   mail_ok {} n (m\<lparr>m_sends := m_sends m @ ds\<rparr>)"
  unfolding mail_ok_def using mail_sets_drain by fastforce

lemma mail_ok_deliver:
  "mail_ok Q n m \<Longrightarrow> m_sends m = xs @ (i, d) # ys \<Longrightarrow>
   mail_ok Q n (m\<lparr>m_sends := xs @ ys, m_box := (m_box m)(i \<mapsto> d)\<rparr>)"
  unfolding mail_ok_def
  using mail_sets_deliver [of Q i "set (map fst (xs @ ys))" "dom (m_box m)"] by auto

lemma mail_ok_receive:
  "mail_ok Q n m \<Longrightarrow> m_box m i = Some d \<Longrightarrow>
   mail_ok Q n (m\<lparr>m_box := (m_box m)(i := None), m_wait := m_wait m - {i}, m_out := m_out m @ [(i, d')]\<rparr>)"
  unfolding mail_ok_def using mail_sets_receive [of Q _ "dom (m_box m)" _ _ n i]
  by (fastforce simp: dom_map_remove)

lemma mail_ok_cancel:
  "mail_ok Q n m \<Longrightarrow> i \<in> Q \<Longrightarrow>
   mail_ok (Q - {i}) n (m\<lparr>m_wait := m_wait m - {i}, m_out := m_out m @ [(i, d)]\<rparr>)"
  unfolding mail_ok_def using mail_sets_cancel by fastforce

text \<open>What the invariant says of a blocked holder and of a decision in flight.\<close>

lemma mail_ok_wait:
  "mail_ok Q n m \<Longrightarrow> i \<in> m_wait m \<longleftrightarrow> i \<in> Q \<or> (\<exists>d. (i, d) \<in> set (m_sends m)) \<or> m_box m i \<noteq> None"
  unfolding mail_ok_def mail_sets_def by (force simp: image_iff domIff)

lemma mail_ok_send_room: "mail_ok Q n m \<Longrightarrow> (i, d) \<in> set (m_sends m) \<Longrightarrow> m_box m i = None \<and> i \<in> m_wait m \<and> i \<notin> Q"
proof -
  assume a: "mail_ok Q n m" and "(i, d) \<in> set (m_sends m)"
  then have "i \<in> set (map fst (m_sends m))" by (force simp: image_iff)
  with a show ?thesis unfolding mail_ok_def mail_sets_def by blast
qed

end
