(* ===== verification/InterceptRules.thy ===== *)
theory InterceptRules
  imports Intercept
begin

text \<open>
  Match and replace (\<open>SetRules\<close>, \<open>ApplyRules\<close> and the response side of \<open>internal/intercept\<close>)
  and \<open>parseEditedRequest\<close>. The set of rules already reported by \<open>logSkippedBodyRule\<close> is
  explicit state, a list of keys in the order they were logged. A request body is the bytes its
  reader yields (\<open>None\<close> for a nil reader); a reader that fails half way is not modelled.
  \<open>http.ReadRequest\<close> is the argument \<open>read_request\<close>.
\<close>

section \<open>Rules\<close>

record mr_rule =
  mrr_id :: int
  mrr_enabled :: bool
  mrr_typ :: string
  mrr_match :: string
  mrr_replace :: string
  mrr_big_body :: bool

fun compile_mr_rules :: "rx_compiler \<Rightarrow> mr_rule list \<Rightarrow> compiled_mr_rule list option" where
  "compile_mr_rules rx [] = Some []"
| "compile_mr_rules rx (r # rs) =
     (case rx (mrr_match r) of
        None \<Rightarrow> None
      | Some re \<Rightarrow>
          map_option (\<lambda>cs.
            \<lparr>mr_id = mrr_id r, mr_enabled = mrr_enabled r, mr_typ = mrr_typ r, mr_re = re,
             mr_replace = mrr_replace r, mr_big_body = mrr_big_body r\<rparr> # cs)
            (compile_mr_rules rx rs))"

definition set_mr_rules :: "rx_compiler \<Rightarrow> mr_rule list \<Rightarrow> engine \<Rightarrow> intercept_err + engine" where
  "set_mr_rules rx rs e =
     (case compile_mr_rules rx rs of
        None \<Rightarrow> Inl ErrRegex
      | Some cs \<Rightarrow> Inr (e\<lparr>en_rules := cs\<rparr>))"

definition rule_scan_limit :: nat where
  "rule_scan_limit = 2 * 2 ^ 20"

definition max_body_rule_bytes :: nat where
  "max_body_rule_bytes = 64 * 2 ^ 20"

definition log_skipped_body_rule :: "int \<Rightarrow> string \<Rightarrow> string list \<Rightarrow> string list" where
  "log_skipped_body_rule i kind logged =
     (let key = kind @ '':'' @ int_dec i in if key \<in> set logged then logged else logged @ [key])"

section \<open>Header rules\<close>

definition cr_byte :: char where "cr_byte = CHR 0x0D"
definition lf_byte :: char where "lf_byte = CHR 0x0A"

text \<open>One line of the transformed text: \<open>None\<close> when it is skipped.\<close>

definition header_line :: "string \<Rightarrow> (string \<times> string) option" where
  "header_line line =
     (let line = trim_right_by (\<lambda>c. c = cr_byte) line
      in if line = [] then None
         else case cut_byte CHR '':'' line of
                None \<Rightarrow> None
              | Some (k, v) \<Rightarrow> Some (trim_space k, trim_space v))"

definition req_header_step :: "string \<times> header \<Rightarrow> string \<Rightarrow> string \<times> header" where
  "req_header_step st line =
     (case header_line line of
        None \<Rightarrow> st
      | Some (k, v) \<Rightarrow>
          if canonical_header_key k = ''Host'' then (v, snd st) else (fst st, header_add (snd st) k v))"

definition apply_header_rule :: "regex \<Rightarrow> string \<Rightarrow> http_req \<Rightarrow> http_req" where
  "apply_header_rule re replace req =
     (let host_line = (if rq_host req \<noteq> [] then ''Host: '' @ rq_host req @ [lf_byte] else []);
          transformed = rx_replace re (host_line @ header_lines (rq_header req)) replace;
          (host, h) = foldl req_header_step (rq_host req, []) (split_byte lf_byte transformed)
      in req\<lparr>rq_host := host, rq_header := h\<rparr>)"

definition res_header_step :: "header \<Rightarrow> string \<Rightarrow> header" where
  "res_header_step h line =
     (case header_line line of None \<Rightarrow> h | Some (k, v) \<Rightarrow> header_add h k v)"

definition apply_res_header_rule :: "regex \<Rightarrow> string \<Rightarrow> header \<Rightarrow> header" where
  "apply_res_header_rule re replace h =
     foldl res_header_step [] (split_byte lf_byte (rx_replace re (header_lines h) replace))"

section \<open>Request bodies\<close>

definition body_limit :: "compiled_mr_rule list \<Rightarrow> nat" where
  "body_limit rules = (if list_ex mr_big_body rules then max_body_rule_bytes else rule_scan_limit)"

fun replace_bodies ::
    "bool \<Rightarrow> compiled_mr_rule list \<Rightarrow> string list \<Rightarrow> string \<Rightarrow> string list \<times> string" where
  "replace_bodies over_scan [] logged body = (logged, body)"
| "replace_bodies over_scan (cr # rules) logged body =
     (if over_scan \<and> \<not> mr_big_body cr
      then replace_bodies over_scan rules (log_skipped_body_rule (mr_id cr) (mr_typ cr) logged) body
      else replace_bodies over_scan rules logged (rx_replace (mr_re cr) body (mr_replace cr)))"

definition apply_request_body_rules ::
    "compiled_mr_rule list \<Rightarrow> string list \<Rightarrow> http_req \<Rightarrow> string list \<times> http_req" where
  "apply_request_body_rules rules logged req =
     (if rules = [] then (logged, req)
      else case rq_body req of
        None \<Rightarrow> (logged, req)
      | Some body \<Rightarrow>
          if length (take (body_limit rules + 1) body) > body_limit rules
          then (foldl (\<lambda>l cr. log_skipped_body_rule (mr_id cr) (mr_typ cr) l) logged rules, req)
          else
            let (logged, body) = replace_bodies (length body > rule_scan_limit) rules logged body
            in (logged,
                req\<lparr>rq_body := Some body, rq_content_length := int (length body),
                    rq_header := header_set (rq_header req) ''Content-Length''
                                   (int_dec (int (length body)))\<rparr>))"

fun apply_req_rules ::
    "compiled_mr_rule list \<Rightarrow> http_req \<Rightarrow> compiled_mr_rule list \<Rightarrow> http_req \<times> compiled_mr_rule list" where
  "apply_req_rules [] req body_rules = (req, body_rules)"
| "apply_req_rules (cr # rules) req body_rules =
     (if \<not> mr_enabled cr then apply_req_rules rules req body_rules
      else if mr_typ cr = ''req-header''
        then apply_req_rules rules (apply_header_rule (mr_re cr) (mr_replace cr) req) body_rules
      else if mr_typ cr = ''req-body'' then apply_req_rules rules req (body_rules @ [cr])
      else apply_req_rules rules req body_rules)"

definition apply_rules :: "engine \<Rightarrow> string list \<Rightarrow> http_req \<Rightarrow> string list \<times> http_req" where
  "apply_rules e logged req =
     (let (req, body_rules) = apply_req_rules (en_rules e) req []
      in apply_request_body_rules body_rules logged req)"

section \<open>Responses\<close>

definition has_response_rules :: "engine \<Rightarrow> bool" where
  "has_response_rules e =
     list_ex (\<lambda>cr. mr_enabled cr \<and> (mr_typ cr = ''res-header'' \<or> mr_typ cr = ''res-body'')) (en_rules e)"

fun scan_limit_loop :: "compiled_mr_rule list \<Rightarrow> bool \<Rightarrow> nat \<times> bool \<times> bool" where
  "scan_limit_loop [] has_body = (rule_scan_limit, has_body, False)"
| "scan_limit_loop (cr # rules) has_body =
     (if \<not> mr_enabled cr \<or> mr_typ cr \<noteq> ''res-body'' then scan_limit_loop rules has_body
      else if mr_big_body cr then (max_body_rule_bytes, True, True)
      else scan_limit_loop rules True)"

definition response_body_scan_limit :: "engine \<Rightarrow> nat \<times> bool \<times> bool" where
  "response_body_scan_limit e = scan_limit_loop (en_rules e) False"

definition note_skipped_response_body_rules :: "engine \<Rightarrow> string list \<Rightarrow> string list" where
  "note_skipped_response_body_rules e logged =
     foldl (\<lambda>l cr. if mr_enabled cr \<and> mr_typ cr = ''res-body'' \<and> \<not> mr_big_body cr
                   then log_skipped_body_rule (mr_id cr) (mr_typ cr) l else l)
       logged (en_rules e)"

fun response_rules_loop ::
    "bool \<Rightarrow> compiled_mr_rule list \<Rightarrow> string list \<Rightarrow> header \<Rightarrow> string \<Rightarrow> string list \<times> header \<times> string"
  where
  "response_rules_loop skip [] logged h body = (logged, h, body)"
| "response_rules_loop skip (cr # rules) logged h body =
     (if \<not> mr_enabled cr then response_rules_loop skip rules logged h body
      else if mr_typ cr = ''res-header''
        then response_rules_loop skip rules logged (apply_res_header_rule (mr_re cr) (mr_replace cr) h) body
      else if mr_typ cr = ''res-body''
        then (if skip \<and> \<not> mr_big_body cr
              then response_rules_loop skip rules
                     (log_skipped_body_rule (mr_id cr) (mr_typ cr) logged) h body
              else response_rules_loop skip rules logged h
                     (rx_replace (mr_re cr) body (mr_replace cr)))
      else response_rules_loop skip rules logged h body)"

definition apply_response_rules ::
    "engine \<Rightarrow> string list \<Rightarrow> header \<Rightarrow> string \<Rightarrow> bool \<Rightarrow> string list \<times> header \<times> string" where
  "apply_response_rules e logged h body skip = response_rules_loop skip (en_rules e) logged h body"

definition apply_response_header_rules :: "engine \<Rightarrow> header \<Rightarrow> header" where
  "apply_response_header_rules e h =
     foldl (\<lambda>h cr. if mr_enabled cr \<and> mr_typ cr = ''res-header''
                   then apply_res_header_rule (mr_re cr) (mr_replace cr) h else h) h (en_rules e)"

section \<open>Edited requests\<close>



definition retarget :: "http_req \<Rightarrow> http_req \<Rightarrow> http_req" where
  "retarget orig r =
     (let r = r\<lparr>rq_request_uri := [], rq_scheme := rq_scheme orig\<rparr>;
          r = (if rq_host r \<noteq> [] then r\<lparr>rq_url_host := rq_host r\<rparr>
               else if rq_url_host r = [] then r\<lparr>rq_url_host := rq_url_host orig, rq_host := rq_url_host orig\<rparr>
               else r)
      in r\<lparr>rq_remote_addr := rq_remote_addr orig\<rparr>)"


section \<open>The header text\<close>

text \<open>
  A header field survives printing and re-reading when its key is in canonical form without a
  colon, a line feed or surrounding space, and its value is trimmed and has no line feed. This is
  what \<open>net/http\<close> yields for a request it has read.
\<close>

definition field_ok :: "string \<Rightarrow> string \<Rightarrow> bool" where
  "field_ok k v \<longleftrightarrow>
     canonical_header_key k = k \<and> trim_space k = k \<and> CHR '':'' \<notin> set k \<and> lf_byte \<notin> set k \<and>
     trim_space v = v \<and> lf_byte \<notin> set v"

definition header_ok :: "header \<Rightarrow> bool" where
  "header_ok h \<longleftrightarrow> distinct (map fst h) \<and> (\<forall>(k, vs) \<in> set h. \<forall>v \<in> set vs. field_ok k v)"

definition header_pairs :: "header \<Rightarrow> (string \<times> string) list" where
  "header_pairs h = concat (map (\<lambda>k. map (Pair k) (header_values h k)) (sort (map fst h)))"

definition field_text :: "string \<times> string \<Rightarrow> string" where
  "field_text p = fst p @ '': '' @ snd p"

lemma header_lines_pairs:
  "header_lines h = concat (map (\<lambda>p. field_text p @ [lf_byte]) (header_pairs h))"
proof -
  have "concat (map (\<lambda>k. concat (map (\<lambda>v. k @ '': '' @ v @ [lf_byte]) (f k))) ks) =
        concat (map (\<lambda>p. field_text p @ [lf_byte]) (concat (map (\<lambda>k. map (Pair k) (f k)) ks)))"
    for f :: "string \<Rightarrow> string list" and ks
    by (induction ks) (simp_all add: field_text_def o_def)
  then show ?thesis by (simp add: header_lines_def header_pairs_def lf_byte_def)
qed

lemma split_lines:
  "\<forall>p \<in> set ps. lf_byte \<notin> set (field_text p) \<Longrightarrow>
   split_byte lf_byte (concat (map (\<lambda>p. field_text p @ [lf_byte]) ps)) = map field_text ps @ [[]]"
  by (induction ps) (simp_all add: split_byte_append)

lemma cut_byte_first: "b \<notin> set k \<Longrightarrow> cut_byte b (k @ b # v) = Some (k, v)"
proof -
  assume "b \<notin> set k"
  then have "byte_index b (k @ b # v) = Some (length k)" by (induction k) auto
  then show ?thesis by (simp add: cut_byte_def)
qed

lemma trim_space_fixed_last: "trim_space v = v \<Longrightarrow> v \<noteq> [] \<Longrightarrow> \<not> is_space (last v)"
  by (metis trim_right_by_last trim_space_def)

lemma trim_space_Cons_space: "trim_space v = v \<Longrightarrow> trim_space (CHR '' '' # v) = v"
  by (simp add: trim_space_def trim_left_by_def is_space_def byte_val_def)

lemma header_line_field:
  assumes "field_ok k v"
  shows "header_line (field_text (k, v)) = Some (k, v)"
proof -
  have "last (field_text (k, v)) \<noteq> cr_byte"
  proof (cases "v = []")
    case True
    then show ?thesis by (simp add: field_text_def cr_byte_def)
  next
    case False
    then have "\<not> is_space (last v)"
      using assms trim_space_fixed_last by (simp add: field_ok_def)
    then show ?thesis
      using False by (auto simp: field_text_def cr_byte_def is_space_def byte_val_def)
  qed
  then have "trim_right_by (\<lambda>c. c = cr_byte) (field_text (k, v)) = field_text (k, v)"
    by (simp add: trim_right_by_unchanged)
  then show ?thesis
    using assms cut_byte_first [of "CHR '':''" k "CHR '' '' # v"] trim_space_Cons_space
    by (simp add: header_line_def field_text_def field_ok_def)
qed

lemma header_line_Nil [simp]: "header_line [] = None"
  by (simp add: header_line_def)

lemma header_values_fold_add:
  "\<forall>p \<in> set ps. canonical_header_key (fst p) = fst p \<Longrightarrow>
   header_values (foldl (\<lambda>h p. header_add h (fst p) (snd p)) h0 ps) k =
     header_values h0 k @ map snd (filter (\<lambda>p. fst p = k) ps)"
  by (induction ps arbitrary: h0) (auto simp: header_add_def Let_def)

lemma header_pairs_filter:
  assumes "distinct (map fst h)"
  shows "map snd (filter (\<lambda>p. fst p = k) (header_pairs h)) = header_values h k"
proof -
  have gen: "distinct ks \<Longrightarrow>
      map snd (filter (\<lambda>p. fst p = k) (concat (map (\<lambda>k. map (Pair k) (f k)) ks))) =
        (if k \<in> set ks then f k else [])" for f :: "string \<Rightarrow> string list" and ks
    by (induction ks) (auto simp: filter_map o_def filter_empty_conv)
  have "k \<notin> set (map fst h) \<Longrightarrow> header_values h k = []"
    by (auto simp: header_values_def image_iff split: option.splits dest!: map_of_SomeD)
  then show ?thesis
    using gen [of "sort (map fst h)" "header_values h"] assms by (auto simp: header_pairs_def)
qed

lemma header_pairs_ok: "header_ok h \<Longrightarrow> \<forall>p \<in> set (header_pairs h). field_ok (fst p) (snd p)"
  by (fastforce simp: header_ok_def header_pairs_def header_values_def split: option.splits
      dest: map_of_SomeD)

lemma field_text_no_lf: "field_ok (fst p) (snd p) \<Longrightarrow> lf_byte \<notin> set (field_text p)"
  by (auto simp: field_ok_def field_text_def lf_byte_def)

lemma split_header_lines:
  "header_ok h \<Longrightarrow> split_byte lf_byte (header_lines h) = map field_text (header_pairs h) @ [[]]"
  by (simp add: header_lines_pairs split_lines header_pairs_ok field_text_no_lf)

lemma res_steps:
  "\<forall>p \<in> set ps. field_ok (fst p) (snd p) \<Longrightarrow>
   foldl res_header_step h0 (map field_text ps @ [[]]) = foldl (\<lambda>h p. header_add h (fst p) (snd p)) h0 ps"
  by (induction ps arbitrary: h0) (auto simp: res_header_step_def header_line_field)

lemma req_steps:
  "\<forall>p \<in> set ps. field_ok (fst p) (snd p) \<and> fst p \<noteq> ''Host'' \<Longrightarrow>
   foldl req_header_step (host, h0) (map field_text ps @ [[]]) =
     (host, foldl (\<lambda>h p. header_add h (fst p) (snd p)) h0 ps)"
  by (induction ps arbitrary: h0) (auto simp: req_header_step_def header_line_field field_ok_def)

lemma header_pairs_keys: "p \<in> set (header_pairs h) \<Longrightarrow> fst p \<in> fst ` set h"
  by (force simp: header_pairs_def header_values_def split: option.splits dest: map_of_SomeD)

lemma reparsed_values:
  assumes "header_ok h"
  shows "header_values (foldl (\<lambda>h p. header_add h (fst p) (snd p)) [] (header_pairs h)) k = header_values h k"
proof -
  have "\<forall>p \<in> set (header_pairs h). canonical_header_key (fst p) = fst p"
    using header_pairs_ok [OF assms] by (simp add: field_ok_def)
  then show ?thesis
    using assms by (simp add: header_values_fold_add header_pairs_filter header_ok_def)
      (simp add: header_values_def)
qed

lemma res_rule_identity:
  assumes "header_ok h" and "rx_replace re (header_lines h) t = header_lines h"
  shows "header_values (apply_res_header_rule re t h) k = header_values h k"
  using assms reparsed_values [OF assms(1)]
  by (simp add: apply_res_header_rule_def split_header_lines res_steps header_pairs_ok
      del: foldl_append)

lemma host_line_step:
  assumes "trim_space host = host" and "lf_byte \<notin> set host"
  shows "req_header_step st (''Host: '' @ host) = (host, snd st)"
proof -
  have "field_ok ''Host'' host"
    using assms by (simp add: field_ok_def) code_simp
  then have "header_line (field_text (''Host'', host)) = Some (''Host'', host)"
    by (rule header_line_field)
  then show ?thesis
    using \<open>field_ok ''Host'' host\<close> by (simp add: req_header_step_def field_text_def field_ok_def)
qed

lemma req_rule_identity:
  assumes "header_ok (rq_header req)" and "''Host'' \<notin> fst ` set (rq_header req)"
    and "trim_space (rq_host req) = rq_host req" and "lf_byte \<notin> set (rq_host req)"
    and "\<And>s. rx_replace re s t = s"
  shows "header_values (rq_header (apply_header_rule re t req)) k = header_values (rq_header req) k \<and>
         rq_host (apply_header_rule re t req) = rq_host req"
proof -
  let ?hl = "if rq_host req \<noteq> [] then ''Host: '' @ rq_host req @ [lf_byte] else []"
  let ?ps = "header_pairs (rq_header req)"
  have ok: "\<forall>p \<in> set ?ps. field_ok (fst p) (snd p) \<and> fst p \<noteq> ''Host''"
    using header_pairs_ok [OF assms(1)] header_pairs_keys [of _ "rq_header req"] assms(2) by metis
  have "foldl req_header_step (rq_host req, []) (split_byte lf_byte (?hl @ header_lines (rq_header req))) =
        (rq_host req, foldl (\<lambda>h p. header_add h (fst p) (snd p)) [] ?ps)"
  proof (cases "rq_host req = []")
    case True
    then show ?thesis using assms(1) ok by (simp add: split_header_lines req_steps del: foldl_append)
  next
    case False
    have "lf_byte \<notin> set (''Host: '' @ rq_host req)"
      using assms(4) by (simp add: lf_byte_def)
    from split_byte_append [OF this, of "header_lines (rq_header req)"]
    show ?thesis
      using False assms(1) ok req_steps [of ?ps "rq_host req" "[]"]
        host_line_step [OF assms(3,4), of "(rq_host req, [])"]
      by (simp add: split_header_lines del: foldl_append)
  qed
  then show ?thesis
    using reparsed_values [OF assms(1)] assms(5) by (simp add: apply_header_rule_def Let_def)
qed

section \<open>Bodies and loops\<close>

lemma apply_req_rules_snd:
  "snd (apply_req_rules rules req acc) = acc @ filter (\<lambda>cr. mr_enabled cr \<and> mr_typ cr = ''req-body'') rules"
  by (induction rules req acc rule: apply_req_rules.induct) auto

lemma apply_header_rule_body [simp]:
  "rq_body (apply_header_rule re t req) = rq_body req"
  "rq_content_length (apply_header_rule re t req) = rq_content_length req"
  by (simp_all add: apply_header_rule_def Let_def split_beta)

lemma apply_req_rules_body [simp]:
  "rq_body (fst (apply_req_rules rules req acc)) = rq_body req"
  "rq_content_length (fst (apply_req_rules rules req acc)) = rq_content_length req"
  by (induction rules req acc rule: apply_req_rules.induct) auto

lemma replace_bodies_snd:
  "snd (replace_bodies over_scan rules logged body) =
     foldl (\<lambda>b cr. rx_replace (mr_re cr) b (mr_replace cr)) body
       (filter (\<lambda>cr. over_scan \<longrightarrow> mr_big_body cr) rules)"
  by (induction over_scan rules logged body rule: replace_bodies.induct) auto

lemma response_rules_loop_header:
  "fst (snd (response_rules_loop skip rules logged h body)) =
     foldl (\<lambda>h cr. if mr_enabled cr \<and> mr_typ cr = ''res-header''
                   then apply_res_header_rule (mr_re cr) (mr_replace cr) h else h) h rules"
  by (induction skip rules logged h body rule: response_rules_loop.induct) auto

lemma response_rules_loop_body:
  "snd (snd (response_rules_loop skip rules logged h body)) =
     foldl (\<lambda>b cr. rx_replace (mr_re cr) b (mr_replace cr)) body
       (filter (\<lambda>cr. mr_enabled cr \<and> mr_typ cr = ''res-body'' \<and> (skip \<longrightarrow> mr_big_body cr)) rules)"
  by (induction skip rules logged h body rule: response_rules_loop.induct) auto

lemma scan_limit_loop_eq:
  "scan_limit_loop rules hb =
     (let bodies = filter (\<lambda>cr. mr_enabled cr \<and> mr_typ cr = ''res-body'') rules
      in if list_ex mr_big_body bodies then (max_body_rule_bytes, True, True)
         else (rule_scan_limit, hb \<or> bodies \<noteq> [], False))"
  by (induction rules hb rule: scan_limit_loop.induct) auto

lemma retarget_simps [simp]:
  "rq_scheme (retarget orig r) = rq_scheme orig"
  "rq_remote_addr (retarget orig r) = rq_remote_addr orig"
  "rq_request_uri (retarget orig r) = []"
  "rq_header (retarget orig r) = rq_header r"
  "rq_host r \<noteq> [] \<Longrightarrow> rq_host (retarget orig r) = rq_host r \<and> rq_url_host (retarget orig r) = rq_host r"
  "rq_host r = [] \<Longrightarrow> rq_url_host r = [] \<Longrightarrow>
     rq_host (retarget orig r) = rq_url_host orig \<and> rq_url_host (retarget orig r) = rq_url_host orig"
  by (simp_all add: retarget_def Let_def)

lemma compile_mr_rules_length: "compile_mr_rules rx rs = Some cs \<Longrightarrow> map mr_id cs = map mrr_id rs"
  by (induction rs arbitrary: cs) (auto split: option.splits)

section \<open>Properties\<close>



definition edit_example_request :: http_req where
  "edit_example_request =
     \<lparr>rq_method = ''POST'', rq_scheme = [], rq_url_host = [], rq_path = ''/'', rq_host = ''b.test'',
      rq_header = [(''Content-Length'', [''9''])], rq_body = Some [], rq_content_length = 9,
      rq_remote_addr = [], rq_request_uri = ''/''\<rparr>"




text \<open>
  The request side of match and replace keeps the framing right: after \<open>ApplyRules\<close> a
  request whose body fits the limit of its enabled body rules carries the body those rules
  produce, in their order, with its true length in both places; without an enabled body rule, or
  with a larger body, the body and its length are untouched.
\<close>

theorem apply_rules_framing:
  assumes "rules = filter (\<lambda>cr. mr_enabled cr \<and> mr_typ cr = ''req-body'') (en_rules e)"
    and "rq_body req = Some b"
    and "req' = snd (apply_rules e logged req)"
    and "b' = foldl (\<lambda>x cr. rx_replace (mr_re cr) x (mr_replace cr)) b
                (filter (\<lambda>cr. length b > rule_scan_limit \<longrightarrow> mr_big_body cr) rules)"
  shows "if rules = [] \<or> length b > body_limit rules
         then rq_body req' = Some b \<and> rq_content_length req' = rq_content_length req
         else rq_body req' = Some b' \<and> rq_content_length req' = int (length b') \<and>
              header_get (rq_header req') ''Content-Length'' = int_dec (int (length b'))"
proof -
  obtain req1 where r1: "apply_req_rules (en_rules e) req [] = (req1, rules)"
    using apply_req_rules_snd [of "en_rules e" req "[]"] assms(1)
    by (metis append_Nil prod.collapse)
  have b1: "rq_body req1 = Some b" "rq_content_length req1 = rq_content_length req"
    using apply_req_rules_body [of "en_rules e" req "[]"] r1 assms(2) by simp_all
  obtain l' where rb: "replace_bodies (length b > rule_scan_limit) rules logged b = (l', b')"
    using replace_bodies_snd [of "length b > rule_scan_limit" rules logged b] assms(4)
    by (metis prod.collapse)
  show ?thesis
    using b1 rb assms(3) by (auto simp: apply_rules_def r1 apply_request_body_rules_def min_def)
qed

theorem apply_rules_framing_witness:
  "rq_content_length
     (snd (apply_rules (new_intercept\<lparr>en_rules :=
              [\<lparr>mr_id = 1, mr_enabled = True, mr_typ = ''req-body'', mr_re = literal_regex ''x'',
                mr_replace = ''yyy'', mr_big_body = False\<rparr>]\<rparr>) []
            (edit_example_request\<lparr>rq_body := Some ''x''\<rparr>))) = 3"
proof -
  let ?r = "\<lparr>mr_id = 1, mr_enabled = True, mr_typ = ''req-body'', mr_re = literal_regex ''x'',
             mr_replace = ''yyy'', mr_big_body = False\<rparr>"
  have "body_limit [?r] \<ge> 1"
    by (simp add: body_limit_def rule_scan_limit_def)
  with apply_rules_framing [of "[?r]" "new_intercept\<lparr>en_rules := [?r]\<rparr>"
      "edit_example_request\<lparr>rq_body := Some ''x''\<rparr>" "''x''", OF _ _ refl refl, where logged = "[]"]
  show ?thesis by (simp add: rule_scan_limit_def literal_regex_def)
qed

text \<open>
  The three response entry points agree: \<open>ApplyResponseRules\<close> transforms the headers exactly
  as \<open>ApplyResponseHeaderRules\<close> does, whatever the body; without a response rule it changes
  nothing; and a caller that skips large bodies because \<open>ResponseBodyScanLimit\<close> allows none to
  be big gets the body back untouched.
\<close>

theorem response_rules_agree:
  "fst (snd (apply_response_rules e logged h body skip)) = apply_response_header_rules e h \<and>
   (has_response_rules e \<or> apply_response_rules e logged h body skip = (logged, h, body)) \<and>
   (skip \<and> \<not> snd (snd (response_body_scan_limit e)) \<longrightarrow>
      snd (snd (apply_response_rules e logged h body skip)) = body)"
proof (intro conjI)
  show "fst (snd (apply_response_rules e logged h body skip)) = apply_response_header_rules e h"
    by (simp add: apply_response_rules_def apply_response_header_rules_def response_rules_loop_header)
  have "\<not> list_ex (\<lambda>cr. mr_enabled cr \<and> (mr_typ cr = ''res-header'' \<or> mr_typ cr = ''res-body'')) rules \<Longrightarrow>
        response_rules_loop skip rules logged h body = (logged, h, body)" for rules
    by (induction rules) auto
  then show "has_response_rules e \<or> apply_response_rules e logged h body skip = (logged, h, body)"
    by (auto simp: has_response_rules_def apply_response_rules_def)
  show "skip \<and> \<not> snd (snd (response_body_scan_limit e)) \<longrightarrow>
      snd (snd (apply_response_rules e logged h body skip)) = body"
  proof
    assume a: "skip \<and> \<not> snd (snd (response_body_scan_limit e))"
    then have "filter (\<lambda>cr. mr_enabled cr \<and> mr_typ cr = ''res-body'' \<and> (skip \<longrightarrow> mr_big_body cr))
                 (en_rules e) = []"
      by (auto simp: response_body_scan_limit_def scan_limit_loop_eq Let_def list_ex_iff filter_empty_conv
          split: if_splits)
    then show "snd (snd (apply_response_rules e logged h body skip)) = body"
      by (simp only: apply_response_rules_def response_rules_loop_body foldl_Nil)
  qed
qed

theorem response_rules_agree_witness:
  "snd (snd (apply_response_rules new_intercept [] [] ''b'' True)) = ''b''"
  using response_rules_agree [of new_intercept "[]" "[]" "''b''" True]
  by (simp add: response_body_scan_limit_def new_intercept_def)

text \<open>
  Printing a header map and reading it back loses nothing: a response header rule whose
  expression leaves the text of the headers alone (it does not match) keeps every value of every
  key, for every header map that \<open>net/http\<close> can have read.
\<close>

theorem header_rule_roundtrip:
  assumes "header_ok h" and "rx_replace re (header_lines h) t = header_lines h"
  shows "header_values (apply_res_header_rule re t h) k = header_values h k"
  using assms by (rule res_rule_identity)

theorem header_rule_roundtrip_witness:
  "header_values (apply_res_header_rule (literal_regex ''zz'') ''y'' [(''Via'', [''a'', ''b c''])]) ''Via'' =
     [''a'', ''b c'']"
proof -
  have "header_ok [(''Via'', [''a'', ''b c''])]" by code_simp
  moreover have "rx_replace (literal_regex ''zz'') (header_lines [(''Via'', [''a'', ''b c''])]) ''y'' =
      header_lines [(''Via'', [''a'', ''b c''])]" by code_simp
  ultimately show ?thesis using header_rule_roundtrip by (simp add: header_values_def)
qed

end
