(* ===== verification/InterceptSystem.thy ===== *)
theory InterceptSystem
  imports HoldQueue InterceptRules
begin

text \<open>
  The hold gate as a system: any number of blocked holders (\<open>HoldContext\<close>,
  \<open>HoldResponseContext\<close>), operators calling the engine's operations, and clients that go away,
  in any interleaving. A step is one section of code under the engine's lock, one send on a
  holder's channel, or one receive. Between the section that takes an item off a queue and the
  send of its decision other steps may run: the decision is then in \<open>m_sends\<close>.
\<close>

section \<open>States and steps\<close>

record sys =
  s_eng :: engine
  s_req :: "decision mail"
  s_resp :: "resp_decision mail"
  s_log :: "change list"

definition sys_init :: sys where
  "sys_init = \<lparr>s_eng = new_intercept, s_req = mail_init, s_resp = mail_init, s_log = []\<rparr>"

definition post :: "(int \<times> 'd) list \<Rightarrow> 'd mail \<Rightarrow> 'd mail" where
  "post ds m = m\<lparr>m_sends := m_sends m @ ds\<rparr>"

definition block_on :: "int \<Rightarrow> 'd mail \<Rightarrow> 'd mail" where
  "block_on i m = m\<lparr>m_wait := insert i (m_wait m)\<rparr>"

definition return_with :: "int \<Rightarrow> 'd \<Rightarrow> 'd mail \<Rightarrow> 'd mail" where
  "return_with i d m = m\<lparr>m_wait := m_wait m - {i}, m_out := m_out m @ [(i, d)]\<rparr>"

text \<open>One send on the one-place channel of a holder; it can run only while the place is free.\<close>

inductive mail_deliver :: "'d mail \<Rightarrow> 'd mail \<Rightarrow> bool" where
  deliver: "m_sends m = xs @ (i, d) # ys \<Longrightarrow> m_box m i = None \<Longrightarrow>
     mail_deliver m (m\<lparr>m_sends := xs @ ys, m_box := (m_box m)(i \<mapsto> d)\<rparr>)"

text \<open>The holder wakes up; \<open>f\<close> is what it does to the decision before it returns it.\<close>

inductive mail_receive :: "('d \<Rightarrow> 'd) \<Rightarrow> 'd mail \<Rightarrow> 'd mail \<Rightarrow> bool" for f where
  receive: "m_box m i = Some d \<Longrightarrow> i \<in> m_wait m \<Longrightarrow>
     mail_receive f m (return_with i (f d) (m\<lparr>m_box := (m_box m)(i := None)\<rparr>))"

definition mark_held :: "decision \<Rightarrow> decision" where
  "mark_held d = d\<lparr>d_held := True\<rparr>"

definition keep_decision :: "resp_decision \<Rightarrow> resp_decision" where
  "keep_decision d = d"

inductive hold_step ::
    "rx_compiler \<Rightarrow> (string \<Rightarrow> http_req option) \<Rightarrow> sys \<Rightarrow> sys \<Rightarrow> bool"
  for rx read_request where
  toggle: "set_enabled on (s_eng s) = (e, ds, c) \<Longrightarrow>
     hold_step rx read_request s (s\<lparr>s_eng := e, s_req := post ds (s_req s), s_log := s_log s @ [c]\<rparr>)"
| resp_toggle: "set_response_enabled on (s_eng s) = (e, ds, c) \<Longrightarrow>
     hold_step rx read_request s (s\<lparr>s_eng := e, s_resp := post ds (s_resp s), s_log := s_log s @ [c]\<rparr>)"
| set_filter: "set_intercept_filter rx on target pat (s_eng s) = Inr e \<Longrightarrow>
     hold_step rx read_request s (s\<lparr>s_eng := e\<rparr>)"
| set_rules: "set_mr_rules rx rs (s_eng s) = Inr e \<Longrightarrow> hold_step rx read_request s (s\<lparr>s_eng := e\<rparr>)"
| hold: "hold_enter (s_eng s) flow req raw = Queued e i c \<Longrightarrow>
     hold_step rx read_request s (s\<lparr>s_eng := e, s_req := block_on i (s_req s), s_log := s_log s @ [c]\<rparr>)"
| resp_hold: "hold_response_enter (s_eng s) flow raw = RespQueued e i c \<Longrightarrow>
     hold_step rx read_request s (s\<lparr>s_eng := e, s_resp := block_on i (s_resp s), s_log := s_log s @ [c]\<rparr>)"
| forward: "forward_req (parse_edited_request read_request) i edited (s_eng s) = Inr (e, d, c) \<Longrightarrow>
     hold_step rx read_request s (s\<lparr>s_eng := e, s_req := post [(i, d)] (s_req s), s_log := s_log s @ [c]\<rparr>)"
| resp_forward: "forward_response i edited (s_eng s) = Inr (e, rd, c) \<Longrightarrow>
     hold_step rx read_request s (s\<lparr>s_eng := e, s_resp := post [(i, rd)] (s_resp s), s_log := s_log s @ [c]\<rparr>)"
| drop: "drop_req i (s_eng s) = Inr (e, d, c) \<Longrightarrow>
     hold_step rx read_request s (s\<lparr>s_eng := e, s_req := post [(i, d)] (s_req s), s_log := s_log s @ [c]\<rparr>)"
| resp_drop: "drop_response i (s_eng s) = Inr (e, rd, c) \<Longrightarrow>
     hold_step rx read_request s (s\<lparr>s_eng := e, s_resp := post [(i, rd)] (s_resp s), s_log := s_log s @ [c]\<rparr>)"
| pend: "set_drop_pending i p (s_eng s) = Inr e \<Longrightarrow> hold_step rx read_request s (s\<lparr>s_eng := e\<rparr>)"
| resp_pend: "set_response_drop_pending i p (s_eng s) = Inr e \<Longrightarrow> hold_step rx read_request s (s\<lparr>s_eng := e\<rparr>)"
| cancel: "i \<in> m_wait (s_req s) \<Longrightarrow> cancel_req i (s_eng s) = Some (e, d, c) \<Longrightarrow>
     hold_step rx read_request s (s\<lparr>s_eng := e, s_req := return_with i d (s_req s), s_log := s_log s @ [c]\<rparr>)"
| resp_cancel: "i \<in> m_wait (s_resp s) \<Longrightarrow> cancel_response i (s_eng s) = Some (e, rd, c) \<Longrightarrow>
     hold_step rx read_request s (s\<lparr>s_eng := e, s_resp := return_with i rd (s_resp s), s_log := s_log s @ [c]\<rparr>)"
| send: "mail_deliver (s_req s) m \<Longrightarrow> hold_step rx read_request s (s\<lparr>s_req := m\<rparr>)"
| resp_send: "mail_deliver (s_resp s) rm \<Longrightarrow> hold_step rx read_request s (s\<lparr>s_resp := rm\<rparr>)"
| wake: "mail_receive mark_held (s_req s) m \<Longrightarrow> hold_step rx read_request s (s\<lparr>s_req := m\<rparr>)"
| resp_wake: "mail_receive keep_decision (s_resp s) rm \<Longrightarrow> hold_step rx read_request s (s\<lparr>s_resp := rm\<rparr>)"

inductive reachable ::
    "rx_compiler \<Rightarrow> (string \<Rightarrow> http_req option) \<Rightarrow> sys \<Rightarrow> bool" for rx read_request where
  start: "reachable rx read_request sys_init"
| step: "reachable rx read_request s \<Longrightarrow> hold_step rx read_request s s' \<Longrightarrow>
     reachable rx read_request s'"

inductive_cases mail_deliverE: "mail_deliver m m'"
inductive_cases mail_receiveE: "mail_receive f m m'"
inductive_simps mail_deliver_iff: "mail_deliver m m'"

section \<open>What the operations do to the queues\<close>

text \<open>
  Each side of the engine changes in one of four ways: not at all, by an entry, by a removal, or
  by a drain. The lemmas say which, in terms of the queue contract.
\<close>

lemma enter_view:
  "hold_enter e flow req raw = Queued e' i c \<Longrightarrow>
   req_enter (flow, req, raw) e = Some e' \<and> i = en_next_id e' \<and> c = ChangeHeld (en_seq e') SideRequest i
     \<lparr>h_id = i, h_flow = flow, h_raw = raw, h_drop_pending = False\<rparr>"
  by (auto simp: req_enter_def hold_enter_def Let_def split: if_splits)

lemma resp_enter_view:
  "hold_response_enter e flow raw = RespQueued e' i c \<Longrightarrow>
   resp_enter (flow, raw) e = Some e' \<and> i = en_resp_next_id e' \<and> c = ChangeHeld (en_seq e') SideResponse i
     \<lparr>h_id = i, h_flow = flow, h_raw = raw, h_drop_pending = False\<rparr>"
  by (auto simp: resp_enter_def hold_response_enter_def Let_def split: if_splits)

lemma remove_req_None [simp]: "remove_req i e = None \<longleftrightarrow> en_queue e i = None"
  by (simp add: remove_req_def)

lemma remove_resp_None [simp]: "remove_resp i e = None \<longleftrightarrow> en_resp_queue e i = None"
  by (simp add: remove_resp_def)

lemma forward_view:
  "forward_req parse i edited e = Inr (e', d, c) \<Longrightarrow>
   \<exists>item. en_queue e i = Some item \<and> \<not> h_drop_pending (hi_held item) \<and>
     remove_req i e = Some (e', en_seq e') \<and> c = ChangeReleased (en_seq e') SideRequest i ReleaseForwarded \<and>
     \<not> d_drop d \<and> (\<exists>r. d = forward_decision r (edited \<noteq> []) \<and> (edited = [] \<longrightarrow> r = hi_req item))"
  by (auto simp: forward_req_def take_for_forward_def remove_req_def remove_req_locked_def Let_def
      forward_decision_def split: option.splits if_splits sum.splits)

lemma drop_view:
  "drop_req i e = Inr (e', d, c) \<Longrightarrow>
   \<exists>item. en_queue e i = Some item \<and> remove_req i e = Some (e', en_seq e') \<and> d = drop_decision \<and>
     c = ChangeReleased (en_seq e') SideRequest i ReleaseDropped"
  by (auto simp: drop_req_def remove_req_def remove_req_locked_def Let_def split: option.splits if_splits)

lemma cancel_view:
  "cancel_req i e = Some (e', d, c) \<Longrightarrow>
   \<exists>item. en_queue e i = Some item \<and> remove_req i e = Some (e', en_seq e') \<and> d_drop d \<and> d_canceled d \<and>
     c = ChangeReleased (en_seq e') SideRequest i ReleaseCanceled"
  by (auto simp: cancel_req_def remove_req_def remove_req_locked_def Let_def split: option.splits if_splits)

lemma resp_forward_view:
  "forward_response i edited e = Inr (e', d, c) \<Longrightarrow>
   \<exists>item. en_resp_queue e i = Some item \<and> \<not> h_drop_pending (ri_held item) \<and>
     remove_resp i e = Some (e', en_seq e') \<and> c = ChangeReleased (en_seq e') SideResponse i ReleaseForwarded \<and>
     \<not> rd_drop d \<and> rd_raw d = (if edited = [] then ri_raw item else edited)"
  by (auto simp: forward_response_def take_response_for_forward_def remove_resp_def remove_resp_locked_def
      Let_def resp_forward_decision_def split: option.splits if_splits sum.splits)

lemma resp_drop_view:
  "drop_response i e = Inr (e', d, c) \<Longrightarrow>
   \<exists>item. en_resp_queue e i = Some item \<and> remove_resp i e = Some (e', en_seq e') \<and> d = resp_drop_decision \<and>
     c = ChangeReleased (en_seq e') SideResponse i ReleaseDropped"
  by (auto simp: drop_response_def remove_resp_def remove_resp_locked_def Let_def split: option.splits if_splits)

lemma resp_cancel_view:
  "cancel_response i e = Some (e', d, c) \<Longrightarrow>
   \<exists>item. en_resp_queue e i = Some item \<and> remove_resp i e = Some (e', en_seq e') \<and> rd_drop d \<and> rd_canceled d \<and>
     c = ChangeReleased (en_seq e') SideResponse i ReleaseCanceled"
  by (auto simp: cancel_response_def remove_resp_def remove_resp_locked_def Let_def split: option.splits if_splits)

lemmas hold_views = enter_view resp_enter_view forward_view drop_view cancel_view resp_forward_view
  resp_drop_view resp_cancel_view

section \<open>Invariants\<close>

definition log_inv :: "sys \<Rightarrow> bool" where
  "log_inv s \<longleftrightarrow>
     map change_seq (s_log s) = map int [1..<Suc (length (s_log s))] \<and>
     en_seq (s_eng s) = int (length (s_log s))"

text \<open>The three shapes of a change to one side, as record updates.\<close>

lemma enter_shape:
  "hold_enter e flow req raw = Queued e' i c \<Longrightarrow>
   en_enabled e \<and> i = en_next_id e + 1 \<and>
   e' = e\<lparr>en_next_id := i, en_queue := (en_queue e)(i \<mapsto>
            \<lparr>hi_held = \<lparr>h_id = i, h_flow = flow, h_raw = raw, h_drop_pending = False\<rparr>, hi_req = req\<rparr>),
          en_order := en_order e @ [i], en_seq := en_seq e + 1\<rparr>"
  by (auto simp: hold_enter_def Let_def split: if_splits)

lemma resp_enter_shape:
  "hold_response_enter e flow raw = RespQueued e' i c \<Longrightarrow>
   en_resp_enabled e \<and> i = en_resp_next_id e + 1 \<and>
   e' = e\<lparr>en_resp_next_id := i, en_resp_queue := (en_resp_queue e)(i \<mapsto>
            \<lparr>ri_held = \<lparr>h_id = i, h_flow = flow, h_raw = raw, h_drop_pending = False\<rparr>, ri_raw = raw\<rparr>),
          en_resp_order := en_resp_order e @ [i], en_seq := en_seq e + 1\<rparr>"
  by (auto simp: hold_response_enter_def Let_def split: if_splits)

lemma remove_shape:
  "remove_req i e = Some (e', n) \<Longrightarrow>
   e' = e\<lparr>en_queue := (en_queue e)(i := None), en_order := remove1 i (en_order e), en_seq := en_seq e + 1\<rparr>"
  by (auto simp: remove_req_def remove_req_locked_def Let_def split: if_splits)

lemma resp_remove_shape:
  "remove_resp i e = Some (e', n) \<Longrightarrow>
   e' = e\<lparr>en_resp_queue := (en_resp_queue e)(i := None), en_resp_order := remove1 i (en_resp_order e),
          en_seq := en_seq e + 1\<rparr>"
  by (auto simp: remove_resp_def remove_resp_locked_def Let_def split: if_splits)

lemma toggle_shape:
  "set_enabled on e = (e', ds, c) \<Longrightarrow>
   c = ChangeReset (en_seq e + 1) \<and>
   (if on then ds = [] \<and> e' = e\<lparr>en_enabled := on, en_seq := en_seq e + 1\<rparr>
    else ds = map (\<lambda>i. (i, drain_decision (the (en_queue e i)))) (en_order e) \<and>
         e' = e\<lparr>en_enabled := on, en_queue := Map.empty, en_order := [], en_seq := en_seq e + 1\<rparr>)"
  by (auto simp: set_enabled_def Let_def)

lemma resp_toggle_shape:
  "set_response_enabled on e = (e', ds, c) \<Longrightarrow>
   c = ChangeReset (en_seq e + 1) \<and>
   (if on then ds = [] \<and> e' = e\<lparr>en_resp_enabled := on, en_seq := en_seq e + 1\<rparr>
    else ds = map (\<lambda>i. (i, resp_drain_decision (the (en_resp_queue e i)))) (en_resp_order e) \<and>
         e' = e\<lparr>en_resp_enabled := on, en_resp_queue := Map.empty, en_resp_order := [],
                en_seq := en_seq e + 1\<rparr>)"
  by (auto simp: set_response_enabled_def Let_def)

lemma filter_shape:
  "set_intercept_filter rx on target pat e = Inr e' \<Longrightarrow>
   \<exists>b t re. e' = e\<lparr>en_match_enabled := b, en_match_target := t, en_match_pattern := pat, en_match_re := re\<rparr>"
  by (auto simp: set_intercept_filter_def Let_def split: option.splits)

lemma rules_shape: "set_mr_rules rx rs e = Inr e' \<Longrightarrow> \<exists>cs. e' = e\<lparr>en_rules := cs\<rparr>"
  by (auto simp: set_mr_rules_def split: option.splits)

lemma pend_shape:
  "set_drop_pending i p e = Inr e' \<Longrightarrow>
   \<exists>item. en_queue e i = Some item \<and>
     e' = e\<lparr>en_queue := (en_queue e)(i \<mapsto> item\<lparr>hi_held := (hi_held item)\<lparr>h_drop_pending := p\<rparr>\<rparr>)\<rparr>"
  by (auto simp: set_drop_pending_def split: option.splits)

lemma resp_pend_shape:
  "set_response_drop_pending i p e = Inr e' \<Longrightarrow>
   \<exists>item. en_resp_queue e i = Some item \<and>
     e' = e\<lparr>en_resp_queue := (en_resp_queue e)(i \<mapsto> item\<lparr>ri_held := (ri_held item)\<lparr>h_drop_pending := p\<rparr>\<rparr>)\<rparr>"
  by (auto simp: set_response_drop_pending_def split: option.splits)

lemmas hold_shapes = enter_shape resp_enter_shape toggle_shape resp_toggle_shape filter_shape rules_shape
  pend_shape resp_pend_shape

section \<open>The abstract gate\<close>

text \<open>
  One side of the engine, abstracted to its queue, arrival order, last id and mailboxes. The
  parameters read an item's mark and id, decide what a drain sends, tell whether a decision drops
  the message, and say what a holder does to the decision it returns.
\<close>

record ('i, 'd) side =
  sd_queue :: "int \<rightharpoonup> 'i"
  sd_order :: "int list"
  sd_next :: int
  sd_mail :: "'d mail"

inductive side_step ::
    "('i \<Rightarrow> bool) \<Rightarrow> ('i \<Rightarrow> int) \<Rightarrow> ('i \<Rightarrow> 'd) \<Rightarrow> ('d \<Rightarrow> bool) \<Rightarrow> ('d \<Rightarrow> 'd) \<Rightarrow>
     ('i, 'd) side \<Rightarrow> ('i, 'd) side \<Rightarrow> bool"
  for pend hid drain drops ret where
  sd_idle: "side_step pend hid drain drops ret s s"
| sd_mark: "sd_queue s i = Some item \<Longrightarrow> hid item' = hid item \<Longrightarrow>
     side_step pend hid drain drops ret s (s\<lparr>sd_queue := (sd_queue s)(i \<mapsto> item')\<rparr>)"
| sd_enter: "hid item = sd_next s + 1 \<Longrightarrow> \<not> pend item \<Longrightarrow>
     side_step pend hid drain drops ret s
       (s\<lparr>sd_queue := (sd_queue s)(sd_next s + 1 \<mapsto> item), sd_order := sd_order s @ [sd_next s + 1],
          sd_next := sd_next s + 1, sd_mail := block_on (sd_next s + 1) (sd_mail s)\<rparr>)"
| sd_take: "sd_queue s i = Some item \<Longrightarrow> (pend item \<longrightarrow> drops d) \<Longrightarrow>
     side_step pend hid drain drops ret s
       (s\<lparr>sd_queue := (sd_queue s)(i := None), sd_order := remove1 i (sd_order s),
          sd_mail := post [(i, d)] (sd_mail s)\<rparr>)"
| sd_drain: "side_step pend hid drain drops ret s
       (s\<lparr>sd_queue := Map.empty, sd_order := [],
          sd_mail := post (map (\<lambda>i. (i, drain (the (sd_queue s i)))) (sd_order s)) (sd_mail s)\<rparr>)"
| sd_cancel: "sd_queue s i = Some item \<Longrightarrow> drops d \<Longrightarrow>
     side_step pend hid drain drops ret s
       (s\<lparr>sd_queue := (sd_queue s)(i := None), sd_order := remove1 i (sd_order s),
          sd_mail := return_with i d (sd_mail s)\<rparr>)"
| sd_send: "mail_deliver (sd_mail s) m \<Longrightarrow> side_step pend hid drain drops ret s (s\<lparr>sd_mail := m\<rparr>)"
| sd_wake: "mail_receive ret (sd_mail s) m \<Longrightarrow> side_step pend hid drain drops ret s (s\<lparr>sd_mail := m\<rparr>)"

definition req_side :: "sys \<Rightarrow> (held_item, decision) side" where
  "req_side s = \<lparr>sd_queue = en_queue (s_eng s), sd_order = en_order (s_eng s),
                 sd_next = en_next_id (s_eng s), sd_mail = s_req s\<rparr>"

definition resp_side :: "sys \<Rightarrow> (resp_item, resp_decision) side" where
  "resp_side s = \<lparr>sd_queue = en_resp_queue (s_eng s), sd_order = en_resp_order (s_eng s),
                  sd_next = en_resp_next_id (s_eng s), sd_mail = s_resp s\<rparr>"

abbreviation req_step :: "(held_item, decision) side \<Rightarrow> (held_item, decision) side \<Rightarrow> bool" where
  "req_step \<equiv> side_step (\<lambda>t. h_drop_pending (hi_held t)) (\<lambda>t. h_id (hi_held t)) drain_decision d_drop mark_held"

abbreviation resp_step :: "(resp_item, resp_decision) side \<Rightarrow> (resp_item, resp_decision) side \<Rightarrow> bool" where
  "resp_step \<equiv> side_step (\<lambda>t. h_drop_pending (ri_held t)) (\<lambda>t. h_id (ri_held t)) resp_drain_decision rd_drop keep_decision"

definition side_inv :: "('i \<Rightarrow> int) \<Rightarrow> ('i, 'd) side \<Rightarrow> bool" where
  "side_inv hid s \<longleftrightarrow>
     sorted_wrt (<) (sd_order s) \<and> set (sd_order s) = dom (sd_queue s) \<and>
     mail_ok (dom (sd_queue s)) (sd_next s) (sd_mail s) \<and>
     (\<forall>i item. sd_queue s i = Some item \<longrightarrow> hid item = i)"

lemma side_inv_distinct: "side_inv hid s \<Longrightarrow> distinct (sd_order s)"
  by (simp add: side_inv_def strict_sorted_iff)

lemma mail_ok_le: "mail_ok Q n m \<Longrightarrow> i \<in> Q \<Longrightarrow> i \<le> n"
  by (simp add: mail_ok_def mail_sets_def)

lemma side_inv_le: "side_inv hid s \<Longrightarrow> i \<in> set (sd_order s) \<Longrightarrow> i \<le> sd_next s"
  by (metis (no_types) mail_ok_le side_inv_def)

lemma side_inv_enter:
  assumes "side_inv hid s" and "hid item = sd_next s + 1"
  shows "side_inv hid (s\<lparr>sd_queue := (sd_queue s)(sd_next s + 1 \<mapsto> item),
           sd_order := sd_order s @ [sd_next s + 1], sd_next := sd_next s + 1,
           sd_mail := block_on (sd_next s + 1) (sd_mail s)\<rparr>)"
proof -
  have "\<forall>i \<in> set (sd_order s). i < sd_next s + 1"
    using side_inv_le [OF assms(1)] by fastforce
  then show ?thesis
    using assms mail_ok_enter [of "dom (sd_queue s)" "sd_next s" "sd_mail s"]
    by (simp add: side_inv_def sorted_wrt_append block_on_def)
qed

lemma side_inv_remove:
  assumes "side_inv hid s" and "mail_ok (dom (sd_queue s) - {i}) (sd_next s) m"
  shows "side_inv hid (s\<lparr>sd_queue := (sd_queue s)(i := None), sd_order := remove1 i (sd_order s), sd_mail := m\<rparr>)"
  using assms side_inv_distinct [OF assms(1)]
  by (simp add: side_inv_def reqq.sorted_wrt_remove1 set_remove1_distinct dom_map_remove)

lemma side_inv_drain:
  assumes "side_inv hid s"
  shows "side_inv hid (s\<lparr>sd_queue := Map.empty, sd_order := [],
           sd_mail := post (map (\<lambda>i. (i, drain (the (sd_queue s i)))) (sd_order s)) (sd_mail s)\<rparr>)"
proof -
  have "mail_ok {} (sd_next s) (post (map (\<lambda>i. (i, drain (the (sd_queue s i)))) (sd_order s)) (sd_mail s))"
    unfolding post_def
    by (rule mail_ok_drain [of "dom (sd_queue s)"])
      (use assms side_inv_distinct [OF assms] in \<open>simp_all add: side_inv_def o_def\<close>)
  then show ?thesis by (simp add: side_inv_def)
qed

lemma side_inv_mark:
  assumes "side_inv hid s" and "sd_queue s i = Some item" and "hid item' = hid item"
  shows "side_inv hid (s\<lparr>sd_queue := (sd_queue s)(i \<mapsto> item')\<rparr>)"
proof -
  have "insert i (dom (sd_queue s)) = dom (sd_queue s)"
    using assms(2) by (simp add: insert_absorb domI)
  then show ?thesis using assms by (simp add: side_inv_def)
qed

lemma side_inv_mail:
  assumes "side_inv hid s" and "mail_ok (dom (sd_queue s)) (sd_next s) m"
  shows "side_inv hid (s\<lparr>sd_mail := m\<rparr>)"
  using assms by (simp add: side_inv_def)

lemma side_inv_mail_ok: "side_inv hid s \<Longrightarrow> mail_ok (dom (sd_queue s)) (sd_next s) (sd_mail s)"
  by (simp add: side_inv_def)

lemma mail_ok_deliver_step: "mail_ok Q n m \<Longrightarrow> mail_deliver m m' \<Longrightarrow> mail_ok Q n m'"
  by (auto elim!: mail_deliverE intro: mail_ok_deliver)

lemma mail_ok_receive_step: "mail_ok Q n m \<Longrightarrow> mail_receive f m m' \<Longrightarrow> mail_ok Q n m'"
  by (auto elim!: mail_receiveE simp: return_with_def intro: mail_ok_receive)

lemma side_inv_step:
  assumes "side_step pend hid drain drops ret s s'" and "side_inv hid s"
  shows "side_inv hid s'"
  using assms
proof induction
  case (sd_take s i item d)
  then show ?case
    using mail_ok_send [OF side_inv_mail_ok, of hid s i d] by (simp add: side_inv_remove post_def domI)
next
  case (sd_cancel s i item d)
  then show ?case
    using mail_ok_cancel [OF side_inv_mail_ok, of hid s i d] by (simp add: side_inv_remove return_with_def domI)
qed (simp_all add: side_inv_enter side_inv_drain side_inv_mark side_inv_mail
      mail_ok_deliver_step [OF side_inv_mail_ok] mail_ok_receive_step [OF side_inv_mail_ok])

section \<open>The engine implements the gate twice\<close>

lemmas side_defs = req_side_def resp_side_def post_def

lemma post_Nil [simp]: "post [] m = m"
  by (simp add: post_def)

lemma req_same: "req_side s' = req_side s \<Longrightarrow> req_step (req_side s) (req_side s')"
  by (simp add: sd_idle)

lemma resp_same: "resp_side s' = resp_side s \<Longrightarrow> resp_step (resp_side s) (resp_side s')"
  by (simp add: sd_idle)

lemma side_update:
  "\<lparr>sd_queue = q, sd_order = ord, sd_next = n, sd_mail = m\<rparr> =
   s\<lparr>sd_queue := q, sd_order := ord, sd_next := n, sd_mail := m\<rparr>"
  by simp

lemma req_take:
  assumes "remove_req i (s_eng s) = Some (e', n)" and "en_queue (s_eng s) i = Some item"
    and "h_drop_pending (hi_held item) \<longrightarrow> d_drop d"
  shows "req_step (req_side s) (req_side (s\<lparr>s_eng := e', s_req := post [(i, d)] (s_req s), s_log := l\<rparr>))"
  using sd_take [of "req_side s" i item "\<lambda>t. h_drop_pending (hi_held t)" d_drop d
      "\<lambda>t. h_id (hi_held t)" drain_decision mark_held] assms remove_shape [OF assms(1)]
  by (simp add: req_side_def)

lemma req_cancel_step:
  assumes "remove_req i (s_eng s) = Some (e', n)" and "en_queue (s_eng s) i = Some item" and "d_drop d"
  shows "req_step (req_side s) (req_side (s\<lparr>s_eng := e', s_req := return_with i d (s_req s), s_log := l\<rparr>))"
  using sd_cancel [of "req_side s" i item d_drop d "\<lambda>t. h_drop_pending (hi_held t)"
      "\<lambda>t. h_id (hi_held t)" drain_decision mark_held] assms remove_shape [OF assms(1)]
  by (simp add: req_side_def)

lemma resp_take:
  assumes "remove_resp i (s_eng s) = Some (e', n)" and "en_resp_queue (s_eng s) i = Some item"
    and "h_drop_pending (ri_held item) \<longrightarrow> rd_drop d"
  shows "resp_step (resp_side s) (resp_side (s\<lparr>s_eng := e', s_resp := post [(i, d)] (s_resp s), s_log := l\<rparr>))"
  using sd_take [of "resp_side s" i item "\<lambda>t. h_drop_pending (ri_held t)" rd_drop d
      "\<lambda>t. h_id (ri_held t)" resp_drain_decision keep_decision] assms resp_remove_shape [OF assms(1)]
  by (simp add: resp_side_def)

lemma resp_cancel_step:
  assumes "remove_resp i (s_eng s) = Some (e', n)" and "en_resp_queue (s_eng s) i = Some item" and "rd_drop d"
  shows "resp_step (resp_side s) (resp_side (s\<lparr>s_eng := e', s_resp := return_with i d (s_resp s), s_log := l\<rparr>))"
  using sd_cancel [of "resp_side s" i item rd_drop d "\<lambda>t. h_drop_pending (ri_held t)"
      "\<lambda>t. h_id (ri_held t)" resp_drain_decision keep_decision] assms resp_remove_shape [OF assms(1)]
  by (simp add: resp_side_def)

lemma remove_other_side:
  "remove_req i e = Some (e', n) \<Longrightarrow>
     en_resp_queue e' = en_resp_queue e \<and> en_resp_order e' = en_resp_order e \<and> en_resp_next_id e' = en_resp_next_id e"
  "remove_resp i e = Some (e', n) \<Longrightarrow>
     en_queue e' = en_queue e \<and> en_order e' = en_order e \<and> en_next_id e' = en_next_id e"
  by (auto dest: remove_shape resp_remove_shape)

lemma req_drain_step:
  "set_enabled on (s_eng s) = (e, ds, c) \<Longrightarrow>
   req_step (req_side s) (req_side (s\<lparr>s_eng := e, s_req := post ds (s_req s), s_log := l\<rparr>))"
  using sd_drain [of "\<lambda>t. h_drop_pending (hi_held t)" "\<lambda>t. h_id (hi_held t)" drain_decision d_drop
      mark_held "req_side s"] sd_idle
  by (cases on) (auto dest!: toggle_shape simp: req_side_def)

lemma resp_drain_step:
  "set_response_enabled on (s_eng s) = (e, ds, c) \<Longrightarrow>
   resp_step (resp_side s) (resp_side (s\<lparr>s_eng := e, s_resp := post ds (s_resp s), s_log := l\<rparr>))"
  using sd_drain [of "\<lambda>t. h_drop_pending (ri_held t)" "\<lambda>t. h_id (ri_held t)" resp_drain_decision rd_drop
      keep_decision "resp_side s"] sd_idle
  by (cases on) (auto dest!: resp_toggle_shape simp: resp_side_def)

lemma req_enter_step:
  assumes "hold_enter (s_eng s) flow req raw = Queued e i c"
  shows "req_step (req_side s) (req_side (s\<lparr>s_eng := e, s_req := block_on i (s_req s), s_log := l\<rparr>))"
  using sd_enter [of "\<lambda>t. h_id (hi_held t)"
      "\<lparr>hi_held = \<lparr>h_id = i, h_flow = flow, h_raw = raw, h_drop_pending = False\<rparr>, hi_req = req\<rparr>"
      "req_side s" "\<lambda>t. h_drop_pending (hi_held t)" drain_decision d_drop mark_held] enter_shape [OF assms]
  by (simp add: req_side_def)

lemma resp_enter_step:
  assumes "hold_response_enter (s_eng s) flow raw = RespQueued e i c"
  shows "resp_step (resp_side s) (resp_side (s\<lparr>s_eng := e, s_resp := block_on i (s_resp s), s_log := l\<rparr>))"
  using sd_enter [of "\<lambda>t. h_id (ri_held t)"
      "\<lparr>ri_held = \<lparr>h_id = i, h_flow = flow, h_raw = raw, h_drop_pending = False\<rparr>, ri_raw = raw\<rparr>"
      "resp_side s" "\<lambda>t. h_drop_pending (ri_held t)" resp_drain_decision rd_drop keep_decision] resp_enter_shape [OF assms]
  by (simp add: resp_side_def)

lemma req_mark_step:
  assumes "set_drop_pending i p (s_eng s) = Inr e"
  shows "req_step (req_side s) (req_side (s\<lparr>s_eng := e\<rparr>))"
proof -
  obtain item where i: "en_queue (s_eng s) i = Some item" and
    e: "e = (s_eng s)\<lparr>en_queue := (en_queue (s_eng s))(i \<mapsto> item\<lparr>hi_held := (hi_held item)\<lparr>h_drop_pending := p\<rparr>\<rparr>)\<rparr>"
    using pend_shape [OF assms] by blast
  show ?thesis
    using sd_mark [of "req_side s" i item "\<lambda>t. h_id (hi_held t)"
        "item\<lparr>hi_held := (hi_held item)\<lparr>h_drop_pending := p\<rparr>\<rparr>"
        "\<lambda>t. h_drop_pending (hi_held t)" drain_decision d_drop mark_held] i e
    by (simp add: req_side_def)
qed

lemma resp_mark_step:
  assumes "set_response_drop_pending i p (s_eng s) = Inr e"
  shows "resp_step (resp_side s) (resp_side (s\<lparr>s_eng := e\<rparr>))"
proof -
  obtain item where i: "en_resp_queue (s_eng s) i = Some item" and
    e: "e = (s_eng s)\<lparr>en_resp_queue :=
          (en_resp_queue (s_eng s))(i \<mapsto> item\<lparr>ri_held := (ri_held item)\<lparr>h_drop_pending := p\<rparr>\<rparr>)\<rparr>"
    using resp_pend_shape [OF assms] by blast
  show ?thesis
    using sd_mark [of "resp_side s" i item "\<lambda>t. h_id (ri_held t)"
        "item\<lparr>ri_held := (ri_held item)\<lparr>h_drop_pending := p\<rparr>\<rparr>"
        "\<lambda>t. h_drop_pending (ri_held t)" resp_drain_decision rd_drop keep_decision] i e
    by (simp add: resp_side_def)
qed

lemma req_mail_step:
  "mail_deliver (s_req s) m \<Longrightarrow> req_step (req_side s) (req_side (s\<lparr>s_req := m\<rparr>))"
  "mail_receive mark_held (s_req s) m \<Longrightarrow> req_step (req_side s) (req_side (s\<lparr>s_req := m\<rparr>))"
  using sd_send [of "req_side s" m] sd_wake [of mark_held "req_side s" m] by (simp_all add: req_side_def)

lemma resp_mail_step:
  "mail_deliver (s_resp s) m \<Longrightarrow> resp_step (resp_side s) (resp_side (s\<lparr>s_resp := m\<rparr>))"
  "mail_receive keep_decision (s_resp s) m \<Longrightarrow> resp_step (resp_side s) (resp_side (s\<lparr>s_resp := m\<rparr>))"
  using sd_send [of "resp_side s" m] sd_wake [of keep_decision "resp_side s" m] by (simp_all add: resp_side_def)

lemma req_refines: "hold_step rx read_request s s' \<Longrightarrow> req_step (req_side s) (req_side s')"
proof (induction rule: hold_step.induct)
  case (toggle on s e ds c)
  then show ?case by (rule req_drain_step)
next
  case (hold s flow req raw e i c)
  then show ?case by (rule req_enter_step)
next
  case (forward i edited s e d c)
  then show ?case using req_take by (auto dest!: forward_view)
next
  case (drop i s e d c)
  then show ?case using req_take by (auto dest!: drop_view simp: drop_decision_def)
next
  case (cancel i s e d c)
  then show ?case using req_cancel_step by (auto dest!: cancel_view)
next
  case (pend i p s e)
  then show ?case by (rule req_mark_step)
next
  case (send s m)
  then show ?case by (rule req_mail_step)
next
  case (wake s m)
  then show ?case by (rule req_mail_step)
next
  case (resp_toggle on s e ds c)
  show ?case
    by (rule req_same) (use resp_toggle in \<open>auto dest!: resp_toggle_shape simp: req_side_def split: if_splits\<close>)
qed (auto intro!: sd_idle dest!: filter_shape rules_shape resp_enter_shape resp_forward_view resp_drop_view resp_cancel_view
       remove_other_side resp_pend_shape simp: req_side_def)

lemma resp_refines: "hold_step rx read_request s s' \<Longrightarrow> resp_step (resp_side s) (resp_side s')"
proof (induction rule: hold_step.induct)
  case (resp_toggle on s e ds c)
  then show ?case by (rule resp_drain_step)
next
  case (resp_hold s flow raw e i c)
  then show ?case by (rule resp_enter_step)
next
  case (resp_forward i edited s e d c)
  then show ?case using resp_take by (auto dest!: resp_forward_view)
next
  case (resp_drop i s e d c)
  then show ?case using resp_take by (auto dest!: resp_drop_view simp: resp_drop_decision_def)
next
  case (resp_cancel i s e d c)
  then show ?case using resp_cancel_step by (auto dest!: resp_cancel_view)
next
  case (resp_pend i p s e)
  then show ?case by (rule resp_mark_step)
next
  case (resp_send s m)
  then show ?case by (rule resp_mail_step)
next
  case (resp_wake s m)
  then show ?case by (rule resp_mail_step)
next
  case (toggle on s e ds c)
  show ?case
    by (rule resp_same) (use toggle in \<open>auto dest!: toggle_shape simp: resp_side_def split: if_splits\<close>)
qed (auto intro!: sd_idle dest!: filter_shape rules_shape enter_shape forward_view drop_view cancel_view
       remove_other_side pend_shape simp: resp_side_def)

section \<open>Reachable states\<close>

lemma side_inv_init: "side_inv hid \<lparr>sd_queue = Map.empty, sd_order = [], sd_next = 0, sd_mail = mail_init\<rparr>"
  by (simp add: side_inv_def mail_ok_init)

lemma reachable_sides:
  "reachable rx read_request s \<Longrightarrow>
   side_inv (\<lambda>t. h_id (hi_held t)) (req_side s) \<and> side_inv (\<lambda>t. h_id (ri_held t)) (resp_side s)"
proof (induction rule: reachable.induct)
  case start
  show ?case by (simp add: req_side_def resp_side_def sys_init_def new_intercept_def side_inv_init)
next
  case (step s s')
  then show ?case
    using side_inv_step [OF req_refines [OF step(2)]] side_inv_step [OF resp_refines [OF step(2)]] by simp
qed


section \<open>The change log\<close>

lemma log_step:
  "hold_step rx read_request s s' \<Longrightarrow>
   s_log s' = s_log s \<and> en_seq (s_eng s') = en_seq (s_eng s) \<or>
   (\<exists>c. s_log s' = s_log s @ [c] \<and> change_seq c = en_seq (s_eng s) + 1 \<and>
        en_seq (s_eng s') = en_seq (s_eng s) + 1)"
  by (induction rule: hold_step.induct)
     (auto dest!: hold_views dest: hold_shapes remove_shape resp_remove_shape
       simp: hold_enter_def hold_response_enter_def Let_def split: if_splits)

lemma reachable_log: "reachable rx read_request s \<Longrightarrow> log_inv s"
proof (induction rule: reachable.induct)
  case start
  show ?case by (simp add: log_inv_def sys_init_def new_intercept_def)
next
  case (step s s')
  then show ?case using log_step [OF step(2)] by (auto simp: log_inv_def)
qed

section \<open>Mirrors of the queues\<close>

text \<open>
  What a consumer of the change stream keeps of a held message: its id, flow and raw text.
  \<open>apply_delta\<close> is the contract of \<open>Change\<close>: append what is held, delete what is released, and
  take a new snapshot (\<open>None\<close>) after a reset.
\<close>

definition held_view :: "held \<Rightarrow> int \<times> held_flow option \<times> string" where
  "held_view h = (h_id h, h_flow h, h_raw h)"







definition side_mirror :: "('i \<Rightarrow> held) \<Rightarrow> ('i, 'd) side \<Rightarrow> (int \<times> held_flow option \<times> string) list" where
  "side_mirror f s = map (\<lambda>i. held_view (f (the (sd_queue s i)))) (sd_order s)"



lemma side_mirror_update:
  assumes "sd_queue s i = Some item" and "held_view (f item') = held_view (f item)"
    and "sd_queue s' = (sd_queue s)(i \<mapsto> item')" and "sd_order s' = sd_order s"
  shows "side_mirror f s' = side_mirror f s"
  using assms by (simp add: side_mirror_def)

















section \<open>Switching a side off\<close>

definition off_empty :: "engine \<Rightarrow> bool" where
  "off_empty e \<longleftrightarrow> (en_enabled e \<or> en_queue e = Map.empty) \<and> (en_resp_enabled e \<or> en_resp_queue e = Map.empty)"

lemma off_empty_remove:
  "remove_req i e = Some (e', n) \<Longrightarrow> off_empty e \<Longrightarrow> off_empty e'"
  "remove_resp i e = Some (e', n) \<Longrightarrow> off_empty e \<Longrightarrow> off_empty e'"
  by (auto dest!: remove_shape resp_remove_shape simp: off_empty_def)

lemma off_empty_step: "hold_step rx rr s s' \<Longrightarrow> off_empty (s_eng s) \<Longrightarrow> off_empty (s_eng s')"
proof (induction rule: hold_step.induct)
  case (toggle on s e ds c)
  with toggle_shape [OF toggle(1)] show ?case by (auto simp: off_empty_def split: if_splits)
next
  case (resp_toggle on s e ds c)
  with resp_toggle_shape [OF resp_toggle(1)] show ?case by (auto simp: off_empty_def split: if_splits)
qed (auto dest!: forward_view drop_view cancel_view resp_forward_view resp_drop_view resp_cancel_view
       intro: off_empty_remove
     | auto dest!: filter_shape rules_shape enter_shape resp_enter_shape pend_shape resp_pend_shape
         simp: off_empty_def)+

lemma reachable_off_empty: "reachable rx rr s \<Longrightarrow> off_empty (s_eng s)"
  by (induction rule: reachable.induct)
     (simp_all add: off_empty_step, simp add: off_empty_def sys_init_def new_intercept_def)

section \<open>A run of the system\<close>

text \<open>Intercept is switched on, one request is held as number 1, and then marked to be dropped.\<close>

definition demo_request :: http_req where
  "demo_request =
     \<lparr>rq_method = ''GET'', rq_scheme = ''http'', rq_url_host = ''a.test'', rq_path = ''/'', rq_host = ''a.test'',
      rq_header = [], rq_body = None, rq_content_length = 0, rq_remote_addr = [], rq_request_uri = []\<rparr>"

definition demo_on :: sys where
  "demo_on = sys_init\<lparr>s_eng := fst (set_enabled True new_intercept), s_log := [ChangeReset 1]\<rparr>"

definition demo_item :: "bool \<Rightarrow> held_item" where
  "demo_item p =
     \<lparr>hi_held = \<lparr>h_id = 1, h_flow = None, h_raw = ''GET /'', h_drop_pending = p\<rparr>, hi_req = demo_request\<rparr>"

definition demo_held :: sys where
  "demo_held = demo_on
     \<lparr>s_eng := (s_eng demo_on)\<lparr>en_next_id := 1, en_queue := [1 \<mapsto> demo_item False], en_order := [1], en_seq := 2\<rparr>,
      s_req := block_on 1 mail_init,
      s_log := [ChangeReset 1, ChangeHeld 2 SideRequest 1 (hi_held (demo_item False))]\<rparr>"

definition demo_marked :: sys where
  "demo_marked = demo_held\<lparr>s_eng := (s_eng demo_held)\<lparr>en_queue := [1 \<mapsto> demo_item True]\<rparr>\<rparr>"

lemma demo_on_step: "hold_step rx rr sys_init demo_on"
  using hold_step.toggle [of True sys_init] by (simp add: demo_on_def sys_init_def set_enabled_def new_intercept_def)

lemma demo_held_step: "hold_step rx rr demo_on demo_held"
proof -
  have "hold_enter (s_eng demo_on) None demo_request ''GET /'' =
      Queued (s_eng demo_held) 1 (ChangeHeld 2 SideRequest 1 (hi_held (demo_item False)))"
    by (simp add: hold_enter_def filtered_out_def demo_on_def demo_held_def demo_item_def sys_init_def set_enabled_def
        new_intercept_def Let_def)
  from hold_step.hold [OF this] show ?thesis
    by (simp add: demo_held_def demo_on_def sys_init_def)
qed

lemma demo_marked_step: "hold_step rx rr demo_held demo_marked"
proof -
  have "set_drop_pending 1 True (s_eng demo_held) = Inr (s_eng demo_marked)"
    by (simp add: set_drop_pending_def demo_marked_def demo_held_def demo_item_def)
  from hold_step.pend [OF this] show ?thesis by (simp add: demo_marked_def)
qed

lemma demo_reachable:
  "reachable rx rr sys_init" "reachable rx rr demo_on" "reachable rx rr demo_held" "reachable rx rr demo_marked"
  using reachable.start reachable.step demo_on_step demo_held_step demo_marked_step by metis+


lemma demo_drop:
  "drop_req 1 (s_eng demo_marked) =
     Inr ((s_eng demo_marked)\<lparr>en_queue := Map.empty, en_order := [], en_seq := 3\<rparr>, drop_decision,
          ChangeReleased 3 SideRequest 1 ReleaseDropped)"
  by (simp add: drop_req_def remove_req_def remove_req_locked_def demo_marked_def demo_held_def)

definition demo_dropped :: sys where
  "demo_dropped = demo_marked
     \<lparr>s_eng := (s_eng demo_marked)\<lparr>en_queue := Map.empty, en_order := [], en_seq := 3\<rparr>,
      s_req := post [(1, drop_decision)] (s_req demo_marked),
      s_log := s_log demo_marked @ [ChangeReleased 3 SideRequest 1 ReleaseDropped]\<rparr>"

lemma demo_dropped_step: "hold_step rx rr demo_marked demo_dropped"
  using hold_step.drop [OF demo_drop] by (simp add: demo_dropped_def)

section \<open>Properties\<close>


lemma resp_mail_ok:
  "reachable rx rr s \<Longrightarrow> mail_ok (dom (en_resp_queue (s_eng s))) (en_resp_next_id (s_eng s)) (s_resp s)"
  using reachable_sides side_inv_mail_ok by (fastforce simp: resp_side_def)

lemma mail_sets_out: "mail_sets Q S B D W n \<Longrightarrow> D \<inter> (W \<union> Q) = {}"
  unfolding mail_sets_def by blast

lemma mail_ok_out:
  "mail_ok Q n m \<Longrightarrow> distinct (map fst (m_out m)) \<and> set (map fst (m_out m)) \<inter> (m_wait m \<union> Q) = {}"
  unfolding mail_ok_def using mail_sets_out by metis

text \<open>A decision in flight can always be sent: its holder's one-place channel is empty.\<close>

lemma send_enabled:
  assumes "mail_ok Q n m" and "(i, d) \<in> set (m_sends m)"
  shows "\<exists>m'. mail_deliver m m' \<and> m_box m' i = Some d"
proof -
  obtain xs ys where "m_sends m = xs @ (i, d) # ys"
    using split_list [OF assms(2)] by blast
  then have "mail_deliver m (m\<lparr>m_sends := xs @ ys, m_box := (m_box m)(i \<mapsto> d)\<rparr>)"
    using deliver [of m xs i d ys] mail_ok_send_room [OF assms] by simp
  then show ?thesis by fastforce
qed

lemma wake_enabled:
  assumes "mail_ok Q n m" and "m_box m i = Some d"
  shows "\<exists>m'. mail_receive f m m' \<and> i \<notin> m_wait m' \<and> (i, f d) \<in> set (m_out m')"
proof -
  have "i \<in> m_wait m" using mail_ok_wait [OF assms(1)] assms(2) by simp
  from receive [OF assms(2) this, of f] show ?thesis by (fastforce simp: return_with_def)
qed


lemma drop_response_enabled:
  "en_resp_queue e i \<noteq> None \<Longrightarrow> \<exists>e' c. drop_response i e = Inr (e', resp_drop_decision, c)"
  by (auto simp: drop_response_def remove_resp_def remove_resp_locked_def)

text \<open>
  (C3) The hold gate is implemented twice by one engine: every step of the system, whatever
  operation it is, is a step of the abstract gate on the request side and a step of it on the
  response side; an operation on one side is idle on the other.
\<close>

theorem hold_gate_refinement:
  assumes "hold_step rx read_request s s'"
  shows "req_step (req_side s) (req_side s') \<and> resp_step (resp_side s) (resp_side s')"
  using assms req_refines resp_refines by blast

theorem hold_gate_refinement_witness: "req_step (req_side demo_held) (req_side demo_marked)"
  using hold_gate_refinement [OF demo_marked_step] by simp



text \<open>The same for responses: no held response is lost and no sender blocks.\<close>

lemma response_hold_never_lost:
  assumes "reachable rx read_request s" and "i \<in> m_wait (s_resp s)"
  shows "(en_resp_enabled (s_eng s) \<and> i \<in> set (en_resp_order (s_eng s)) \<and>
            (\<exists>e c. drop_response i (s_eng s) = Inr (e, resp_drop_decision, c))) \<or>
         (\<exists>d m. (i, d) \<in> set (m_sends (s_resp s)) \<and> mail_deliver (s_resp s) m \<and> m_box m i = Some d) \<or>
         (\<exists>d m. mail_receive keep_decision (s_resp s) m \<and> i \<notin> m_wait m \<and> (i, d) \<in> set (m_out m))"
proof -
  note ok = resp_mail_ok [OF assms(1)]
  have ord: "set (en_resp_order (s_eng s)) = dom (en_resp_queue (s_eng s))"
    using reachable_sides [OF assms(1)] by (simp add: side_inv_def resp_side_def)
  have off: "en_resp_queue (s_eng s) i \<noteq> None \<Longrightarrow> en_resp_enabled (s_eng s)"
    using reachable_off_empty [OF assms(1)] by (auto simp: off_empty_def)
  from mail_ok_wait [OF ok, of i] assms(2) consider
    "i \<in> dom (en_resp_queue (s_eng s))" | d where "(i, d) \<in> set (m_sends (s_resp s))" |
    d where "m_box (s_resp s) i = Some d" by auto
  then show ?thesis
  proof cases
    case 1
    then show ?thesis using ord off drop_response_enabled [of "s_eng s" i] by (simp add: domIff)
  next
    case 2
    then show ?thesis using send_enabled [OF ok] by blast
  next
    case 3
    then show ?thesis using wake_enabled [OF ok, of i _ keep_decision] by blast
  qed
qed

text \<open>
  (C2) A message marked to be dropped is never forwarded behind the operator's back: whatever
  step takes a marked request or response off its queue (a forward, a drain when intercept is
  switched off, a cancellation, a drop), the decision it leaves for the holder drops the message.
\<close>

theorem marked_item_never_forwarded:
  assumes "hold_step rx read_request s s'" and "reachable rx read_request s"
  shows "(\<forall>item. en_queue (s_eng s) i = Some item \<longrightarrow> h_drop_pending (hi_held item) \<longrightarrow>
            en_queue (s_eng s') i = None \<longrightarrow>
            (\<exists>d. d_drop d \<and> (i, d) \<in> set (m_sends (s_req s')) \<union> set (m_out (s_req s')))) \<and>
         (\<forall>item. en_resp_queue (s_eng s) i = Some item \<longrightarrow> h_drop_pending (ri_held item) \<longrightarrow>
            en_resp_queue (s_eng s') i = None \<longrightarrow>
            (\<exists>d. rd_drop d \<and> (i, d) \<in> set (m_sends (s_resp s')) \<union> set (m_out (s_resp s'))))"
proof -
  have gen: "\<exists>d. drops d \<and> (i, d) \<in> set (m_sends (sd_mail t')) \<union> set (m_out (sd_mail t'))"
    if "side_step pend hid drain drops ret t t'" "sd_queue t i = Some item" "pend item"
      "sd_queue t' i = None" "set (sd_order t) = dom (sd_queue t)" "\<And>x. pend x \<Longrightarrow> drops (drain x)"
    for pend hid and drain :: "'x \<Rightarrow> 'y" and drops ret t t' item
    using that
  proof (induction rule: side_step.induct)
    case (sd_drain t)
    then have "i \<in> set (sd_order t)" "drops (drain (the (sd_queue t i)))" by auto
    then show ?case by (auto simp: post_def image_iff)
  qed (auto simp: post_def return_with_def split: if_splits)
  have "set (sd_order (req_side s)) = dom (sd_queue (req_side s))"
    "set (sd_order (resp_side s)) = dom (sd_queue (resp_side s))"
    using reachable_sides [OF assms(2)] by (simp_all add: side_inv_def)
  then show ?thesis
    using gen [OF req_refines [OF assms(1)]] gen [OF resp_refines [OF assms(1)]]
    by (simp add: req_side_def resp_side_def drain_decision_def drop_decision_def resp_drain_decision_def
        resp_drop_decision_def)
qed

theorem marked_item_never_forwarded_witness:
  "\<exists>d. d_drop d \<and> (1, d) \<in> set (m_sends (s_req demo_dropped)) \<union> set (m_out (s_req demo_dropped))"
  using marked_item_never_forwarded [OF demo_dropped_step [of "\<lambda>p. None" "\<lambda>s. None"] demo_reachable(4), of 1]
  by (simp add: demo_dropped_def demo_marked_def demo_held_def demo_item_def)

text \<open>
  Sequencing of the change stream: \<open>seq\<close> counts the changes of both queues without a gap,
  the n-th change carries the number n, and a snapshot's number is that of the last change.
\<close>

theorem change_seq_contiguous:
  assumes "reachable rx read_request s"
  shows "map change_seq (s_log s) = map int [1..<Suc (length (s_log s))] \<and>
         sn_seq (take_snapshot (s_eng s)) = int (length (s_log s))"
  using reachable_log [OF assms] by (simp add: log_inv_def take_snapshot_def)

theorem change_seq_contiguous_witness: "map change_seq (s_log demo_marked) = [1, 2]"
  using change_seq_contiguous [OF demo_reachable(4) [of "\<lambda>p. None" "\<lambda>s. None"]]
  by (simp add: demo_marked_def demo_held_def)



text \<open>
  (C5) Each hold has one outcome and ids are never reused: in every reachable state the holders
  that have returned did so once, none of them is still blocked or queued, and both queues are in
  arrival order, with ids no larger than the last one given out.
\<close>

theorem one_outcome_per_hold:
  assumes "reachable rx read_request s"
  shows "distinct (map fst (m_out (s_req s))) \<and> distinct (map fst (m_out (s_resp s))) \<and>
         set (map fst (m_out (s_req s))) \<inter> (m_wait (s_req s) \<union> set (en_order (s_eng s))) = {} \<and>
         set (map fst (m_out (s_resp s))) \<inter> (m_wait (s_resp s) \<union> set (en_resp_order (s_eng s))) = {} \<and>
         sorted_wrt (<) (en_order (s_eng s)) \<and> sorted_wrt (<) (en_resp_order (s_eng s)) \<and>
         set (en_order (s_eng s)) \<subseteq> {..en_next_id (s_eng s)} \<and>
         set (en_resp_order (s_eng s)) \<subseteq> {..en_resp_next_id (s_eng s)}"
proof -
  have gen: "distinct (map fst (m_out (sd_mail t))) \<and>
      set (map fst (m_out (sd_mail t))) \<inter> (m_wait (sd_mail t) \<union> set (sd_order t)) = {} \<and>
      sorted_wrt (<) (sd_order t) \<and> set (sd_order t) \<subseteq> {..sd_next t}"
    if i: "side_inv hid t" for hid :: "'x \<Rightarrow> int" and t :: "('x, 'y) side"
  proof -
    have "set (sd_order t) \<subseteq> {..sd_next t}"
      using side_inv_le [OF i] by auto
    moreover have "distinct (map fst (m_out (sd_mail t))) \<and>
        set (map fst (m_out (sd_mail t))) \<inter> (m_wait (sd_mail t) \<union> dom (sd_queue t)) = {}"
      by (rule mail_ok_out [OF side_inv_mail_ok [OF i]])
    ultimately show ?thesis using i by (simp add: side_inv_def)
  qed
  note both = reachable_sides [OF assms]
  show ?thesis
    using gen [OF conjunct1 [OF both]] gen [OF conjunct2 [OF both]]
    by (simp add: req_side_def resp_side_def)
qed

theorem one_outcome_per_hold_witness: "sorted_wrt (<) (en_order (s_eng demo_held))"
  using one_outcome_per_hold [OF demo_reachable(3) [of "\<lambda>p. None" "\<lambda>s. None"]] by simp

text \<open>
  The number of a snapshot does not identify its contents: marking an item to be dropped changes
  the queue that the next snapshot reports, and \<open>seq\<close> stays the same.
\<close>

lemma snapshot_seq_not_identifying:
  "sn_seq (take_snapshot (s_eng demo_marked)) = sn_seq (take_snapshot (s_eng demo_held)) \<and>
   sn_queue (take_snapshot (s_eng demo_marked)) \<noteq> sn_queue (take_snapshot (s_eng demo_held))"
  by (simp add: take_snapshot_def demo_marked_def demo_held_def demo_item_def)

end
