(* ===== verification/HostPattern.thy ===== *)
theory HostPattern
  imports GoBase
begin

text \<open>
  Model of \<open>internal/hostpattern/hostpattern.go\<close>: host normalisation and the exact and
  \<open>*.wildcard\<close> host patterns that scope rules (theory Scope) and the TLS bypass list use.
  The lemmas characterise the wildcard match and show that matching depends on the
  normalised forms only. The locale \<open>host_matching\<close> is the contract a client of the package
  relies on; it is interpreted on the model of \<open>Normalize\<close> and \<open>MatchHost\<close>.
\<close>

section \<open>Operations\<close>

definition is_dot :: "char \<Rightarrow> bool" where
  "is_dot c \<longleftrightarrow> c = CHR ''.''"

text \<open>\<open>Normalize\<close>: \<open>strings.TrimRight(strings.ToLower(host), ".")\<close>.\<close>

definition normalize_host :: "string \<Rightarrow> string" where
  "normalize_host host = trim_right_by is_dot (to_lower host)"

definition match_host :: "string \<Rightarrow> string \<Rightarrow> bool" where
  "match_host pattern host =
     (if pattern = '''' then True
      else
        let pattern = normalize_host pattern;
            host = normalize_host host
        in if has_prefix pattern ''*.''
           then (let base = drop 2 pattern in host = base \<or> has_suffix host (''.'' @ base))
           else host = pattern)"

section \<open>The contract a client relies on\<close>

text \<open>
  Hosts are compared through a normal form: normalising is idempotent, matching looks at the
  normal form of the host, an empty pattern is no constraint and a host matches itself.
\<close>

locale host_matching =
  fixes norm :: "string \<Rightarrow> string"
    and hmatch :: "string \<Rightarrow> string \<Rightarrow> bool"
  assumes norm_idem: "norm (norm h) = norm h"
    and match_any: "hmatch [] h"
    and match_norm_host: "hmatch p h = hmatch p (norm h)"
    and match_norm_pattern: "norm p \<noteq> [] \<Longrightarrow> hmatch p h = hmatch (norm p) h"
    and match_self: "norm h \<noteq> [] \<Longrightarrow> hmatch h h"
begin

lemma match_same_norm: "norm h = norm h' \<Longrightarrow> hmatch p h = hmatch p h'"
  by (metis match_norm_host)

lemma match_equal_hosts: "norm p = norm h \<Longrightarrow> norm p \<noteq> [] \<Longrightarrow> hmatch p h"
  by (metis match_norm_host match_norm_pattern match_self norm_idem)

end

section \<open>Lemmas\<close>

lemma char_lower_dot [simp]: "is_dot (char_lower c) = is_dot c"
proof -
  have "byte_val CHR ''.'' = 46" by (simp add: byte_val_def)
  then show ?thesis by (simp add: is_dot_def char_lower_eq_iff_ascii)
qed

lemma to_lower_trim_right_dot: "to_lower (trim_right_by is_dot s) = trim_right_by is_dot (to_lower s)"
  by (induction s rule: rev_induct) (auto simp: trim_right_by_snoc to_lower_def)

lemma normalize_host_idem [simp, go_str]: "normalize_host (normalize_host h) = normalize_host h"
  by (simp add: normalize_host_def to_lower_trim_right_dot)

lemma normalize_host_Nil [simp]: "normalize_host [] = []"
  by (simp add: normalize_host_def to_lower_def)

lemma normalize_host_trailing_dot [simp]: "normalize_host (h @ ''.'') = normalize_host h"
  by (simp add: normalize_host_def to_lower_def trim_right_by_snoc is_dot_def char_lower_def byte_val_def)

lemma normalize_host_case: "to_lower h = to_lower h' \<Longrightarrow> normalize_host h = normalize_host h'"
  by (simp add: normalize_host_def)

lemma normalize_host_wildcard:
  "normalize_host base \<noteq> [] \<Longrightarrow> normalize_host (''*.'' @ base) = ''*.'' @ normalize_host base"
  unfolding normalize_host_def to_lower_append
  by (subst trim_right_by_append_nonempty)
     (simp_all add: to_lower_def char_lower_def byte_val_def)

lemma match_host_empty [simp]: "match_host [] h"
  by (simp add: match_host_def)

lemma match_host_wildcard:
  "normalize_host base \<noteq> [] \<Longrightarrow>
   match_host (''*.'' @ base) h \<longleftrightarrow>
     normalize_host h = normalize_host base \<or>
     (\<exists>sub. normalize_host h = sub @ ''.'' @ normalize_host base)"
  using normalize_host_wildcard [of base]
  by (simp add: match_host_def Let_def has_suffix_iff)

lemma match_host_exact:
  "pattern \<noteq> [] \<Longrightarrow> \<not> has_prefix (normalize_host pattern) ''*.'' \<Longrightarrow>
   match_host pattern h \<longleftrightarrow> normalize_host h = normalize_host pattern"
  by (simp add: match_host_def Let_def)

interpretation hm: host_matching normalize_host match_host
proof unfold_locales
  fix h p
  show "normalize_host (normalize_host h) = normalize_host h" by simp
  show "match_host [] h" by simp
  show "match_host p h = match_host p (normalize_host h)" by (simp add: match_host_def Let_def)
  assume "normalize_host p \<noteq> []"
  then show "match_host p h = match_host (normalize_host p) h"
    by (auto simp: match_host_def Let_def)
next
  fix h
  assume "normalize_host h \<noteq> []"
  then show "match_host h h"
    by (cases "has_prefix (normalize_host h) ''*.''")
       (auto simp: match_host_def Let_def has_prefix_iff has_suffix_iff)
qed

end
