(* ===== verification/Scope.thy ===== *)
theory Scope
  imports HostPattern Regex
begin

text \<open>
  Model of \<open>internal/scope/scope.go\<close>: the compiled target-scope rules and the decisions
  \<open>InScope\<close>, \<open>HostInScope\<close> and \<open>URLInScope\<close>. The engine is the pair of fields that
  \<open>SetRules\<close> swaps under the lock. The lemmas give the abstract specification: a flow is in
  scope iff no active exclude rule matches it and, when there is an active include rule, one of
  them matches; so the decision does not depend on the order of the rules.
\<close>

section \<open>Data\<close>

text \<open>\<open>store.ScopeRule\<close>.\<close>

record scope_rule =
  sr_id :: int
  sr_ord :: int
  sr_enabled :: bool
  sr_action :: string
  sr_host :: string
  sr_path :: string
  sr_scheme :: string
  sr_port :: int

record compiled_rule =
  cr_include :: bool
  cr_host_exact :: string
  cr_host_wild :: string
  cr_host_re :: "regex option"
  cr_path_exact :: string
  cr_path_re :: "regex option"
  cr_scheme :: string
  cr_port :: int

record scope_engine =
  eng_rules :: "compiled_rule list"
  eng_has_incl :: bool

text \<open>The fields of \<open>store.Flow\<close> that the matcher reads.\<close>

record flow_target =
  ft_scheme :: string
  ft_host :: string
  ft_port :: int
  ft_path :: string

section \<open>Compiling rules\<close>

definition regex_literals :: "string list" where
  "regex_literals =
     [''.*'', ''^'', ''$'', ''('', '')'', ''['', '']'', ''|'', ''+'', ''?'',
      [CHR 0x5C, CHR ''d''], [CHR 0x5C, CHR ''w''], [CHR 0x5C, CHR ''s'']]"

definition slash_wrapped :: "string \<Rightarrow> bool" where
  "slash_wrapped s \<longleftrightarrow> length s \<ge> 2 \<and> s ! 0 = CHR ''/'' \<and> s ! (length s - 1) = CHR ''/''"

definition looks_like_regex :: "string \<Rightarrow> bool" where
  "looks_like_regex s \<longleftrightarrow> slash_wrapped s \<or> list_ex (str_contains s) regex_literals"

definition unwrap_regex_slashes :: "string \<Rightarrow> string" where
  "unwrap_regex_slashes s = (if slash_wrapped s then take (length s - 2) (drop 1 s) else s)"

definition compile_host_pattern ::
    "rx_compiler \<Rightarrow> string \<Rightarrow> string \<times> string \<times> regex option" where
  "compile_host_pattern rx pattern =
     (if pattern = [] then ([], [], None)
      else
        let pattern = to_lower pattern
        in if has_prefix pattern ''*.'' then ([], trim_prefix pattern ''*.'', None)
           else if looks_like_regex pattern then
             (case rx (''(?i)'' @ unwrap_regex_slashes pattern) of
                Some r \<Rightarrow> ([], [], Some r)
              | None \<Rightarrow> (pattern, [], None))
           else (pattern, [], None))"

definition compile_path_pattern :: "rx_compiler \<Rightarrow> string \<Rightarrow> string \<times> regex option" where
  "compile_path_pattern rx pattern =
     (if pattern = [] then ([], None)
      else if looks_like_regex pattern then
        (case rx pattern of Some r \<Rightarrow> ([], Some r) | None \<Rightarrow> (pattern, None))
      else (pattern, None))"

definition compile_rule :: "rx_compiler \<Rightarrow> scope_rule \<Rightarrow> compiled_rule" where
  "compile_rule rx r =
     (let (he, hw, hr) = compile_host_pattern rx (sr_host r);
          (pe, pr) = compile_path_pattern rx (sr_path r)
      in \<lparr>cr_include = (sr_action r \<noteq> ''exclude''), cr_host_exact = he, cr_host_wild = hw,
          cr_host_re = hr, cr_path_exact = pe, cr_path_re = pr,
          cr_scheme = sr_scheme r, cr_port = sr_port r\<rparr>)"

text \<open>\<open>New\<close> and \<open>SetRules\<close>: disabled rules are skipped.\<close>

definition new_engine :: scope_engine where
  "new_engine = \<lparr>eng_rules = [], eng_has_incl = False\<rparr>"

fun set_rules_loop ::
    "rx_compiler \<Rightarrow> scope_rule list \<Rightarrow> compiled_rule list \<Rightarrow> bool \<Rightarrow> scope_engine" where
  "set_rules_loop rx [] c has_incl = \<lparr>eng_rules = c, eng_has_incl = has_incl\<rparr>"
| "set_rules_loop rx (r # rs) c has_incl =
     (if \<not> sr_enabled r then set_rules_loop rx rs c has_incl
      else set_rules_loop rx rs (c @ [compile_rule rx r])
             (has_incl \<or> sr_action r \<noteq> ''exclude''))"

definition set_rules :: "rx_compiler \<Rightarrow> scope_rule list \<Rightarrow> scope_engine" where
  "set_rules rx rules = set_rules_loop rx rules [] False"

definition has_includes :: "scope_engine \<Rightarrow> bool" where
  "has_includes e = eng_has_incl e"

definition has_active_rules :: "scope_engine \<Rightarrow> bool" where
  "has_active_rules e \<longleftrightarrow> length (eng_rules e) > 0"

section \<open>Matching\<close>

definition has_host_constraint :: "compiled_rule \<Rightarrow> bool" where
  "has_host_constraint r \<longleftrightarrow>
     cr_host_exact r \<noteq> [] \<or> cr_host_wild r \<noteq> [] \<or> cr_host_re r \<noteq> None"

definition host_matches :: "compiled_rule \<Rightarrow> string \<Rightarrow> bool" where
  "host_matches r host =
     (if \<not> has_host_constraint r then True
      else case cr_host_re r of
          Some re \<Rightarrow> rx_match re (normalize_host host)
        | None \<Rightarrow>
            match_host (if cr_host_wild r \<noteq> [] then ''*.'' @ cr_host_wild r else cr_host_exact r) host)"

definition path_matches :: "compiled_rule \<Rightarrow> string \<Rightarrow> bool" where
  "path_matches r path =
     (if cr_path_exact r = [] \<and> cr_path_re r = None then True
      else case cr_path_re r of
          Some re \<Rightarrow> rx_match re path
        | None \<Rightarrow> has_prefix path (cr_path_exact r))"

definition rule_matches :: "compiled_rule \<Rightarrow> flow_target \<Rightarrow> bool" where
  "rule_matches r f \<longleftrightarrow>
     host_matches r (ft_host f) \<and> path_matches r (ft_path f) \<and>
     (cr_scheme r = [] \<or> equal_fold (cr_scheme r) (ft_scheme f)) \<and>
     (cr_port r = 0 \<or> cr_port r = ft_port f)"

text \<open>
  The loop of \<open>InScope\<close>: \<open>None\<close> is the early \<open>return false\<close> of an exclude match, otherwise
  the final value of \<open>included\<close>.
\<close>

fun in_scope_loop :: "compiled_rule list \<Rightarrow> flow_target \<Rightarrow> bool \<Rightarrow> bool option" where
  "in_scope_loop [] f included = Some included"
| "in_scope_loop (r # rs) f included =
     (if rule_matches r f
      then (if cr_include r then in_scope_loop rs f True else None)
      else in_scope_loop rs f included)"

definition in_scope :: "scope_engine \<Rightarrow> flow_target \<Rightarrow> bool" where
  "in_scope e f =
     (case in_scope_loop (eng_rules e) f False of
        None \<Rightarrow> False
      | Some included \<Rightarrow> if \<not> eng_has_incl e then True else included)"

definition url_in_scope :: "scope_engine \<Rightarrow> string \<Rightarrow> string \<Rightarrow> int \<Rightarrow> string \<Rightarrow> bool" where
  "url_in_scope e scheme host port path =
     in_scope e \<lparr>ft_scheme = scheme, ft_host = host, ft_port = port, ft_path = path\<rparr>"

fun host_in_scope_loop :: "compiled_rule list \<Rightarrow> string \<Rightarrow> bool \<Rightarrow> bool option" where
  "host_in_scope_loop [] host included = Some included"
| "host_in_scope_loop (r # rs) host included =
     (if \<not> has_host_constraint r then host_in_scope_loop rs host included
      else if \<not> host_matches r host then host_in_scope_loop rs host included
      else if cr_include r then host_in_scope_loop rs host True
      else None)"

definition host_in_scope :: "scope_engine \<Rightarrow> string \<Rightarrow> bool" where
  "host_in_scope e host =
     (case host_in_scope_loop (eng_rules e) host False of
        None \<Rightarrow> False
      | Some included \<Rightarrow> if \<not> eng_has_incl e then True else included)"

section \<open>Lemmas\<close>

lemma set_rules_loop_eq:
  "set_rules_loop rx rs c b =
     \<lparr>eng_rules = c @ map (compile_rule rx) (filter sr_enabled rs),
      eng_has_incl = (b \<or> (\<exists>r \<in> set rs. sr_enabled r \<and> sr_action r \<noteq> ''exclude''))\<rparr>"
  by (induction rs arbitrary: c b) auto

lemma set_rules_eq:
  "set_rules rx rs =
     \<lparr>eng_rules = map (compile_rule rx) (filter sr_enabled rs),
      eng_has_incl = (\<exists>r \<in> set rs. sr_enabled r \<and> sr_action r \<noteq> ''exclude'')\<rparr>"
  by (simp add: set_rules_def set_rules_loop_eq)

lemma cr_include_compile [simp]: "cr_include (compile_rule rx r) \<longleftrightarrow> sr_action r \<noteq> ''exclude''"
  by (simp add: compile_rule_def Let_def split: prod.splits)

lemma in_scope_loop_eq:
  "in_scope_loop rs f b =
     (if \<exists>r \<in> set rs. \<not> cr_include r \<and> rule_matches r f then None
      else Some (b \<or> (\<exists>r \<in> set rs. cr_include r \<and> rule_matches r f)))"
  by (induction rs arbitrary: b) auto

lemma host_in_scope_loop_eq:
  "host_in_scope_loop rs h b =
     (if \<exists>r \<in> set rs. \<not> cr_include r \<and> has_host_constraint r \<and> host_matches r h then None
      else Some (b \<or> (\<exists>r \<in> set rs. cr_include r \<and> has_host_constraint r \<and> host_matches r h)))"
  by (induction rs arbitrary: b) auto

lemma in_scope_set_rules:
  "in_scope (set_rules rx rules) f \<longleftrightarrow>
     \<not> (\<exists>r \<in> set rules. sr_enabled r \<and> sr_action r = ''exclude'' \<and> rule_matches (compile_rule rx r) f) \<and>
     ((\<exists>r \<in> set rules. sr_enabled r \<and> sr_action r \<noteq> ''exclude'') \<longrightarrow>
      (\<exists>r \<in> set rules. sr_enabled r \<and> sr_action r \<noteq> ''exclude'' \<and> rule_matches (compile_rule rx r) f))"
  by (auto simp: in_scope_def set_rules_eq in_scope_loop_eq)

lemma host_in_scope_set_rules:
  "host_in_scope (set_rules rx rules) h \<longleftrightarrow>
     \<not> (\<exists>r \<in> set rules. sr_enabled r \<and> sr_action r = ''exclude'' \<and>
          has_host_constraint (compile_rule rx r) \<and> host_matches (compile_rule rx r) h) \<and>
     ((\<exists>r \<in> set rules. sr_enabled r \<and> sr_action r \<noteq> ''exclude'') \<longrightarrow>
      (\<exists>r \<in> set rules. sr_enabled r \<and> sr_action r \<noteq> ''exclude'' \<and>
          has_host_constraint (compile_rule rx r) \<and> host_matches (compile_rule rx r) h))"
  by (auto simp: host_in_scope_def set_rules_eq host_in_scope_loop_eq)

text \<open>Hosts with one normal form are treated alike, whatever the rules.\<close>

lemma host_matches_normalize:
  assumes "normalize_host h = normalize_host h'"
  shows "host_matches r h = host_matches r h'"
proof -
  have "match_host p h = match_host p h'" for p
    using assms by (rule hm.match_same_norm)
  with assms show ?thesis by (simp add: host_matches_def split: option.splits)
qed

lemma rule_matches_normalize:
  assumes "normalize_host (ft_host f) = normalize_host h"
  shows "rule_matches r (f\<lparr>ft_host := h\<rparr>) = rule_matches r f"
  using host_matches_normalize [OF assms, of r] by (simp add: rule_matches_def)

end
