(* ===== verification/GoNet.thy ===== *)
theory GoNet
  imports GoBase
begin

text \<open>
  The parts of Go's \<open>net\<close> and \<open>net/url\<close> that the code uses: \<open>net.SplitHostPort\<close>,
  \<open>net.ParseIP\<close> with \<open>IP.IsLoopback\<close>, and the parsed URL with \<open>Hostname()\<close> and
  \<open>Port()\<close>. \<open>url.Parse\<close> is an argument \<open>up\<close> of the definitions that call it
  (\<open>None\<close> is the parse error), so the theorems hold for whatever it accepts.
\<close>

section \<open>URLs\<close>

record url =
  url_scheme :: string
  url_host :: string
  url_escaped_path :: string

type_synonym url_parser = "string \<Rightarrow> url option"

text \<open>\<open>validOptionalPort\<close> of \<open>net/url\<close>: empty, or a colon and digits.\<close>

definition valid_optional_port :: "string \<Rightarrow> bool" where
  "valid_optional_port p \<longleftrightarrow> p = [] \<or> (hd p = CHR '':'' \<and> list_all is_digit (tl p))"

text \<open>\<open>splitHostPort\<close> of \<open>net/url\<close>, which \<open>Hostname\<close> and \<open>Port\<close> use.\<close>

definition url_split_host_port :: "string \<Rightarrow> string \<times> string" where
  "url_split_host_port hp =
     (let (host, port) =
            (case last_byte_index CHR '':'' hp of
               None \<Rightarrow> (hp, [])
             | Some i \<Rightarrow> if valid_optional_port (drop i hp) then (take i hp, drop (Suc i) hp)
                         else (hp, []))
      in (if has_prefix host ''['' \<and> has_suffix host '']''
          then take (length host - 2) (drop 1 host) else host, port))"

definition url_hostname :: "url \<Rightarrow> string" where
  "url_hostname u = fst (url_split_host_port (url_host u))"

definition url_port :: "url \<Rightarrow> string" where
  "url_port u = snd (url_split_host_port (url_host u))"

section \<open>Host and port\<close>

text \<open>\<open>net.SplitHostPort\<close>; \<open>None\<close> is its error.\<close>

definition split_host_port :: "string \<Rightarrow> (string \<times> string) option" where
  "split_host_port hp =
     (case last_byte_index CHR '':'' hp of
        None \<Rightarrow> None
      | Some i \<Rightarrow>
          (if hp ! 0 = CHR ''['' then
             (case byte_index CHR '']'' hp of
                None \<Rightarrow> None
              | Some e \<Rightarrow>
                  if e + 1 \<noteq> i then None
                  else if byte_index CHR ''['' (drop 1 hp) \<noteq> None then None
                  else if byte_index CHR '']'' (drop (e + 1) hp) \<noteq> None then None
                  else Some (take (e - 1) (drop 1 hp), drop (i + 1) hp))
           else
             (let host = take i hp in
              if byte_index CHR '':'' host \<noteq> None then None
              else if byte_index CHR ''['' hp \<noteq> None then None
              else if byte_index CHR '']'' hp \<noteq> None then None
              else Some (host, drop (i + 1) hp))))"

section \<open>IP addresses\<close>

text \<open>One decimal field of a dotted address: 1 to 3 digits, no leading zero, at most 255.\<close>

definition ipv4_field :: "string \<Rightarrow> nat option" where
  "ipv4_field s =
     (if s = [] \<or> \<not> list_all is_digit s \<or> (length s > 1 \<and> hd s = CHR ''0'') \<or> dec_value s > 255
      then None else Some (dec_value s))"

definition parse_ipv4 :: "string \<Rightarrow> nat list option" where
  "parse_ipv4 s =
     (let fs = map ipv4_field (split_byte CHR ''.'' s)
      in if length fs = 4 \<and> None \<notin> set fs then Some (map the fs) else None)"

definition hex_digit :: "char \<Rightarrow> nat option" where
  "hex_digit c =
     (let v = byte_val c in
      if 48 \<le> v \<and> v \<le> 57 then Some (v - 48)
      else if 97 \<le> v \<and> v \<le> 102 then Some (v - 87)
      else if 65 \<le> v \<and> v \<le> 70 then Some (v - 55)
      else None)"

definition hex_run :: "string \<Rightarrow> string" where
  "hex_run s = takeWhile (\<lambda>c. hex_digit c \<noteq> None) s"

definition hex_value :: "string \<Rightarrow> nat" where
  "hex_value s = foldl (\<lambda>n c. 16 * n + the (hex_digit c)) 0 s"

text \<open>
  The loop of \<open>parseIPv6\<close>: \<open>n\<close> is the number of 16-bit groups still free, \<open>ip\<close> the bytes
  read, \<open>ell\<close> the byte position of a double colon. The result is the bytes, the position and
  the unread rest.
\<close>

fun ipv6_groups ::
    "nat \<Rightarrow> string \<Rightarrow> nat list \<Rightarrow> nat option \<Rightarrow> (nat list \<times> nat option \<times> string) option" where
  "ipv6_groups 0 s ip ell = Some (ip, ell, s)"
| "ipv6_groups (Suc n) s ip ell =
     (let run = hex_run s; rest = drop (length run) s
      in if run = [] \<or> length run > 4 then None
         else if rest \<noteq> [] \<and> hd rest = CHR ''.'' then
           (if (ell = None \<and> length ip \<noteq> 12) \<or> length ip + 4 > 16 then None
            else case parse_ipv4 s of None \<Rightarrow> None | Some fs \<Rightarrow> Some (ip @ fs, ell, []))
         else
           (let v = hex_value run; ip = ip @ [v div 256, v mod 256]
            in if rest = [] then Some (ip, ell, [])
               else if hd rest \<noteq> CHR '':'' \<or> length rest = 1 then None
               else
                 (let s = tl rest
                  in if hd s = CHR '':'' then
                       (if ell \<noteq> None then None
                        else if tl s = [] then Some (ip, Some (length ip), [])
                        else ipv6_groups n (tl s) ip (Some (length ip)))
                     else ipv6_groups n s ip ell)))"

definition ipv6_expand :: "nat list \<Rightarrow> nat option \<Rightarrow> nat list option" where
  "ipv6_expand ip ell =
     (if length ip < 16 then
        (case ell of None \<Rightarrow> None
         | Some e \<Rightarrow> Some (take e ip @ replicate (16 - length ip) 0 @ drop e ip))
      else if ell \<noteq> None then None else Some ip)"

definition parse_ipv6 :: "string \<Rightarrow> nat list option" where
  "parse_ipv6 s =
     (let lead = has_prefix s ''::''; t = (if lead then drop 2 s else s)
      in if lead \<and> t = [] then Some (replicate 16 0)
         else case ipv6_groups 8 t [] (if lead then Some 0 else None) of
             None \<Rightarrow> None
           | Some (ip, ell, rest) \<Rightarrow> if rest \<noteq> [] then None else ipv6_expand ip ell)"

text \<open>
  \<open>net.ParseIP\<close>: the first of \<open>.\<close>, \<open>:\<close>, \<open>%\<close> decides the family, and an address with a
  zone is refused. The result is the 16-byte form (an IPv4 address is mapped).
\<close>

definition parse_ip :: "string \<Rightarrow> nat list option" where
  "parse_ip s =
     (if CHR ''%'' \<in> set s then None
      else case filter (\<lambda>c. c = CHR ''.'' \<or> c = CHR '':'') s of
          [] \<Rightarrow> None
        | c # _ \<Rightarrow>
            if c = CHR ''.'' then
              map_option (\<lambda>fs. replicate 10 0 @ [255, 255] @ fs) (parse_ipv4 s)
            else parse_ipv6 s)"

definition is_ipv4_mapped :: "nat list \<Rightarrow> bool" where
  "is_ipv4_mapped ip \<longleftrightarrow> take 12 ip = replicate 10 0 @ [255, 255]"

definition ip_is_loopback :: "nat list \<Rightarrow> bool" where
  "ip_is_loopback ip =
     (if is_ipv4_mapped ip then ip ! 12 = 127 else ip = replicate 15 0 @ [1])"

text \<open>\<open>IP.To4\<close>: the four bytes of an IPv4 or mapped address, else the sixteen.\<close>

definition ip_short :: "nat list \<Rightarrow> nat list" where
  "ip_short ip = (if is_ipv4_mapped ip then drop 12 ip else ip)"

text \<open>
  \<open>net.ParseCIDR\<close> as \<open>IPNet.Contains\<close> sees it: the network bytes (4 or 16) and the number of
  leading bits that count. \<open>Contains\<close> compares the family and those bits.
\<close>

fun same_bits :: "nat \<Rightarrow> nat list \<Rightarrow> nat list \<Rightarrow> bool" where
  "same_bits k (a # as) (b # bs) =
     (if k \<ge> 8 then a = b \<and> same_bits (k - 8) as bs
      else a div 2 ^ (8 - k) = b div 2 ^ (8 - k))"
| "same_bits k as bs = (as = [] \<and> bs = [])"

definition parse_cidr :: "string \<Rightarrow> (nat list \<times> nat) option" where
  "parse_cidr s =
     (case cut_byte CHR ''/'' s of
        None \<Rightarrow> None
      | Some (addr, bits) \<Rightarrow>
          if bits = [] \<or> \<not> list_all is_digit bits then None
          else if CHR '':'' \<notin> set addr then
            (case parse_ipv4 addr of
               None \<Rightarrow> None
             | Some ip \<Rightarrow> if dec_value bits > 32 then None else Some (ip, dec_value bits))
          else
            (case parse_ip addr of
               None \<Rightarrow> None
             | Some ip \<Rightarrow>
                 if dec_value bits > 128 then None
                 else if is_ipv4_mapped ip \<and> dec_value bits \<ge> 96
                   then Some (drop 12 ip, dec_value bits - 96)
                 else Some (ip, dec_value bits)))"

definition ipnet_contains :: "nat list \<times> nat \<Rightarrow> nat list \<Rightarrow> bool" where
  "ipnet_contains net ip \<longleftrightarrow>
     length (ip_short ip) = length (fst net) \<and> same_bits (snd net) (fst net) (ip_short ip)"

section \<open>Lemmas\<close>

lemma same_bits_refl: "same_bits k as as"
  by (induction as arbitrary: k) auto

lemma same_bits_trans:
  "same_bits k as bs \<Longrightarrow> same_bits k bs cs \<Longrightarrow> length as = length bs \<Longrightarrow> length bs = length cs \<Longrightarrow>
   same_bits k as cs"
proof (induction k as bs arbitrary: cs rule: same_bits.induct)
  case (1 k a as b bs)
  then show ?case by (cases cs) (auto split: if_splits)
qed auto

lemma same_bits_mono: "same_bits k as bs \<Longrightarrow> j \<le> k \<Longrightarrow> length as = length bs \<Longrightarrow> same_bits j as bs"
proof (induction k as bs arbitrary: j rule: same_bits.induct)
  case (1 k a as b bs)
  show ?case
  proof (cases "k \<ge> 8 \<or> a = b")
    case True
    with 1 show ?thesis by (auto split: if_splits)
  next
    case False
    then have "a div 2 ^ (8 - k) = b div 2 ^ (8 - k)" and "j < 8" and "(8::nat) - j = (8 - k) + (k - j)"
      using 1 by auto
    then have "a div 2 ^ (8 - j) = b div 2 ^ (8 - j)"
      by (metis div_mult2_eq power_add)
    with \<open>j < 8\<close> show ?thesis by simp
  qed
qed auto

lemma parse_ip_127_0_0_1: "parse_ip ''127.0.0.1'' = Some (replicate 10 0 @ [255, 255, 127, 0, 0, 1])"
  by code_simp

lemma parse_ip_loopback6: "parse_ip ''::1'' = Some (replicate 15 0 @ [1])"
  by code_simp

lemma parse_ip_localhost: "parse_ip ''localhost'' = None"
  by code_simp

lemma split_host_port_simple: "split_host_port ''localhost:9966'' = Some (''localhost'', ''9966'')"
  by code_simp

lemma split_host_port_v6: "split_host_port ''[::1]:80'' = Some (''::1'', ''80'')"
  by code_simp

lemma parse_ipv4_length: "parse_ipv4 s = Some fs \<Longrightarrow> length fs = 4"
  by (auto simp: parse_ipv4_def Let_def split: if_splits)

lemma ipv6_groups_length:
  "ipv6_groups n s ip ell = Some (ip', ell', rest) \<Longrightarrow> length ip + 2 * n = 16 \<Longrightarrow> length ip' \<le> 16"
proof (induction n arbitrary: s ip ell)
  case 0
  then show ?case by simp
next
  case (Suc n)
  from Suc.prems show ?case
    by (auto simp: Let_def parse_ipv4_length split: if_splits option.splits dest!: Suc.IH)
qed

lemma ipv6_expand_length:
  "ipv6_expand ip ell = Some r \<Longrightarrow> length ip \<le> 16 \<Longrightarrow> length r = 16"
  by (auto simp: ipv6_expand_def split: if_splits option.splits)

lemma parse_ipv6_length: "parse_ipv6 s = Some ip \<Longrightarrow> length ip = 16"
proof -
  have "ipv6_groups 8 t [] ell = Some (a, e, rest) \<Longrightarrow> ipv6_expand a e = Some ip \<Longrightarrow> length ip = 16"
    for t ell a e rest
    using ipv6_groups_length [of 8 t "[]" ell a e rest] ipv6_expand_length [of a e ip] by simp
  then show "parse_ipv6 s = Some ip \<Longrightarrow> length ip = 16"
    by (auto simp: parse_ipv6_def Let_def split: if_splits option.splits)
qed

lemma parse_ip_length: "parse_ip s = Some ip \<Longrightarrow> length ip = 16"
  by (auto simp: parse_ip_def parse_ipv4_length parse_ipv6_length split: if_splits list.splits)

end
