(* ===== verification/ScopeRules.thy ===== *)
theory ScopeRules
  imports Scope GoNet "HOL-Library.Product_Lexorder" "HOL-Library.Multiset"
begin

text \<open>
  Model of \<open>internal/scope/normalize.go\<close> (what is typed into the Host field becomes a rule
  that can match), of \<open>ValidateRule\<close> in \<open>internal/scope/scope.go\<close>, and of the scope-rule
  table with its REST handlers (\<open>internal/store/scope.go\<close>, \<open>internal/control/scope.go\<close>).
  Database and JSON errors are not modelled: the statements succeed. The lemmas show that
  normalising is idempotent on hosts, that a stored rule always compiles the way it reads, and
  that every sequence of requests keeps the table free of duplicates and the live matcher equal
  to the table.
\<close>

section \<open>Normalising a rule\<close>

datatype scope_err =
    BadUrl | BadUrlScheme | UnclosedBracket | BadHostname | BadPort | PortConflict
  | EmptyHost | BadHostChar char | BadHostRegex | BadPathRegex
  | BadAction | EmptyRule | PortRange | BadScheme

definition set_host_port :: "scope_rule \<Rightarrow> string \<Rightarrow> scope_err + scope_rule" where
  "set_host_port r raw =
     (case atoi raw of
        None \<Rightarrow> Inl BadPort
      | Some p \<Rightarrow>
          if p < 1 \<or> p > 65535 then Inl BadPort
          else if sr_port r \<noteq> 0 \<and> sr_port r \<noteq> p then Inl PortConflict
          else Inr (r\<lparr>sr_port := p\<rparr>))"

definition plain_host_char :: "char \<Rightarrow> bool" where
  "plain_host_char c \<longleftrightarrow>
     is_lower_letter c \<or> is_digit c \<or> c = CHR ''.'' \<or> c = CHR ''-'' \<or> c = CHR ''_'' \<or>
     c = CHR '':'' \<or> c = CHR ''*'' \<or> byte_val c > 127"

definition check_plain_host :: "string \<Rightarrow> scope_err option" where
  "check_plain_host h =
     (if h = [] then Some EmptyHost
      else map_option BadHostChar (List.find (\<lambda>c. \<not> plain_host_char c) h))"

text \<open>The part of \<open>NormalizeRule\<close> that splits the Host field: the rule and the bare host.\<close>

definition split_host_field ::
    "url_parser \<Rightarrow> scope_rule \<Rightarrow> string \<Rightarrow> scope_err + (scope_rule \<times> string)" where
  "split_host_field up r host =
     (if str_contains host ''://'' then
        (case up host of
           None \<Rightarrow> Inl BadUrl
         | Some u \<Rightarrow>
             if url_hostname u = [] then Inl BadUrl
             else
               let scheme = to_lower (url_scheme u)
               in if scheme \<noteq> ''http'' \<and> scheme \<noteq> ''https'' then Inl BadUrlScheme
                  else
                    let r = (if sr_scheme r = [] then r\<lparr>sr_scheme := scheme\<rparr> else r)
                    in case (if url_port u \<noteq> [] then set_host_port r (url_port u) else Inr r) of
                         Inl e \<Rightarrow> Inl e
                       | Inr r \<Rightarrow>
                           let p = url_escaped_path u;
                               r = (if p \<noteq> [] \<and> p \<noteq> ''/'' \<and> sr_path r = []
                                    then r\<lparr>sr_path := p\<rparr> else r)
                           in Inr (r, url_hostname u))
      else if \<not> looks_like_regex host then
        (let host = trim_suffix host ''/''
         in if has_prefix host ''['' then
              (case byte_index CHR '']'' host of
                 None \<Rightarrow> Inl UnclosedBracket
               | Some e \<Rightarrow>
                   let rest = drop (e + 1) host; host = take (e - 1) (drop 1 host)
                   in if rest \<noteq> [] then
                        (if \<not> has_prefix rest '':'' then Inl BadHostname
                         else case set_host_port r (drop 1 rest) of
                             Inl e \<Rightarrow> Inl e | Inr r \<Rightarrow> Inr (r, host))
                      else Inr (r, host))
            else if count_byte CHR '':'' host = 1 then
              (let i = the (byte_index CHR '':'' host)
               in case set_host_port r (drop (i + 1) host) of
                    Inl e \<Rightarrow> Inl e | Inr r \<Rightarrow> Inr (r, take i host))
            else Inr (r, host))
      else Inr (r, host))"

definition normalize_rule :: "url_parser \<Rightarrow> scope_rule \<Rightarrow> scope_err + scope_rule" where
  "normalize_rule up r0 =
     (let r = r0\<lparr>sr_host := trim_space (sr_host r0), sr_path := trim_space (sr_path r0),
                 sr_scheme := to_lower (trim_space (sr_scheme r0))\<rparr>
      in if sr_host r = [] then Inr r
         else case split_host_field up r (sr_host r) of
             Inl e \<Rightarrow> Inl e
           | Inr (r, host) \<Rightarrow>
               if \<not> looks_like_regex host then
                 (case check_plain_host (to_lower host) of
                    Some e \<Rightarrow> Inl e
                  | None \<Rightarrow> Inr (r\<lparr>sr_host := to_lower host\<rparr>))
               else Inr (r\<lparr>sr_host := host\<rparr>))"

section \<open>Validating a rule\<close>

definition validate_host_pattern :: "rx_compiler \<Rightarrow> string \<Rightarrow> scope_err option" where
  "validate_host_pattern rx pattern =
     (if pattern = [] then None
      else
        let pattern = to_lower pattern
        in if has_prefix pattern ''*.'' then None
           else if looks_like_regex pattern \<and> rx (''(?i)'' @ unwrap_regex_slashes pattern) = None
             then Some BadHostRegex
           else None)"

definition validate_path_pattern :: "rx_compiler \<Rightarrow> string \<Rightarrow> scope_err option" where
  "validate_path_pattern rx pattern =
     (if pattern = [] then None
      else if looks_like_regex pattern \<and> rx pattern = None then Some BadPathRegex
      else None)"

definition validate_rule :: "rx_compiler \<Rightarrow> scope_rule \<Rightarrow> scope_err option" where
  "validate_rule rx r =
     (case validate_host_pattern rx (sr_host r) of
        Some e \<Rightarrow> Some e
      | None \<Rightarrow> validate_path_pattern rx (sr_path r))"

text \<open>\<open>validScope\<close> of the handlers: \<open>None\<close> when the rule is accepted.\<close>

definition valid_scope :: "rx_compiler \<Rightarrow> scope_rule \<Rightarrow> scope_err option" where
  "valid_scope rx r =
     (if sr_action r \<noteq> ''include'' \<and> sr_action r \<noteq> ''exclude'' then Some BadAction
      else if sr_host r = [] \<and> sr_path r = [] \<and> sr_scheme r = [] \<and> sr_port r = 0 then Some EmptyRule
      else if sr_port r < 0 \<or> sr_port r > 65535 then Some PortRange
      else if (let s = to_lower (sr_scheme r) in s \<noteq> [] \<and> s \<noteq> ''http'' \<and> s \<noteq> ''https'')
        then Some BadScheme
      else validate_rule rx r)"

section \<open>The rule table and its handlers\<close>

record scope_table =
  st_rows :: "scope_rule list"
  st_last_id :: int
  st_engine :: scope_engine

definition bool_str :: "bool \<Rightarrow> string" where
  "bool_str b = (if b then ''true'' else ''false'')"

text \<open>\<open>scopeRuleIdentity\<close>: the content of a rule without id and order.\<close>

definition scope_rule_identity :: "scope_rule \<Rightarrow> string" where
  "scope_rule_identity r =
     bool_str (sr_enabled r) @ [CHR 0x00] @ sr_action r @ [CHR 0x00] @ to_lower (sr_host r) @ [CHR 0x00] @
     sr_path r @ [CHR 0x00] @ to_lower (sr_scheme r) @ [CHR 0x00] @ int_dec (sr_port r)"

text \<open>\<open>ListScopeRules\<close>: ordered by ord, then id.\<close>

definition list_scope_rules :: "scope_table \<Rightarrow> scope_rule list" where
  "list_scope_rules t = sort_key (\<lambda>r. (sr_ord r, sr_id r)) (st_rows t)"

text \<open>\<open>CreateScopeRule\<close>: the id column is \<open>AUTOINCREMENT\<close>, so ids are never reused.\<close>

definition create_scope_rule :: "scope_table \<Rightarrow> scope_rule \<Rightarrow> scope_table \<times> scope_rule" where
  "create_scope_rule t r =
     (let r = r\<lparr>sr_id := st_last_id t + 1\<rparr>
      in (t\<lparr>st_rows := st_rows t @ [r], st_last_id := st_last_id t + 1\<rparr>, r))"

text \<open>\<open>UpdateScopeRule\<close>; \<open>None\<close> is \<open>sql.ErrNoRows\<close>.\<close>

definition update_scope_rule :: "scope_table \<Rightarrow> scope_rule \<Rightarrow> scope_table option" where
  "update_scope_rule t r =
     (if sr_id r \<in> set (map sr_id (st_rows t))
      then Some (t\<lparr>st_rows := map (\<lambda>x. if sr_id x = sr_id r then r else x) (st_rows t)\<rparr>)
      else None)"

definition delete_scope_rule :: "scope_table \<Rightarrow> int \<Rightarrow> scope_table option" where
  "delete_scope_rule t i =
     (if i \<in> set (map sr_id (st_rows t))
      then Some (t\<lparr>st_rows := filter (\<lambda>x. sr_id x \<noteq> i) (st_rows t)\<rparr>)
      else None)"

definition refresh_scope :: "rx_compiler \<Rightarrow> scope_table \<Rightarrow> scope_table" where
  "refresh_scope rx t = t\<lparr>st_engine := set_rules rx (list_scope_rules t)\<rparr>"

datatype scope_reply =
    Created scope_rule | Updated scope_rule | Deleted
  | BadRequest scope_err | Conflict scope_rule | NotFound

definition create_scope ::
    "rx_compiler \<Rightarrow> url_parser \<Rightarrow> scope_table \<Rightarrow> scope_rule \<Rightarrow> scope_table \<times> scope_reply" where
  "create_scope rx up t inp =
     (case normalize_rule up inp of
        Inl e \<Rightarrow> (t, BadRequest e)
      | Inr r \<Rightarrow>
          (case valid_scope rx r of
             Some e \<Rightarrow> (t, BadRequest e)
           | None \<Rightarrow>
               (case List.find (\<lambda>ex. scope_rule_identity ex = scope_rule_identity r) (list_scope_rules t) of
                  Some ex \<Rightarrow> (t, Conflict ex)
                | None \<Rightarrow>
                    let (t, r) = create_scope_rule t r in (refresh_scope rx t, Created r))))"

definition update_scope ::
    "rx_compiler \<Rightarrow> url_parser \<Rightarrow> scope_table \<Rightarrow> int \<Rightarrow> scope_rule \<Rightarrow> scope_table \<times> scope_reply" where
  "update_scope rx up t i inp =
     (case normalize_rule up (inp\<lparr>sr_id := i\<rparr>) of
        Inl e \<Rightarrow> (t, BadRequest e)
      | Inr r \<Rightarrow>
          (case valid_scope rx r of
             Some e \<Rightarrow> (t, BadRequest e)
           | None \<Rightarrow>
               (case List.find (\<lambda>ex. sr_id ex \<noteq> i \<and> scope_rule_identity ex = scope_rule_identity r)
                       (list_scope_rules t) of
                  Some ex \<Rightarrow> (t, Conflict ex)
                | None \<Rightarrow>
                    (case update_scope_rule t r of
                       None \<Rightarrow> (t, NotFound)
                     | Some t \<Rightarrow> (refresh_scope rx t, Updated r)))))"

definition delete_scope :: "rx_compiler \<Rightarrow> scope_table \<Rightarrow> int \<Rightarrow> scope_table \<times> scope_reply" where
  "delete_scope rx t i =
     (case delete_scope_rule t i of
        None \<Rightarrow> (t, NotFound)
      | Some t \<Rightarrow> (refresh_scope rx t, Deleted))"

datatype scope_request = CreateReq scope_rule | UpdateReq int scope_rule | DeleteReq int

fun scope_handle ::
    "rx_compiler \<Rightarrow> url_parser \<Rightarrow> scope_table \<Rightarrow> scope_request \<Rightarrow> scope_table \<times> scope_reply" where
  "scope_handle rx up t (CreateReq r) = create_scope rx up t r"
| "scope_handle rx up t (UpdateReq i r) = update_scope rx up t i r"
| "scope_handle rx up t (DeleteReq i) = delete_scope rx t i"

definition scope_init :: scope_table where
  "scope_init = \<lparr>st_rows = [], st_last_id = 0, st_engine = new_engine\<rparr>"

fun scope_session :: "rx_compiler \<Rightarrow> url_parser \<Rightarrow> scope_table \<Rightarrow> scope_request list \<Rightarrow> scope_table" where
  "scope_session rx up t [] = t"
| "scope_session rx up t (q # qs) = scope_session rx up (fst (scope_handle rx up t q)) qs"

section \<open>Lemmas: normalising\<close>

lemma set_host_port_frame:
  "set_host_port r raw = Inr r' \<Longrightarrow>
   (\<exists>p. r' = r\<lparr>sr_port := p\<rparr> \<and> 1 \<le> p \<and> p \<le> 65535 \<and> (sr_port r = 0 \<or> p = sr_port r))"
  by (auto simp: set_host_port_def split: option.splits if_splits)

lemma split_host_field_id:
  "split_host_field up r h = Inr (r', h') \<Longrightarrow> sr_id r' = sr_id r"
  by (auto simp: split_host_field_def Let_def split: if_splits option.splits sum.splits
      dest!: set_host_port_frame)

lemma normalize_rule_id: "normalize_rule up r = Inr r' \<Longrightarrow> sr_id r' = sr_id r"
  by (auto simp: normalize_rule_def Let_def split: if_splits option.splits sum.splits prod.splits
      dest!: split_host_field_id)

lemma is_space_char_lower [simp]: "is_space (char_lower c) = is_space c"
  by (auto simp: is_space_def char_lower_def)

lemma trim_space_to_lower: "trim_space (to_lower s) = to_lower (trim_space s)"
proof -
  have l: "dropWhile is_space (map char_lower t) = map char_lower (dropWhile is_space t)" for t
    by (induction t) auto
  show ?thesis
    by (simp add: trim_space_def trim_left_by_def trim_right_by_def to_lower_def l rev_map)
qed

lemma dropWhile_hd: "dropWhile P s \<noteq> [] \<Longrightarrow> \<not> P (hd (dropWhile P s))"
  by (rule hd_dropWhile)

lemma trim_space_id: "s = [] \<or> (\<not> is_space (hd s) \<and> \<not> is_space (last s)) \<Longrightarrow> trim_space s = s"
  unfolding trim_space_def trim_left_by_def
  by (cases s) (auto intro!: trim_right_by_unchanged)

lemma trim_space_Nil [simp]: "trim_space [] = []"
  by (rule trim_space_id) simp

lemma trim_right_by_prefix: "\<exists>r. s = trim_right_by P s @ r"
proof (induction s rule: rev_induct)
  case (snoc c s)
  then obtain r where r: "s = trim_right_by P s @ r" by blast
  show ?case
  proof (cases "P c")
    case True
    have "s @ [c] = trim_right_by P s @ (r @ [c])" using r by simp
    with True show ?thesis unfolding trim_right_by_snoc if_P [OF True] by blast
  qed (simp add: trim_right_by_snoc)
qed simp

lemma trim_space_idem [simp]: "trim_space (trim_space s) = trim_space s"
proof (rule trim_space_id)
  let ?l = "trim_left_by is_space s"
  show "trim_space s = [] \<or> \<not> is_space (hd (trim_space s)) \<and> \<not> is_space (last (trim_space s))"
  proof (cases "trim_space s = []")
    case False
    then have ne: "trim_right_by is_space ?l \<noteq> []" by (simp add: trim_space_def)
    obtain r where r: "?l = trim_right_by is_space ?l @ r"
      using trim_right_by_prefix by metis
    then have "?l \<noteq> []" and "hd ?l = hd (trim_right_by is_space ?l)"
      using ne by (metis append_is_Nil_conv, metis hd_append2 ne)
    then have "\<not> is_space (hd (trim_right_by is_space ?l))"
      using dropWhile_hd [of is_space s] by (simp add: trim_left_by_def)
    then show ?thesis
      using trim_right_by_last [OF ne] by (simp add: trim_space_def)
  qed simp
qed

lemma check_plain_host_None:
  "check_plain_host h = None \<longleftrightarrow> h \<noteq> [] \<and> list_all plain_host_char h"
  by (auto simp: check_plain_host_def find_None_iff list_all_iff)

lemma plain_host_char_facts:
  "plain_host_char c \<Longrightarrow> \<not> is_space c \<and> c \<noteq> CHR ''/'' \<and> c \<noteq> CHR ''['' \<and> char_lower c = c"
  by (auto simp: plain_host_char_def is_space_def is_lower_letter_def is_digit_def char_lower_def
      byte_val_def)

text \<open>Both slashes of \<open>://\<close> are no host characters, so a plain host is never read as a URL.\<close>

lemma plain_host_no_url: "list_all plain_host_char h \<Longrightarrow> \<not> str_contains h ''://''"
proof
  assume pl: "list_all plain_host_char h" and "str_contains h ''://''"
  then obtain u v where "h = u @ ''://'' @ v" by (auto simp: str_contains_iff)
  with pl have "plain_host_char CHR ''/''" by simp
  then show False using plain_host_char_facts by blast
qed

text \<open>What a successful split leaves: a host without a port, or the host as typed.\<close>

lemma split_host_field_plain:
  assumes "\<not> str_contains h ''://''" and "\<not> looks_like_regex h"
    and "\<not> has_suffix h ''/''" and "\<not> has_prefix h ''[''" and "count_byte CHR '':'' h \<noteq> 1"
  shows "split_host_field up r h = Inr (r, h)"
  using assms by (simp add: split_host_field_def trim_suffix_def Let_def)

lemma split_host_field_regex:
  "\<not> str_contains h ''://'' \<Longrightarrow> looks_like_regex h \<Longrightarrow> split_host_field up r h = Inr (r, h)"
  by (simp add: split_host_field_def)

lemma bracket_looks_like_regex: "has_prefix h ''['' \<Longrightarrow> looks_like_regex h"
proof -
  assume "has_prefix h ''[''"
  then obtain r where "h = [] @ ''['' @ r" unfolding has_prefix_iff by auto
  then have "str_contains h ''[''" unfolding str_contains_iff by blast
  then show ?thesis by (simp add: looks_like_regex_def regex_literals_def)
qed

lemma looks_like_regex_trim_slash: "\<not> looks_like_regex h \<Longrightarrow> \<not> has_prefix (trim_suffix h ''/'') ''[''"
proof
  assume "\<not> looks_like_regex h" and p: "has_prefix (trim_suffix h ''/'') ''[''"
  have "hd h = CHR ''['' \<and> h \<noteq> []"
  proof -
    obtain k where "trim_suffix h ''/'' = take k h"
      by (metis trim_suffix_def take_all order_refl)
    with p show ?thesis by (cases h; cases k) (auto simp: has_prefix_def)
  qed
  then have "has_prefix h ''[''" by (cases h) auto
  with \<open>\<not> looks_like_regex h\<close> show False using bracket_looks_like_regex by blast
qed

lemma byte_index_first: "byte_index b h = Some i \<Longrightarrow> b \<notin> set (take i h)"
  by (induction h arbitrary: i) (auto split: if_splits)

lemma count_byte_0: "b \<notin> set h \<Longrightarrow> count_byte b h = 0"
  by (induction h) (auto simp: count_byte_def)

lemma count_byte_take_index:
  assumes "count_byte b h = 1"
  shows "count_byte b (take (the (byte_index b h)) h) = 0"
proof -
  have "byte_index b h \<noteq> None"
    using assms count_byte_0 [of b h] by (auto simp: byte_index_None_iff)
  then obtain i where "byte_index b h = Some i" by blast
  then show ?thesis by (simp add: byte_index_first count_byte_0)
qed

lemma split_host_field_count:
  assumes "split_host_field up r h = Inr (r', h')" and "\<not> str_contains h ''://''"
    and "\<not> looks_like_regex h"
  shows "count_byte CHR '':'' h' \<noteq> 1"
  using assms looks_like_regex_trim_slash [OF assms(3)]
  by (auto simp: split_host_field_def Let_def count_byte_take_index split: if_splits sum.splits)

lemma str_contains_sub: "str_contains s p \<Longrightarrow> str_contains (u @ s @ v) p"
  unfolding str_contains_iff by (metis append.assoc)

lemma split_host_field_sub:
  assumes "split_host_field up r h = Inr (r', h')" and "\<not> str_contains h ''://''"
  shows "(\<exists>p. r' = r\<lparr>sr_port := p\<rparr>) \<and> (\<exists>u v. h = u @ h' @ v)"
proof (cases "looks_like_regex h")
  case True
  with assms have "r' = r\<lparr>sr_port := sr_port r\<rparr> \<and> h = [] @ h' @ []"
    by (simp add: split_host_field_regex)
  then show ?thesis by blast
next
  case False
  let ?h = "trim_suffix h ''/''"
  have nb: "\<not> has_prefix ?h ''[''" by (rule looks_like_regex_trim_slash [OF False])
  obtain k where k: "?h = take k h" by (metis trim_suffix_def take_all order_refl)
  have h': "\<exists>n. h' = take n h" and r': "\<exists>p. r' = r\<lparr>sr_port := p\<rparr>"
    using assms False nb
    by (auto simp: split_host_field_def Let_def k min_def split: if_splits sum.splits
        dest!: set_host_port_frame intro: exI [where x = "sr_port r"])
  then obtain n where "h = [] @ h' @ drop n h" by (metis append_Nil append_take_drop_id)
  with r' show ?thesis by blast
qed

lemma plain_not_regex:
  assumes "list_all plain_host_char (to_lower h)" and "\<not> looks_like_regex h"
  shows "\<not> looks_like_regex (to_lower h)"
proof -
  have no: "\<not> str_contains (to_lower h) q" if "\<not> list_all plain_host_char q" for q
    using that assms(1) by (auto simp: str_contains_iff)
  have "char_lower c = CHR ''.'' \<longleftrightarrow> c = CHR ''.''" "char_lower c = CHR ''*'' \<longleftrightarrow> c = CHR ''*''" for c
    by (simp_all add: char_lower_eq_iff_ascii byte_val_def)
  then have star: "str_contains (to_lower t) ''.*'' \<Longrightarrow> str_contains t ''.*''" for t
    unfolding to_lower_def
    by (induction t rule: induct_list012) (auto simp: str_contains_Cons str_contains_def)
  have np: "\<not> plain_host_char c" if "c \<in> {CHR ''^'', CHR ''$'', CHR ''('', CHR '')'', CHR ''['',
      CHR '']'', CHR ''|'', CHR ''+'', CHR ''?'', CHR 0x5C, CHR ''/''}" for c
    using that by (auto simp: plain_host_char_def is_lower_letter_def is_digit_def byte_val_def)
  have "\<not> slash_wrapped (to_lower h)"
  proof
    assume "slash_wrapped (to_lower h)"
    then have "CHR ''/'' \<in> set (to_lower h)"
      unfolding slash_wrapped_def by (metis nth_mem less_le_trans zero_less_numeral)
    with assms(1) np show False by (auto simp: list_all_iff)
  qed
  moreover have "\<not> str_contains h ''.*''"
    using assms(2) by (simp add: looks_like_regex_def regex_literals_def)
  ultimately show ?thesis
    using star [of h] by (auto simp: looks_like_regex_def regex_literals_def no np)
qed

lemma count_byte_to_lower: "count_byte CHR '':'' (to_lower h) = count_byte CHR '':'' h"
proof -
  have "char_lower c = CHR '':'' \<longleftrightarrow> c = CHR '':''" for c
    by (simp add: char_lower_eq_iff_ascii byte_val_def)
  then show ?thesis by (induction h) (simp_all add: count_byte_def to_lower_def)
qed

lemma slash_wrapped_trim: "slash_wrapped h \<Longrightarrow> trim_space h = h"
  by (rule trim_space_id)
     (auto simp: slash_wrapped_def hd_conv_nth last_conv_nth is_space_def byte_val_def)

text \<open>
  A normalised rule passes through \<open>NormalizeRule\<close> unchanged: one lemma for a host that is
  left as a regex, one for a plain host.
\<close>

lemma normalize_regex_fixed:
  assumes "looks_like_regex (sr_host r)" and "\<not> str_contains (sr_host r) ''://''"
    and "trim_space (sr_host r) = sr_host r" and "trim_space (sr_path r) = sr_path r"
    and "to_lower (trim_space (sr_scheme r)) = sr_scheme r"
  shows "normalize_rule up r = Inr r"
  using assms by (simp add: normalize_rule_def split_host_field_regex)

lemma normalize_plain_fixed:
  assumes plain: "list_all plain_host_char (sr_host r)" "sr_host r \<noteq> []"
    and "\<not> looks_like_regex (sr_host r)" "count_byte CHR '':'' (sr_host r) \<noteq> 1"
    and "trim_space (sr_path r) = sr_path r" "to_lower (trim_space (sr_scheme r)) = sr_scheme r"
  shows "normalize_rule up r = Inr r"
proof -
  have ch: "\<not> is_space c \<and> c \<noteq> CHR ''/'' \<and> c \<noteq> CHR ''['' \<and> char_lower c = c" if "c \<in> set (sr_host r)" for c
    using plain(1) that plain_host_char_facts by (auto simp: list_all_iff)
  then have lower: "to_lower (sr_host r) = sr_host r"
    by (simp add: to_lower_def map_idI)
  have t: "trim_space (sr_host r) = sr_host r"
    by (rule trim_space_id) (use ch plain(2) in auto)
  have "\<not> has_suffix (sr_host r) ''/''" "\<not> has_prefix (sr_host r) ''[''"
    using ch by (fastforce simp: has_suffix_iff, fastforce simp: has_prefix_iff)
  then have "split_host_field up r (sr_host r) = Inr (r, sr_host r)"
    using assms plain_host_no_url by (intro split_host_field_plain) auto
  moreover have "check_plain_host (sr_host r) = None"
    using plain by (simp add: check_plain_host_None)
  ultimately show ?thesis
    using assms t lower by (simp add: normalize_rule_def)
qed

lemma normalize_rule_idem:
  assumes "normalize_rule up r = Inr r'" and "\<not> str_contains (trim_space (sr_host r)) ''://''"
  shows "normalize_rule up' r' = Inr r'"
proof -
  let ?r = "r\<lparr>sr_host := trim_space (sr_host r), sr_path := trim_space (sr_path r),
              sr_scheme := to_lower (trim_space (sr_scheme r))\<rparr>"
  have lt: "to_lower (trim_space (to_lower (trim_space t))) = to_lower (trim_space t)" for t
    by (simp add: trim_space_to_lower)
  show ?thesis
  proof (cases "trim_space (sr_host r) = []")
    case True
    with assms(1) have "r' = ?r" by (simp add: normalize_rule_def)
    with True show ?thesis by (simp add: normalize_rule_def lt Let_def)
  next
    case False
    with assms(1) obtain r1 h1 where sp: "split_host_field up ?r (trim_space (sr_host r)) = Inr (r1, h1)"
      and r': "if looks_like_regex h1 then r' = r1\<lparr>sr_host := h1\<rparr>
               else r' = r1\<lparr>sr_host := to_lower h1\<rparr> \<and> check_plain_host (to_lower h1) = None"
      by (auto simp: normalize_rule_def Let_def split: sum.splits option.splits if_splits)
    obtain p u v where r1: "r1 = ?r\<lparr>sr_port := p\<rparr>" and uv: "trim_space (sr_host r) = u @ h1 @ v"
      using split_host_field_sub [OF sp assms(2)] by blast
    have nourl: "\<not> str_contains h1 ''://''"
    using assms(2) unfolding uv by (meson str_contains_sub)
    show ?thesis
    proof (cases "looks_like_regex h1")
      case True
      have "trim_space h1 = h1"
      proof (cases "looks_like_regex (trim_space (sr_host r))")
        case True
        with sp assms(2) have "h1 = trim_space (sr_host r)" by (simp add: split_host_field_regex)
        then show ?thesis by simp
      next
        case False
        then have "slash_wrapped h1"
          using \<open>looks_like_regex h1\<close> str_contains_sub [of h1 _ u v]
          by (auto simp: looks_like_regex_def list_ex_iff uv)
        then show ?thesis by (rule slash_wrapped_trim)
      qed
      with True r' nourl r1 show ?thesis by (intro normalize_regex_fixed) (auto simp: lt)
    next
      case False
      with r' r1 have r'_eq: "r' = ?r\<lparr>sr_port := p, sr_host := to_lower h1\<rparr>"
        and pl: "to_lower h1 \<noteq> []" "list_all plain_host_char (to_lower h1)"
        by (auto simp: check_plain_host_None)
      have "\<not> looks_like_regex (trim_space (sr_host r))"
        using False sp assms(2) by (auto simp: split_host_field_regex)
      then have "count_byte CHR '':'' h1 \<noteq> 1"
        using split_host_field_count [OF sp assms(2)] by blast
      then show ?thesis
        using pl plain_not_regex [OF pl(2) False]
        by (intro normalize_plain_fixed) (auto simp: r'_eq lt count_byte_to_lower)
    qed
  qed
qed

section \<open>Lemmas: the table\<close>

definition scope_table_inv :: "rx_compiler \<Rightarrow> scope_table \<Rightarrow> bool" where
  "scope_table_inv rx t \<longleftrightarrow>
     distinct (map sr_id (st_rows t)) \<and> (\<forall>r \<in> set (st_rows t). sr_id r \<le> st_last_id t) \<and>
     distinct (map scope_rule_identity (st_rows t)) \<and>
     (\<forall>r \<in> set (st_rows t). valid_scope rx r = None) \<and>
     st_engine t = set_rules rx (list_scope_rules t)"

lemma set_list_scope_rules [simp]: "set (list_scope_rules t) = set (st_rows t)"
  by (simp add: list_scope_rules_def)

lemma list_scope_rules_cong: "st_rows t = st_rows t' \<Longrightarrow> list_scope_rules t = list_scope_rules t'"
  by (simp add: list_scope_rules_def)

lemma refresh_scope_engine:
  "st_engine (refresh_scope rx t) = set_rules rx (list_scope_rules (refresh_scope rx t))"
  by (simp add: refresh_scope_def list_scope_rules_def)

lemma refresh_scope_rows [simp]:
  "st_rows (refresh_scope rx t) = st_rows t" "st_last_id (refresh_scope rx t) = st_last_id t"
  by (simp_all add: refresh_scope_def)

lemma validate_rule_id [simp]: "validate_rule rx (r\<lparr>sr_id := i\<rparr>) = validate_rule rx r"
  by (simp add: validate_rule_def split: option.split)

lemma valid_scope_id [simp]: "valid_scope rx (r\<lparr>sr_id := i\<rparr>) = valid_scope rx r"
  by (simp add: valid_scope_def Let_def)

lemma identity_id [simp]: "scope_rule_identity (r\<lparr>sr_id := i\<rparr>) = scope_rule_identity r"
  by (simp add: scope_rule_identity_def)

lemma distinct_map_update:
  assumes "distinct (map sr_id rs)" and "distinct (map f rs)"
    and "\<forall>x \<in> set rs. sr_id x \<noteq> sr_id r \<longrightarrow> f x \<noteq> f r"
  shows "distinct (map f (map (\<lambda>x. if sr_id x = sr_id r then r else x) rs))"
  using assms
proof (induction rs)
  case (Cons x rs)
  have "map (\<lambda>x. if sr_id x = sr_id r then r else x) rs = rs" if "sr_id x = sr_id r"
    using Cons.prems(1) that by (intro map_idI) (auto simp: image_iff)
  moreover have "f r \<notin> f ` set rs" if "sr_id x = sr_id r"
  proof -
    have "\<forall>y \<in> set rs. sr_id y \<noteq> sr_id r" using Cons.prems(1) that by (auto simp: image_iff)
    then show ?thesis using Cons.prems(3) by (metis image_iff list.set_intros(2))
  qed
  ultimately show ?case using Cons by (cases "sr_id x = sr_id r") (auto simp: image_iff)
qed simp

lemma scope_init_inv: "scope_table_inv rx scope_init"
  by (simp add: scope_table_inv_def scope_init_def new_engine_def set_rules_eq list_scope_rules_def)

lemma create_scope_inv:
  assumes "scope_table_inv rx t"
  shows "scope_table_inv rx (fst (create_scope rx up t inp))"
proof (cases "normalize_rule up inp")
  case (Inl e)
  with assms show ?thesis by (simp add: create_scope_def)
next
  case (Inr r)
  show ?thesis
  proof (cases "valid_scope rx r = None \<and>
      List.find (\<lambda>ex. scope_rule_identity ex = scope_rule_identity r) (list_scope_rules t) = None")
    case True
    then have "\<forall>ex \<in> set (st_rows t). scope_rule_identity ex \<noteq> scope_rule_identity r"
      by (auto simp: find_None_iff)
    with True Inr assms refresh_scope_engine show ?thesis
      by (fastforce simp: create_scope_def create_scope_rule_def Let_def scope_table_inv_def)
  next
    case False
    with Inr assms show ?thesis by (auto simp: create_scope_def split: option.splits)
  qed
qed

lemma update_scope_inv:
  assumes inv: "scope_table_inv rx t"
  shows "scope_table_inv rx (fst (update_scope rx up t i inp))"
proof (cases "normalize_rule up (inp\<lparr>sr_id := i\<rparr>)")
  case (Inl e)
  with assms show ?thesis by (simp add: update_scope_def)
next
  case (Inr r)
  then have rid: "sr_id r = i" by (simp add: normalize_rule_id)
  show ?thesis
  proof (cases "valid_scope rx r = None \<and>
      List.find (\<lambda>ex. sr_id ex \<noteq> i \<and> scope_rule_identity ex = scope_rule_identity r)
        (list_scope_rules t) = None \<and> i \<in> sr_id ` set (st_rows t)")
    case True
    let ?rows = "map (\<lambda>x. if sr_id x = sr_id r then r else x) (st_rows t)"
    have "\<forall>ex \<in> set (st_rows t). sr_id ex \<noteq> i \<longrightarrow> scope_rule_identity ex \<noteq> scope_rule_identity r"
      using True by (auto simp: find_None_iff)
    then have "distinct (map scope_rule_identity ?rows)" "distinct (map sr_id ?rows)"
      using inv rid distinct_map_update [of "st_rows t" scope_rule_identity r]
        distinct_map_update [of "st_rows t" sr_id r]
      unfolding scope_table_inv_def by blast+
    with True Inr inv rid refresh_scope_engine show ?thesis
      by (fastforce simp: update_scope_def update_scope_rule_def Let_def scope_table_inv_def)
  next
    case False
    with Inr inv rid show ?thesis
      by (auto simp: update_scope_def update_scope_rule_def split: option.splits)
  qed
qed

lemma delete_scope_inv:
  assumes "scope_table_inv rx t"
  shows "scope_table_inv rx (fst (delete_scope rx t i))"
  using assms refresh_scope_engine
  by (auto simp: delete_scope_def delete_scope_rule_def scope_table_inv_def
      intro: distinct_map_filter)

lemma scope_handle_inv: "scope_table_inv rx t \<Longrightarrow> scope_table_inv rx (fst (scope_handle rx up t q))"
  by (cases q) (simp_all add: create_scope_inv update_scope_inv delete_scope_inv)

lemma scope_session_inv: "scope_table_inv rx t \<Longrightarrow> scope_table_inv rx (scope_session rx up t qs)"
  by (induction qs arbitrary: t) (simp_all add: scope_handle_inv)

section \<open>Properties\<close>

definition demo_rule :: "string \<Rightarrow> string \<Rightarrow> string \<Rightarrow> scope_rule" where
  "demo_rule action host path =
     \<lparr>sr_id = 0, sr_ord = 0, sr_enabled = True, sr_action = action, sr_host = host,
      sr_path = path, sr_scheme = [], sr_port = 0\<rparr>"

lemma demo_rule_action [simp]: "sr_action (demo_rule a h p) = a"
  by (simp add: demo_rule_def)

definition demo_target :: "string \<Rightarrow> string \<Rightarrow> flow_target" where
  "demo_target host path = \<lparr>ft_scheme = ''https'', ft_host = host, ft_port = 443, ft_path = path\<rparr>"

text \<open>
  (C6) The scope table and the live matcher never drift apart. After any sequence of create,
  update and delete requests, accepted or refused, no two rules have the same id or the same
  content, every stored rule is valid, and the matcher that the proxy asks answers for exactly
  the stored rules: a flow is out of scope when an enabled exclude rule matches it, and otherwise
  in scope unless enabled include rules exist and none of them matches.
\<close>

theorem scope_session_consistent:
  assumes "t = scope_session rx up scope_init requests"
  shows "distinct (map sr_id (st_rows t)) \<and> distinct (map scope_rule_identity (st_rows t)) \<and>
         (\<forall>r \<in> set (st_rows t). valid_scope rx r = None) \<and>
         (in_scope (st_engine t) f \<longleftrightarrow>
            \<not> (\<exists>r \<in> set (st_rows t). sr_enabled r \<and> sr_action r = ''exclude'' \<and>
                 rule_matches (compile_rule rx r) f) \<and>
            ((\<exists>r \<in> set (st_rows t). sr_enabled r \<and> sr_action r = ''include'') \<longrightarrow>
             (\<exists>r \<in> set (st_rows t). sr_enabled r \<and> sr_action r = ''include'' \<and>
                 rule_matches (compile_rule rx r) f)))"
proof -
  have inv: "scope_table_inv rx t"
    unfolding assms by (rule scope_session_inv [OF scope_init_inv])
  have action: "sr_action r \<noteq> ''exclude'' \<longleftrightarrow> sr_action r = ''include''" if "r \<in> set (st_rows t)" for r
  proof -
    have "valid_scope rx r = None" using inv that by (simp add: scope_table_inv_def)
    then show ?thesis by (auto simp: valid_scope_def split: if_splits)
  qed
  have "in_scope (st_engine t) f = in_scope (set_rules rx (list_scope_rules t)) f"
    using inv by (simp add: scope_table_inv_def)
  then show ?thesis
    using inv action unfolding in_scope_set_rules set_list_scope_rules scope_table_inv_def by blast
qed

theorem scope_session_consistent_witness:
  "\<not> in_scope (st_engine (scope_session literal_compiler (\<lambda>s. None) scope_init
         [CreateReq (demo_rule ''include'' ''a.test'' []), CreateReq (demo_rule ''include'' ''a.test'' [])]))
       (demo_target ''b.test'' ''/'')"
proof -
  let ?t = "scope_session literal_compiler (\<lambda>s. None) scope_init
         [CreateReq (demo_rule ''include'' ''a.test'' []), CreateReq (demo_rule ''include'' ''a.test'' [])]"
  have "st_rows ?t = [(demo_rule ''include'' ''a.test'' [])\<lparr>sr_id := 1\<rparr>]" by code_simp
  moreover have "\<not> rule_matches (compile_rule literal_compiler ((demo_rule ''include'' ''a.test'' [])\<lparr>sr_id := 1\<rparr>))
      (demo_target ''b.test'' ''/'')" by code_simp
  ultimately show ?thesis
    using scope_session_consistent [OF refl, of literal_compiler "\<lambda>s. None"
        "[CreateReq (demo_rule ''include'' ''a.test'' []), CreateReq (demo_rule ''include'' ''a.test'' [])]"
        "demo_target ''b.test'' ''/''"]
    by (simp add: demo_rule_def)
qed

text \<open>
  The order of the rules decides nothing, although \<open>InScope\<close> and \<open>HostInScope\<close> scan them in
  order and stop early: two rule lists that are permutations of each other put the same flows and
  the same hosts in scope, so reordering rules in the UI is cosmetic.
\<close>

theorem scope_order_irrelevant:
  assumes "mset rules = mset rules'"
  shows "in_scope (set_rules rx rules) f = in_scope (set_rules rx rules') f \<and>
         host_in_scope (set_rules rx rules) h = host_in_scope (set_rules rx rules') h"
proof -
  have "set rules = set rules'" by (rule mset_eq_setD [OF assms])
  then show ?thesis by (simp add: in_scope_set_rules host_in_scope_set_rules)
qed

theorem scope_order_irrelevant_witness:
  "in_scope (set_rules literal_compiler [demo_rule ''exclude'' ''a.test'' [], demo_rule ''include'' ''*.test'' []])
     (demo_target ''a.test'' ''/'') =
   in_scope (set_rules literal_compiler [demo_rule ''include'' ''*.test'' [], demo_rule ''exclude'' ''a.test'' []])
     (demo_target ''a.test'' ''/'')"
  using scope_order_irrelevant
    [of "[demo_rule ''exclude'' ''a.test'' [], demo_rule ''include'' ''*.test'' []]"
        "[demo_rule ''include'' ''*.test'' [], demo_rule ''exclude'' ''a.test'' []]" literal_compiler
        "demo_target ''a.test'' ''/''"]
  by (simp add: add_mset_commute)

text \<open>
  A rule that \<open>validScope\<close> accepted matches the way it reads. The matcher falls back to a
  literal comparison when an expression does not compile; for an accepted rule that never
  happens: a host or path written as an expression is matched as one.
\<close>

theorem accepted_rule_compiles_as_written:
  assumes "valid_scope rx r = None" and "c = compile_rule rx r"
  shows "(looks_like_regex (to_lower (sr_host r)) \<and> sr_host r \<noteq> [] \<and> \<not> has_prefix (to_lower (sr_host r)) ''*.'' \<longrightarrow>
            (\<exists>re. rx (''(?i)'' @ unwrap_regex_slashes (to_lower (sr_host r))) = Some re \<and>
                  cr_host_re c = Some re \<and> cr_host_exact c = [])) \<and>
         (looks_like_regex (sr_path r) \<and> sr_path r \<noteq> [] \<longrightarrow>
            (\<exists>re. rx (sr_path r) = Some re \<and> cr_path_re c = Some re \<and> cr_path_exact c = []))"
proof -
  have v: "validate_host_pattern rx (sr_host r) = None" "validate_path_pattern rx (sr_path r) = None"
    using assms(1) by (auto simp: valid_scope_def validate_rule_def split: if_splits option.splits)
  have "looks_like_regex (to_lower (sr_host r)) \<and> sr_host r \<noteq> [] \<and> \<not> has_prefix (to_lower (sr_host r)) ''*.'' \<longrightarrow>
        (\<exists>re. rx (''(?i)'' @ unwrap_regex_slashes (to_lower (sr_host r))) = Some re \<and>
              compile_host_pattern rx (sr_host r) = ([], [], Some re))"
    using v(1) by (auto simp: validate_host_pattern_def compile_host_pattern_def Let_def split: if_splits)
  moreover have "looks_like_regex (sr_path r) \<and> sr_path r \<noteq> [] \<longrightarrow>
        (\<exists>re. rx (sr_path r) = Some re \<and> compile_path_pattern rx (sr_path r) = ([], Some re))"
    using v(2) by (auto simp: validate_path_pattern_def compile_path_pattern_def split: if_splits)
  ultimately show ?thesis
    unfolding assms(2) compile_rule_def Let_def by (auto split: prod.splits)
qed

theorem accepted_rule_compiles_as_written_witness:
  "\<exists>re. cr_path_re (compile_rule literal_compiler (demo_rule ''include'' ''a.test'' ''/api.*'')) = Some re"
proof -
  have "valid_scope literal_compiler (demo_rule ''include'' ''a.test'' ''/api.*'') = None" by code_simp
  moreover have "looks_like_regex (sr_path (demo_rule ''include'' ''a.test'' ''/api.*''))" by code_simp
  ultimately show ?thesis
    using accepted_rule_compiles_as_written [of literal_compiler "demo_rule ''include'' ''a.test'' ''/api.*''", OF _ refl]
    by (auto simp: demo_rule_def)
qed

text \<open>
  Editing a stored rule without changing it changes nothing: what \<open>NormalizeRule\<close> returns for
  a host that is not a URL passes through it again unchanged, with any URL parser, and a port it
  adds is in 1 to 65535.
\<close>

theorem normalize_rule_stable:
  assumes "normalize_rule up r = Inr r'" and "\<not> str_contains (trim_space (sr_host r)) ''://''"
  shows "normalize_rule up' r' = Inr r' \<and>
         (sr_port r' = sr_port r \<or> (sr_port r = 0 \<and> 1 \<le> sr_port r' \<and> sr_port r' \<le> 65535))"
proof
  show "normalize_rule up' r' = Inr r'" by (rule normalize_rule_idem [OF assms])
  have "split_host_field up x h = Inr (x', h') \<Longrightarrow>
      sr_port x' = sr_port x \<or> (sr_port x = 0 \<and> 1 \<le> sr_port x' \<and> sr_port x' \<le> 65535)" for x x' h h'
    by (auto simp: split_host_field_def Let_def split: if_splits option.splits sum.splits
        dest!: set_host_port_frame)
  note sp = this
  show "sr_port r' = sr_port r \<or> (sr_port r = 0 \<and> 1 \<le> sr_port r' \<and> sr_port r' \<le> 65535)"
    using assms(1) by (auto simp: normalize_rule_def Let_def split: if_splits option.splits sum.splits prod.splits
        dest!: sp)
qed

theorem normalize_rule_stable_witness:
  "normalize_rule (\<lambda>s. None) ((demo_rule ''include'' ''example.test'' [])\<lparr>sr_port := 8443\<rparr>) =
     Inr ((demo_rule ''include'' ''example.test'' [])\<lparr>sr_port := 8443\<rparr>)"
proof -
  have "normalize_rule (\<lambda>s. None) (demo_rule ''include'' ''Example.test:8443'' []) =
      Inr ((demo_rule ''include'' ''example.test'' [])\<lparr>sr_port := 8443\<rparr>)"
    by code_simp
  moreover have "\<not> str_contains (trim_space (sr_host (demo_rule ''include'' ''Example.test:8443'' []))) ''://''"
    by code_simp
  ultimately show ?thesis using normalize_rule_stable by blast
qed

text \<open>
  The host gate for session headers agrees with the scope of the flows: when every enabled
  include rule names a host and every enabled exclude rule that names a host constrains nothing
  else, a flow that is in scope has its host in scope.
\<close>

theorem in_scope_host_in_scope:
  assumes "\<And>r. r \<in> set rules \<Longrightarrow> sr_enabled r \<Longrightarrow> sr_action r \<noteq> ''exclude'' \<Longrightarrow>
             has_host_constraint (compile_rule rx r)"
    and "\<And>r. r \<in> set rules \<Longrightarrow> sr_enabled r \<Longrightarrow> sr_action r = ''exclude'' \<Longrightarrow>
             has_host_constraint (compile_rule rx r) \<Longrightarrow>
             sr_path r = [] \<and> sr_scheme r = [] \<and> sr_port r = 0"
    and "in_scope (set_rules rx rules) f"
  shows "host_in_scope (set_rules rx rules) (ft_host f)"
proof -
  have bare: "rule_matches (compile_rule rx r) f \<longleftrightarrow> host_matches (compile_rule rx r) (ft_host f)"
    if "sr_path r = [] \<and> sr_scheme r = [] \<and> sr_port r = 0" for r
    using that by (auto simp: rule_matches_def path_matches_def compile_rule_def compile_path_pattern_def
        Let_def split: prod.splits)
  have host: "rule_matches c f \<Longrightarrow> host_matches c (ft_host f)" for c
    by (simp add: rule_matches_def)
  show ?thesis
    using assms bare host unfolding in_scope_set_rules host_in_scope_set_rules by blast
qed

theorem in_scope_host_in_scope_witness:
  "host_in_scope (set_rules literal_compiler [demo_rule ''include'' ''*.test'' ''/api'']) ''a.test''"
proof -
  have "has_host_constraint (compile_rule literal_compiler (demo_rule ''include'' ''*.test'' ''/api''))"
    by code_simp
  moreover have "in_scope (set_rules literal_compiler [demo_rule ''include'' ''*.test'' ''/api''])
      (demo_target ''a.test'' ''/api/x'')" by code_simp
  ultimately show ?thesis
    using in_scope_host_in_scope [of "[demo_rule ''include'' ''*.test'' ''/api'']" literal_compiler
        "demo_target ''a.test'' ''/api/x''"]
    by (auto simp: demo_rule_def demo_target_def)
qed

text \<open>
  The condition on include rules is needed: with one include rule that has only a path, no host
  passes the host gate, although flows to every host are in scope. And a host pattern that is
  only \<open>*.\<close> is accepted and constrains nothing.
\<close>

lemma path_only_include_closes_host_gate:
  "\<not> host_in_scope (set_rules rx [demo_rule ''include'' [] ''/api'']) h \<and>
   in_scope (set_rules rx [demo_rule ''include'' [] ''/api'']) (demo_target h ''/api'')"
  by (simp add: host_in_scope_set_rules in_scope_set_rules demo_rule_def demo_target_def compile_rule_def
      compile_host_pattern_def compile_path_pattern_def has_host_constraint_def rule_matches_def
      host_matches_def path_matches_def looks_like_regex_def regex_literals_def slash_wrapped_def
      str_contains_def)

lemma star_dot_matches_every_host:
  "normalize_rule up (demo_rule ''include'' ''*.'' []) = Inr (demo_rule ''include'' ''*.'' []) \<and>
   valid_scope rx (demo_rule ''include'' ''*.'' []) = None \<and>
   in_scope (set_rules rx [demo_rule ''include'' ''*.'' []]) f"
proof -
  have "normalize_rule up (demo_rule ''include'' ''*.'' []) = Inr (demo_rule ''include'' ''*.'' [])"
    by code_simp
  moreover have "compile_rule rx (demo_rule ''include'' ''*.'' []) =
      \<lparr>cr_include = True, cr_host_exact = [], cr_host_wild = [], cr_host_re = None, cr_path_exact = [],
       cr_path_re = None, cr_scheme = [], cr_port = 0\<rparr>"
    by (simp add: demo_rule_def compile_rule_def compile_host_pattern_def compile_path_pattern_def to_lower_def
        char_lower_def byte_val_def trim_prefix_def)
  moreover have "valid_scope rx (demo_rule ''include'' ''*.'' []) = None"
    by code_simp
  ultimately show ?thesis
    by (simp add: in_scope_set_rules rule_matches_def host_matches_def has_host_constraint_def path_matches_def)
qed

end
