(* ===== verification/RefCount.thy ===== *)
theory RefCount
  imports GoBase
begin

text \<open>
  Counters kept in a Go map and deleted when they reach zero. The store uses the pattern three
  times: queued writes per flow id (\<open>flowPendingN\<close>), bodies whose flow row is not yet written
  (\<open>pendingBodies\<close>) and bodies held by a merge (\<open>mergeBodies\<close>). The locale states the contract;
  each use is interpreted in the theory that models it.
\<close>

section \<open>The map pattern\<close>

type_synonym 'k counts = "'k \<rightharpoonup> nat"

definition rc_get :: "'k counts \<Rightarrow> 'k \<Rightarrow> nat" where
  "rc_get m k = (case m k of None \<Rightarrow> 0 | Some n \<Rightarrow> n)"

definition rc_inc :: "'k counts \<Rightarrow> 'k \<Rightarrow> 'k counts" where
  "rc_inc m k = m(k \<mapsto> rc_get m k + 1)"

definition rc_dec :: "'k counts \<Rightarrow> 'k \<Rightarrow> 'k counts" where
  "rc_dec m k = (if rc_get m k \<le> 1 then m(k := None) else m(k \<mapsto> rc_get m k - 1))"

section \<open>The contract\<close>

locale ref_counter =
  fixes get :: "'s \<Rightarrow> 'k \<Rightarrow> nat"
    and inc :: "'s \<Rightarrow> 'k \<Rightarrow> 's"
    and dec :: "'s \<Rightarrow> 'k \<Rightarrow> 's"
  assumes get_inc: "get (inc s k) j = get s j + (if j = k then 1 else 0)"
    and get_dec: "get (dec s k) j = get s j - (if j = k then 1 else 0)"
begin

lemma get_dec_inc: "get (dec (inc s k) k) j = get s j"
  by (simp add: get_inc get_dec)

lemma get_foldl_inc: "get (foldl inc s ks) j = get s j + count_list ks j"
  by (induction ks arbitrary: s) (auto simp: get_inc)

lemma get_foldl_dec: "get (foldl dec s ks) j = get s j - count_list ks j"
  by (induction ks arbitrary: s) (auto simp: get_dec)

lemma release_balanced: "get (foldl dec (foldl inc s ks) ks) j = get s j"
  by (simp add: get_foldl_inc get_foldl_dec)

lemma dec_comm: "get (dec (dec s j) k) i = get (dec (dec s k) j) i"
  by (simp add: get_dec)

text \<open>A counter that covers a list of owners still covers the rest after one owner leaves.\<close>

lemma covers_dec: "count_list (k # ks) j \<le> get s j \<Longrightarrow> count_list ks j \<le> get (dec s k) j"
  by (auto simp: get_dec)

end

interpretation rc: ref_counter rc_get rc_inc rc_dec
  by unfold_locales (auto simp: rc_get_def rc_inc_def rc_dec_def)

text \<open>The key is present exactly when the counter is positive, if it was so before.\<close>

definition rc_clean :: "'k counts \<Rightarrow> bool" where
  "rc_clean m \<longleftrightarrow> (\<forall>k. m k \<noteq> Some 0)"

lemma rc_clean_inc [intro]: "rc_clean m \<Longrightarrow> rc_clean (rc_inc m k)"
  by (auto simp: rc_clean_def rc_inc_def)

lemma rc_clean_dec [intro]: "rc_clean m \<Longrightarrow> rc_clean (rc_dec m k)"
  by (auto simp: rc_clean_def rc_dec_def rc_get_def)

lemma rc_clean_present: "rc_clean m \<Longrightarrow> m k = None \<longleftrightarrow> rc_get m k = 0"
  by (auto simp: rc_clean_def rc_get_def split: option.splits intro!: gr0I)

lemma rc_clean_ext: "rc_clean m \<Longrightarrow> rc_clean m' \<Longrightarrow> (\<And>k. rc_get m k = rc_get m' k) \<Longrightarrow> m = m'"
proof
  fix k
  assume a: "rc_clean m" "rc_clean m'" "\<And>k. rc_get m k = rc_get m' k"
  from a(3) [of k] rc_clean_present [OF a(1), of k] rc_clean_present [OF a(2), of k]
  show "m k = m' k" by (auto simp: rc_get_def split: option.splits)
qed

lemma rc_get_empty [simp]: "rc_get Map.empty k = 0"
  by (simp add: rc_get_def)

end
