(* ===== verification/Tags.thy ===== *)
theory Tags
  imports GoBase
begin

text \<open>
  Model of the tag normalisation in \<open>internal/store/tags.go\<close>. \<open>normalizeTag\<close> walks runes; every
  rune outside the slug alphabet becomes part of a run that collapses to one dash, so walking
  bytes gives the same result. The lemmas show that a normalised tag is a slug of at most 32
  bytes that normalises to itself.
\<close>

section \<open>Operations\<close>

definition max_tag_len :: nat where "max_tag_len = 32"
definition max_tags_per_row :: nat where "max_tags_per_row = 30"

definition is_dash :: "char \<Rightarrow> bool" where
  "is_dash c \<longleftrightarrow> c = CHR ''-''"

definition tag_char :: "char \<Rightarrow> bool" where
  "tag_char c \<longleftrightarrow> is_lower_letter c \<or> is_digit c \<or> c = CHR ''.'' \<or> c = CHR ''_'' \<or> c = CHR ''-''"

fun tag_walk :: "string \<Rightarrow> string \<Rightarrow> bool \<Rightarrow> string" where
  "tag_walk [] b last_dash = b"
| "tag_walk (c # s) b last_dash =
     (if tag_char c then tag_walk s (b @ [c]) False
      else if \<not> last_dash \<and> length b > 0 then tag_walk s (b @ ''-'') True
      else tag_walk s b last_dash)"

definition trim_dash :: "string \<Rightarrow> string" where
  "trim_dash s = trim_right_by is_dash (trim_left_by is_dash s)"

definition normalize_tag :: "string \<Rightarrow> string" where
  "normalize_tag s =
     (let out = trim_dash (tag_walk (to_lower (trim_space s)) [] False)
      in if length out > max_tag_len then trim_dash (take max_tag_len out) else out)"

fun normalize_tags_loop :: "string list \<Rightarrow> string list \<Rightarrow> string list" where
  "normalize_tags_loop [] out = out"
| "normalize_tags_loop (t # ts) out =
     (let n = normalize_tag t
      in if n = [] then normalize_tags_loop ts out
         else if n \<in> set out then normalize_tags_loop ts out
         else if length (out @ [n]) \<ge> max_tags_per_row then out @ [n]
         else normalize_tags_loop ts (out @ [n]))"

definition normalize_tags :: "string list \<Rightarrow> string list" where
  "normalize_tags ts = sort (normalize_tags_loop ts [])"

section \<open>Lemmas\<close>

definition slug :: "string \<Rightarrow> bool" where
  "slug s \<longleftrightarrow> list_all tag_char s \<and> (s = [] \<or> \<not> is_dash (hd s) \<and> \<not> is_dash (last s))"

lemma tag_char_dash [simp]: "tag_char CHR ''-''"
  by (simp add: tag_char_def)

lemma tag_walk_chars: "list_all tag_char b \<Longrightarrow> list_all tag_char (tag_walk s b d)"
  by (induction s b d rule: tag_walk.induct) auto

lemma tag_walk_slug: "list_all tag_char s \<Longrightarrow> tag_walk s b d = b @ s"
  by (induction s arbitrary: b d) auto

lemma list_all_dropWhile: "list_all P s \<Longrightarrow> list_all P (dropWhile Q s)"
  by (induction s) auto

lemma trim_right_by_chars: "list_all P s \<Longrightarrow> list_all P (trim_right_by Q s)"
  by (simp add: trim_right_by_def list_all_dropWhile)

lemma trim_right_by_hd: "trim_right_by Q s \<noteq> [] \<Longrightarrow> hd (trim_right_by Q s) = hd s"
  by (induction s rule: rev_induct) (auto simp: trim_right_by_snoc hd_append split: if_splits)

lemma trim_right_by_length: "length (trim_right_by Q s) \<le> length s"
  by (simp add: trim_right_by_def) (metis length_dropWhile_le length_rev)

lemma trim_dash_slug:
  assumes "list_all tag_char s"
  shows "slug (trim_dash s)"
proof -
  let ?l = "trim_left_by is_dash s"
  have "list_all tag_char (trim_dash s)"
    unfolding trim_dash_def trim_left_by_def by (intro trim_right_by_chars list_all_dropWhile assms)
  moreover have "\<not> is_dash (hd (trim_dash s)) \<and> \<not> is_dash (last (trim_dash s))" if ne: "trim_dash s \<noteq> []"
  proof -
    have "?l \<noteq> []" using ne by (auto simp: trim_dash_def)
    then have "\<not> is_dash (hd ?l)" unfolding trim_left_by_def by (rule hd_dropWhile)
    then show ?thesis
      using ne trim_right_by_hd [of is_dash ?l] trim_right_by_last [of is_dash ?l] by (simp add: trim_dash_def)
  qed
  ultimately show ?thesis by (auto simp: slug_def)
qed

lemma trim_dash_id: "slug s \<Longrightarrow> trim_dash s = s"
  unfolding trim_dash_def trim_left_by_def slug_def
  by (cases s) (auto intro!: trim_right_by_unchanged)

lemma trim_dash_length: "length (trim_dash s) \<le> length s"
  unfolding trim_dash_def trim_left_by_def
  by (rule order_trans [OF trim_right_by_length length_dropWhile_le])

lemma normalize_tag_slug: "slug (normalize_tag s) \<and> length (normalize_tag s) \<le> max_tag_len"
proof -
  let ?out = "trim_dash (tag_walk (to_lower (trim_space s)) [] False)"
  have s: "slug ?out" by (rule trim_dash_slug) (simp add: tag_walk_chars)
  then have "list_all tag_char (take max_tag_len ?out)"
    by (auto simp: slug_def list_all_iff dest: in_set_takeD)
  then have "slug (trim_dash (take max_tag_len ?out))" by (rule trim_dash_slug)
  moreover have "length (trim_dash (take max_tag_len ?out)) \<le> max_tag_len"
    by (rule order_trans [OF trim_dash_length]) simp
  ultimately show ?thesis using s by (simp add: normalize_tag_def Let_def)
qed

lemma tag_char_plain: "tag_char c \<Longrightarrow> char_lower c = c \<and> \<not> is_space c"
  by (auto simp: tag_char_def char_lower_def is_lower_letter_def is_digit_def is_space_def byte_val_def)

lemma slug_trim_space: "slug s \<Longrightarrow> trim_space s = s"
  unfolding trim_space_def trim_left_by_def slug_def using tag_char_plain
  by (cases s) (auto simp: list_all_iff intro!: trim_right_by_unchanged)

lemma normalize_tag_slug_id: "slug s \<Longrightarrow> length s \<le> max_tag_len \<Longrightarrow> normalize_tag s = s"
proof -
  assume s: "slug s" and l: "length s \<le> max_tag_len"
  have "to_lower s = s"
    using s tag_char_plain by (auto simp: to_lower_def slug_def list_all_iff intro: map_idI)
  then show ?thesis
    using s l tag_walk_slug [of s "[]" False]
    by (simp add: normalize_tag_def slug_trim_space trim_dash_id slug_def)
qed

lemma normalize_tag_idem [simp]: "normalize_tag (normalize_tag s) = normalize_tag s"
  using normalize_tag_slug normalize_tag_slug_id by blast

definition tags_ok :: "string list \<Rightarrow> bool" where
  "tags_ok out \<longleftrightarrow> distinct out \<and> (\<forall>t \<in> set out. t \<noteq> [] \<and> normalize_tag t = t) \<and> length out \<le> max_tags_per_row"

lemma tags_ok_snoc:
  "tags_ok out \<Longrightarrow> normalize_tag t \<noteq> [] \<Longrightarrow> normalize_tag t \<notin> set out \<Longrightarrow>
   length out < max_tags_per_row \<Longrightarrow> tags_ok (out @ [normalize_tag t])"
  by (simp add: tags_ok_def)

lemma normalize_tags_loop_ok:
  "tags_ok out \<Longrightarrow> length out < max_tags_per_row \<Longrightarrow> tags_ok (normalize_tags_loop ts out)"
proof (induction ts arbitrary: out)
  case (Cons t ts)
  show ?case
  proof (cases "normalize_tag t = [] \<or> normalize_tag t \<in> set out")
    case True
    with Cons show ?thesis by (auto simp: Let_def)
  next
    case False
    with Cons.prems have "tags_ok (out @ [normalize_tag t])" by (simp add: tags_ok_snoc)
    with False Cons.IH [of "out @ [normalize_tag t]"] show ?thesis by (simp add: Let_def)
  qed
qed simp

lemma normalize_tags_ok: "tags_ok (normalize_tags ts) \<and> sorted (normalize_tags ts)"
  using normalize_tags_loop_ok [of "[]" ts]
  by (simp add: normalize_tags_def tags_ok_def max_tags_per_row_def)

lemma normalize_tags_loop_fixed:
  "tags_ok (out @ ts) \<Longrightarrow> normalize_tags_loop ts out = out @ ts"
proof (induction ts arbitrary: out)
  case (Cons t ts)
  then have "normalize_tag t = t" "t \<noteq> []" "t \<notin> set out" "ts = [] \<or> \<not> max_tags_per_row \<le> Suc (length out)"
    by (cases ts; auto simp: tags_ok_def)+
  with Cons.prems Cons.IH [of "out @ [t]"] show ?case by (auto simp: Let_def)
qed simp

lemma normalize_tags_idem [simp]: "normalize_tags (normalize_tags ts) = normalize_tags ts"
  using normalize_tags_loop_fixed [of "[]" "normalize_tags ts"] normalize_tags_ok [of ts]
  by (simp add: normalize_tags_def [of "normalize_tags ts"] sort_key_id_if_sorted)

section \<open>Properties\<close>

text \<open>
  Normalising tags is a closure: the result has at most 30 distinct tags in order, each a
  non-empty slug of at most 32 bytes that does not start or end with a dash, and normalising it
  again, as the write-behind queue and the writer both do, changes nothing.
\<close>

theorem normalize_tags_closure:
  "normalize_tags (normalize_tags ts) = normalize_tags ts \<and> sorted (normalize_tags ts) \<and>
   distinct (normalize_tags ts) \<and> length (normalize_tags ts) \<le> max_tags_per_row \<and>
   list_all (\<lambda>t. t \<noteq> [] \<and> slug t \<and> length t \<le> max_tag_len) (normalize_tags ts)"
proof -
  note ok = normalize_tags_ok [of ts]
  have "slug t \<and> length t \<le> max_tag_len" if "normalize_tag t = t" for t
    using that normalize_tag_slug [of t] by simp
  with ok show ?thesis by (auto simp: tags_ok_def list_all_iff)
qed

end
