(* ===== verification/FlowQueue.thy ===== *)
theory FlowQueue
  imports RefCount Tags
begin

text \<open>
  Model of the write-behind queue of captured flows (\<open>internal/store/writebehind.go\<close>), with the
  row writers it calls (\<open>store.go\<close>, \<open>tags.go\<close>) and the protection of captured bodies
  (\<open>bodies.go\<close>). The database is the list of flow rows and the list of tag rows; a statement that
  fails for a reason other than a missing or duplicate row is a value of the environment. Columns
  that the queue never looks at are folded into \<open>qf_ident\<close>, \<open>qf_note\<close> (set at insert) and
  \<open>qf_fields\<close> (set at insert and update). Times, logging and the wake-up channel are not modelled.
\<close>

section \<open>Data\<close>

record qflow =
  qf_id :: int
  qf_ident :: string
  qf_note :: string
  qf_fields :: string
  qf_req_body :: string
  qf_res_body :: string
  qf_orig_req_body :: string
  qf_orig_res_body :: string

datatype flow_op_kind = OpInsert | OpUpdate | OpAddTags

record flow_op =
  op_kind :: flow_op_kind
  op_flow :: "qflow option"
  op_id :: int
  op_tags :: "string list"

record flow_db =
  db_rows :: "qflow list"
  db_tags :: "(int \<times> string) list"

record fstore =
  fs_pending :: "flow_op list"
  fs_in_flight :: bool
  fs_pending_n :: "int counts"
  fs_void :: "int set"
  fs_dropped :: nat
  fs_closed :: bool
  fs_give_up :: bool
  fs_next_id :: int
  fs_bodies :: "string counts"
  fs_db :: flow_db

text \<open>What the database does to a chunk: opening, committing, and each write's statements.\<close>

record flow_env =
  ev_begin_ok :: bool
  ev_commit_ok :: bool
  ev_fails :: "flow_op \<Rightarrow> bool"

definition flow_buf_cap :: nat where "flow_buf_cap = 4096"
definition flow_batch_max :: nat where "flow_batch_max = 512"
definition max_pending_bodies :: nat where "max_pending_bodies = 4096"

definition fstore_init :: "flow_db \<Rightarrow> int \<Rightarrow> fstore" where
  "fstore_init db next =
     \<lparr>fs_pending = [], fs_in_flight = False, fs_pending_n = Map.empty, fs_void = {}, fs_dropped = 0,
      fs_closed = False, fs_give_up = False, fs_next_id = next, fs_bodies = Map.empty, fs_db = db\<rparr>"

section \<open>Row writers\<close>

datatype write_result = Wrote flow_db | NoRows | Conflict | WriteErr

definition has_row :: "flow_db \<Rightarrow> int \<Rightarrow> bool" where
  "has_row db i = list_ex (\<lambda>r. qf_id r = i) (db_rows db)"

definition insert_flow_row_exec :: "bool \<Rightarrow> flow_db \<Rightarrow> qflow \<Rightarrow> int \<Rightarrow> write_result" where
  "insert_flow_row_exec fails db f i =
     (if has_row db i then Conflict
      else if fails then WriteErr
      else Wrote (db\<lparr>db_rows := db_rows db @ [f\<lparr>qf_id := i\<rparr>]\<rparr>))"

definition update_row :: "qflow \<Rightarrow> qflow \<Rightarrow> qflow" where
  "update_row f r =
     r\<lparr>qf_fields := qf_fields f, qf_req_body := qf_req_body f, qf_res_body := qf_res_body f,
       qf_orig_req_body := qf_orig_req_body f, qf_orig_res_body := qf_orig_res_body f\<rparr>"

definition write_flow_update_exec :: "bool \<Rightarrow> flow_db \<Rightarrow> qflow \<Rightarrow> write_result" where
  "write_flow_update_exec fails db f =
     (if fails then WriteErr
      else if \<not> has_row db (qf_id f) then NoRows
      else Wrote (db\<lparr>db_rows := map (\<lambda>r. if qf_id r = qf_id f then update_row f r else r) (db_rows db)\<rparr>))"

fun insert_tags :: "int \<Rightarrow> string list \<Rightarrow> (int \<times> string) list \<Rightarrow> (int \<times> string) list" where
  "insert_tags i [] rows = rows"
| "insert_tags i (t # ts) rows = insert_tags i ts (if (i, t) \<in> set rows then rows else rows @ [(i, t)])"

definition write_flow_tags_exec :: "bool \<Rightarrow> flow_db \<Rightarrow> int \<Rightarrow> string list \<Rightarrow> write_result" where
  "write_flow_tags_exec fails db i tags =
     (if fails then WriteErr
      else if \<not> has_row db i then NoRows
      else Wrote (db\<lparr>db_tags := insert_tags i (normalize_tags tags) (db_tags db)\<rparr>))"

section \<open>Protected bodies\<close>

text \<open>\<open>protectPending\<close>: \<open>None\<close> when too many bodies wait for their flow.\<close>

definition protect_pending :: "string \<Rightarrow> fstore \<Rightarrow> fstore option" where
  "protect_pending h s =
     (if rc_get (fs_bodies s) h = 0 \<and> card (dom (fs_bodies s)) \<ge> max_pending_bodies then None
      else Some (s\<lparr>fs_bodies := rc_inc (fs_bodies s) h\<rparr>))"

definition release_pending_body :: "string counts \<Rightarrow> string \<Rightarrow> string counts" where
  "release_pending_body m h = (if h = [] then m else rc_dec m h)"

definition flow_bodies :: "qflow \<Rightarrow> string list" where
  "flow_bodies f = [qf_req_body f, qf_res_body f, qf_orig_req_body f, qf_orig_res_body f]"

definition publish_bodies :: "string list \<Rightarrow> fstore \<Rightarrow> fstore" where
  "publish_bodies hs s = s\<lparr>fs_bodies := foldl release_pending_body (fs_bodies s) hs\<rparr>"

definition publish_flow_bodies :: "qflow option \<Rightarrow> fstore \<Rightarrow> fstore" where
  "publish_flow_bodies f s = (case f of None \<Rightarrow> s | Some f \<Rightarrow> publish_bodies (flow_bodies f) s)"

section \<open>Ids and counters\<close>

definition alloc_flow_id :: "fstore \<Rightarrow> fstore \<times> int" where
  "alloc_flow_id s = (s\<lparr>fs_next_id := fs_next_id s + 1\<rparr>, fs_next_id s + 1)"

definition note_flow_id :: "int \<Rightarrow> fstore \<Rightarrow> fstore" where
  "note_flow_id i s = (if i \<le> fs_next_id s then s else s\<lparr>fs_next_id := i\<rparr>)"

definition bump_flow_pending :: "int \<Rightarrow> fstore \<Rightarrow> fstore" where
  "bump_flow_pending i s = s\<lparr>fs_pending_n := rc_inc (fs_pending_n s) i\<rparr>"

definition finish_flow_pending :: "int \<Rightarrow> fstore \<Rightarrow> fstore" where
  "finish_flow_pending i s = s\<lparr>fs_pending_n := rc_dec (fs_pending_n s) i\<rparr>"

definition drop_oldest_flow :: "fstore \<Rightarrow> fstore \<times> qflow option" where
  "drop_oldest_flow s =
     (case fs_pending s of
        [] \<Rightarrow> (s, None)
      | op # rest \<Rightarrow>
          if length (fs_pending s) < flow_buf_cap then (s, None)
          else
            let s = finish_flow_pending (op_id op)
                      (s\<lparr>fs_pending := rest, fs_dropped := fs_dropped s + 1\<rparr>);
                s = (if op_kind op = OpInsert then s\<lparr>fs_void := insert (op_id op) (fs_void s)\<rparr> else s)
            in (s, op_flow op))"

definition flow_busy_id :: "int \<Rightarrow> fstore \<Rightarrow> bool" where
  "flow_busy_id i s \<longleftrightarrow> rc_get (fs_pending_n s) i > 0"

section \<open>Enqueue\<close>

datatype enqueue_reply = FlowsClosed | BadFlow | Accepted

definition push_op :: "flow_op \<Rightarrow> fstore \<Rightarrow> fstore" where
  "push_op op s = bump_flow_pending (op_id op) (s\<lparr>fs_pending := fs_pending s @ [op]\<rparr>)"

definition enqueue_insert_flow :: "qflow \<Rightarrow> fstore \<Rightarrow> fstore \<times> enqueue_reply \<times> int" where
  "enqueue_insert_flow f s =
     (if fs_closed s then (s, FlowsClosed, qf_id f)
      else
        let (s, dropped) = drop_oldest_flow s;
            (s, i) = (if qf_id f = 0 then alloc_flow_id s else (note_flow_id (qf_id f) s, qf_id f));
            s = push_op \<lparr>op_kind = OpInsert, op_flow = Some (f\<lparr>qf_id := i\<rparr>), op_id = i, op_tags = []\<rparr> s
        in (publish_flow_bodies dropped s, Accepted, i))"

definition enqueue_update_flow :: "qflow \<Rightarrow> fstore \<Rightarrow> fstore \<times> enqueue_reply" where
  "enqueue_update_flow f s =
     (if qf_id f = 0 then (s, BadFlow)
      else if fs_closed s then (s, FlowsClosed)
      else if qf_id f \<in> fs_void s \<and> rc_get (fs_pending_n s) (qf_id f) = 0
        then (publish_flow_bodies (Some f) s, Accepted)
      else
        let (s, dropped) = drop_oldest_flow s;
            s = push_op \<lparr>op_kind = OpUpdate, op_flow = Some f, op_id = qf_id f, op_tags = []\<rparr> s
        in (publish_flow_bodies dropped s, Accepted))"

definition enqueue_add_flow_tags :: "int \<Rightarrow> string list \<Rightarrow> fstore \<Rightarrow> fstore \<times> enqueue_reply" where
  "enqueue_add_flow_tags i tags s =
     (let tags = normalize_tags tags
      in if i = 0 \<or> length tags = 0 then (s, Accepted)
         else if fs_closed s then (s, FlowsClosed)
         else if i \<in> fs_void s \<and> rc_get (fs_pending_n s) i = 0 then (s, Accepted)
         else
           let (s, dropped) = drop_oldest_flow s;
               s = push_op \<lparr>op_kind = OpAddTags, op_flow = None, op_id = i, op_tags = tags\<rparr> s
           in (publish_flow_bodies dropped s, Accepted))"

section \<open>Applying a chunk in one transaction\<close>

datatype op_result = OpDone flow_db | OpSkipped | OpErr

definition insert_flow_exec :: "flow_env \<Rightarrow> flow_op \<Rightarrow> qflow \<Rightarrow> int \<Rightarrow> flow_db \<Rightarrow> int \<times> op_result" where
  "insert_flow_exec ev op f next db =
     (let i = (if qf_id f = 0 then next + 1 else qf_id f);
          next = (if i \<le> next then next else i)
      in (next, case insert_flow_row_exec (ev_fails ev op) db f i of Wrote db \<Rightarrow> OpDone db | _ \<Rightarrow> OpErr))"

definition apply_flow_op_tx :: "flow_env \<Rightarrow> int \<Rightarrow> flow_db \<Rightarrow> flow_op \<Rightarrow> int \<times> op_result" where
  "apply_flow_op_tx ev next db op =
     (case op_kind op of
        OpInsert \<Rightarrow>
          (case op_flow op of None \<Rightarrow> (next, OpDone db) | Some f \<Rightarrow> insert_flow_exec ev op f next db)
      | OpUpdate \<Rightarrow>
          (next, case write_flow_update_exec (ev_fails ev op) db (the (op_flow op)) of
                   Wrote db \<Rightarrow> OpDone db | NoRows \<Rightarrow> OpSkipped | _ \<Rightarrow> OpErr)
      | OpAddTags \<Rightarrow>
          (next, case write_flow_tags_exec (ev_fails ev op) db (op_id op) (op_tags op) of
                   Wrote db \<Rightarrow> OpDone db | NoRows \<Rightarrow> OpSkipped | _ \<Rightarrow> OpErr))"

fun tx_loop :: "flow_env \<Rightarrow> int set \<Rightarrow> flow_op list \<Rightarrow> int \<Rightarrow> flow_db \<Rightarrow> int \<times> flow_db option" where
  "tx_loop ev void [] next db = (next, Some db)"
| "tx_loop ev void (op # ops) next db =
     (if op_id op \<in> void then tx_loop ev void ops next db
      else case apply_flow_op_tx ev next db op of
             (next, OpDone db) \<Rightarrow> tx_loop ev void ops next db
           | (next, OpSkipped) \<Rightarrow> tx_loop ev void ops next db
           | (next, OpErr) \<Rightarrow> (next, None))"

text \<open>The flag tells whether the chunk committed; a chunk that did not wrote nothing.\<close>

definition apply_flow_batch_tx :: "flow_env \<Rightarrow> flow_op list \<Rightarrow> fstore \<Rightarrow> fstore \<times> bool" where
  "apply_flow_batch_tx ev batch s =
     (if \<not> ev_begin_ok ev then (s, False)
      else case tx_loop ev (fs_void s) batch (fs_next_id s) (fs_db s) of
             (next, None) \<Rightarrow> (s\<lparr>fs_next_id := next\<rparr>, False)
           | (next, Some db) \<Rightarrow>
               if ev_commit_ok ev then (s\<lparr>fs_next_id := next, fs_db := db\<rparr>, True)
               else (s\<lparr>fs_next_id := next\<rparr>, False))"

definition retire_op :: "flow_op \<Rightarrow> fstore \<Rightarrow> fstore" where
  "retire_op op s =
     (let s = finish_flow_pending (op_id op) s
      in if fs_pending_n s (op_id op) = None then s\<lparr>fs_void := fs_void s - {op_id op}\<rparr> else s)"

definition complete_op :: "flow_op \<Rightarrow> fstore \<Rightarrow> fstore" where
  "complete_op op s = retire_op op s"

definition complete_ops :: "flow_op list \<Rightarrow> fstore \<Rightarrow> fstore" where
  "complete_ops batch s =
     fold (\<lambda>op. publish_flow_bodies (op_flow op)) batch (fold retire_op batch s)"

section \<open>The replay, one write at a time\<close>

definition db_after :: "flow_db \<Rightarrow> write_result \<Rightarrow> flow_db" where
  "db_after db r = (case r of Wrote db' \<Rightarrow> db' | _ \<Rightarrow> db)"

definition max_row_id :: "flow_db \<Rightarrow> int" where
  "max_row_id db = foldr (\<lambda>r. max (qf_id r)) (db_rows db) 0"

text \<open>The allocation loop of \<open>insertFlow\<close> for a flow without an id: four attempts.\<close>

fun insert_retry :: "nat \<Rightarrow> bool \<Rightarrow> qflow \<Rightarrow> fstore \<Rightarrow> fstore \<times> bool" where
  "insert_retry 0 fails f s = (s, True)"
| "insert_retry (Suc n) fails f s =
     (let (s, i) = alloc_flow_id s
      in case insert_flow_row_exec fails (fs_db s) f i of
           Wrote db \<Rightarrow> (s\<lparr>fs_db := db\<rparr>, False)
         | Conflict \<Rightarrow> insert_retry n fails f (note_flow_id (max_row_id (fs_db s)) s)
         | _ \<Rightarrow> (s, True))"

definition insert_flow :: "bool \<Rightarrow> qflow \<Rightarrow> fstore \<Rightarrow> fstore \<times> bool" where
  "insert_flow fails f s =
     (let (s, err) =
        (if qf_id f \<noteq> 0 then
           let s = note_flow_id (qf_id f) s; r = insert_flow_row_exec fails (fs_db s) f (qf_id f)
           in (s\<lparr>fs_db := db_after (fs_db s) r\<rparr>, \<not> (\<exists>db. r = Wrote db))
         else insert_retry 4 fails f s)
      in (publish_bodies (flow_bodies f) s, err))"

definition write_flow_update :: "bool \<Rightarrow> qflow \<Rightarrow> fstore \<Rightarrow> fstore \<times> write_result" where
  "write_flow_update fails f s =
     (let r = write_flow_update_exec fails (fs_db s) f
      in (publish_bodies (flow_bodies f) (s\<lparr>fs_db := db_after (fs_db s) r\<rparr>), r))"

definition apply_flow_op :: "flow_env \<Rightarrow> flow_op \<Rightarrow> fstore \<Rightarrow> fstore \<times> bool" where
  "apply_flow_op ev op s =
     (if op_id op \<in> fs_void s then (publish_flow_bodies (op_flow op) s, False)
      else case op_kind op of
        OpInsert \<Rightarrow> insert_flow (ev_fails ev op) (the (op_flow op)) s
      | OpUpdate \<Rightarrow>
          (let (s, r) = write_flow_update (ev_fails ev op) (the (op_flow op)) s
           in (s, r = WriteErr))
      | OpAddTags \<Rightarrow>
          (s\<lparr>fs_db := db_after (fs_db s) (write_flow_tags_exec (ev_fails ev op) (fs_db s) (op_id op) (op_tags op))\<rparr>,
           False))"

definition abandon_ops :: "flow_op list \<Rightarrow> fstore \<Rightarrow> fstore" where
  "abandon_ops batch s =
     (let s = fold (\<lambda>op. publish_flow_bodies (op_flow op)) batch s
      in s\<lparr>fs_dropped := fs_dropped s + length batch\<rparr>)"

fun apply_flow_ops_one_by_one :: "flow_env \<Rightarrow> flow_op list \<Rightarrow> fstore \<Rightarrow> fstore \<times> bool" where
  "apply_flow_ops_one_by_one ev [] s = (s, False)"
| "apply_flow_ops_one_by_one ev (op # ops) s =
     (if fs_give_up s then (abandon_ops (op # ops) s, False)
      else
        let (s, err) = apply_flow_op ev op s;
            (s, err') = apply_flow_ops_one_by_one ev ops (complete_op op s)
        in (s, err \<or> err'))"

definition apply_flow_batch :: "flow_env \<Rightarrow> flow_op list \<Rightarrow> fstore \<Rightarrow> fstore \<times> bool" where
  "apply_flow_batch ev batch s =
     (let (s, committed) = apply_flow_batch_tx ev batch s
      in if committed then (complete_ops batch s, False)
         else apply_flow_ops_one_by_one ev batch s)"

section \<open>Draining\<close>

definition abandon_pending :: "fstore \<Rightarrow> fstore" where
  "abandon_pending s =
     (let batch = fs_pending s;
          s = s\<lparr>fs_pending := [], fs_in_flight := False\<rparr>;
          s = fold (\<lambda>op s. let s = finish_flow_pending (op_id op) s
                           in if op_kind op = OpInsert then s\<lparr>fs_void := insert (op_id op) (fs_void s)\<rparr>
                              else s) batch s
      in abandon_ops batch s)"

definition take_batch :: "fstore \<Rightarrow> fstore \<times> flow_op list" where
  "take_batch s =
     (s\<lparr>fs_pending := [], fs_in_flight := (fs_in_flight s \<or> length (fs_pending s) > 0)\<rparr>, fs_pending s)"

function drain_chunks :: "(nat \<Rightarrow> flow_env) \<Rightarrow> nat \<Rightarrow> flow_op list \<Rightarrow> fstore \<Rightarrow> fstore \<times> bool" where
  "drain_chunks evs k batch s =
     (if batch = [] then (s, False)
      else if fs_give_up s then (abandon_ops batch s, False)
      else
        let (s, err) = apply_flow_batch (evs k) (take flow_batch_max batch) s;
            (s, err') = drain_chunks evs (Suc k) (drop flow_batch_max batch) s
        in (s, err \<or> err'))"
  by pat_completeness auto
termination
  by (relation "measure (\<lambda>(evs, k, batch, s). length batch)") (auto simp: flow_batch_max_def)

declare drain_chunks.simps [simp del]

definition drain_once :: "(nat \<Rightarrow> flow_env) \<Rightarrow> fstore \<Rightarrow> fstore \<times> bool" where
  "drain_once evs s =
     (if fs_give_up s then (abandon_pending s, True)
      else
        let (s, batch) = take_batch s
        in if batch = [] then (s, False)
           else let (s, err) = drain_chunks evs 0 batch s in (s\<lparr>fs_in_flight := False\<rparr>, err))"

text \<open>
  \<open>drainUntilIdle\<close> without a deadline: at most eight passes; \<open>evs p k\<close> is what the database does
  to chunk \<open>k\<close> of pass \<open>p\<close>.
\<close>

fun drain_until_idle :: "nat \<Rightarrow> (nat \<Rightarrow> nat \<Rightarrow> flow_env) \<Rightarrow> fstore \<Rightarrow> fstore \<times> bool" where
  "drain_until_idle 0 evs s = (s, False)"
| "drain_until_idle (Suc n) evs s =
     (if fs_give_up s then (abandon_pending s, True)
      else if length (fs_pending s) = 0 then (s, False)
      else
        let (s, err) = drain_once (evs n) s;
            (s, err') = drain_until_idle n evs s
        in (s, err \<or> err'))"

definition flush_flows :: "(nat \<Rightarrow> nat \<Rightarrow> flow_env) \<Rightarrow> fstore \<Rightarrow> fstore" where
  "flush_flows evs s = (if fs_closed s then s else fst (drain_until_idle 8 evs s))"

fun wait_flow_loop :: "nat \<Rightarrow> (nat \<Rightarrow> nat \<Rightarrow> flow_env) \<Rightarrow> int \<Rightarrow> fstore \<Rightarrow> fstore" where
  "wait_flow_loop 0 evs i s = s"
| "wait_flow_loop (Suc n) evs i s =
     (if \<not> flow_busy_id i s then s
      else if fs_closed s then s
      else wait_flow_loop n evs i (flush_flows evs s))"

definition wait_flow :: "(nat \<Rightarrow> nat \<Rightarrow> flow_env) \<Rightarrow> int \<Rightarrow> fstore \<Rightarrow> fstore" where
  "wait_flow evs i s = (if i = 0 then s else wait_flow_loop 8 evs i s)"

definition flows_busy :: "fstore \<Rightarrow> bool" where
  "flows_busy s \<longleftrightarrow> length (fs_pending s) > 0 \<or> fs_in_flight s \<or> (\<exists>i. fs_pending_n s i \<noteq> None)"

section \<open>Counters of queued writes and protected bodies\<close>

interpretation pend: ref_counter "\<lambda>s. rc_get (fs_pending_n s)" "\<lambda>s i. bump_flow_pending i s"
    "\<lambda>s i. finish_flow_pending i s"
  by unfold_locales (simp_all add: bump_flow_pending_def finish_flow_pending_def rc.get_inc rc.get_dec)

lemma release_pending_body_get:
  "rc_get (release_pending_body m h) j = rc_get m j - (if j = h \<and> h \<noteq> [] then 1 else 0)"
  by (simp add: release_pending_body_def rc.get_dec)

text \<open>Every definition below leaves most fields alone; the frame facts are collected here.\<close>

lemma publish_frame [simp]:
  "fs_pending (publish_flow_bodies f s) = fs_pending s"
  "fs_pending_n (publish_flow_bodies f s) = fs_pending_n s"
  "fs_void (publish_flow_bodies f s) = fs_void s"
  "fs_dropped (publish_flow_bodies f s) = fs_dropped s"
  "fs_give_up (publish_flow_bodies f s) = fs_give_up s"
  "fs_closed (publish_flow_bodies f s) = fs_closed s"
  "fs_db (publish_flow_bodies f s) = fs_db s"
  "fs_next_id (publish_flow_bodies f s) = fs_next_id s"
  by (simp_all add: publish_flow_bodies_def publish_bodies_def split: option.splits)

lemma publish_fold_frame [simp]:
  "fs_pending (fold (\<lambda>op. publish_flow_bodies (op_flow op)) b s) = fs_pending s"
  "fs_pending_n (fold (\<lambda>op. publish_flow_bodies (op_flow op)) b s) = fs_pending_n s"
  "fs_void (fold (\<lambda>op. publish_flow_bodies (op_flow op)) b s) = fs_void s"
  "fs_dropped (fold (\<lambda>op. publish_flow_bodies (op_flow op)) b s) = fs_dropped s"
  "fs_give_up (fold (\<lambda>op. publish_flow_bodies (op_flow op)) b s) = fs_give_up s"
  "fs_closed (fold (\<lambda>op. publish_flow_bodies (op_flow op)) b s) = fs_closed s"
  "fs_db (fold (\<lambda>op. publish_flow_bodies (op_flow op)) b s) = fs_db s"
  by (induction b arbitrary: s) simp_all

lemma retire_frame [simp]:
  "fs_pending (retire_op op s) = fs_pending s"
  "fs_dropped (retire_op op s) = fs_dropped s"
  "fs_give_up (retire_op op s) = fs_give_up s"
  "fs_closed (retire_op op s) = fs_closed s"
  "fs_db (retire_op op s) = fs_db s"
  "fs_next_id (retire_op op s) = fs_next_id s"
  by (simp_all add: retire_op_def finish_flow_pending_def Let_def)

lemma retire_pending_n: "rc_get (fs_pending_n (retire_op op s)) i = rc_get (fs_pending_n s) i - (if i = op_id op then 1 else 0)"
  by (simp add: retire_op_def Let_def pend.get_dec)

lemma retire_void_subset: "fs_void (retire_op op s) \<subseteq> fs_void s"
  by (auto simp: retire_op_def finish_flow_pending_def Let_def)

lemma retire_publish: "retire_op op (publish_flow_bodies f s) = publish_flow_bodies f (retire_op op s)"
  by (auto simp: retire_op_def finish_flow_pending_def publish_flow_bodies_def publish_bodies_def Let_def
      split: option.splits)

lemma retire_publish_fold:
  "retire_op op (fold (\<lambda>op. publish_flow_bodies (op_flow op)) b s) =
   fold (\<lambda>op. publish_flow_bodies (op_flow op)) b (retire_op op s)"
  by (induction b arbitrary: s) (simp_all add: retire_publish)

lemma publish_fold_retire:
  "fold retire_op b (publish_flow_bodies f s) = publish_flow_bodies f (fold retire_op b s)"
  by (induction b arbitrary: s) (simp_all add: retire_publish)

lemma complete_ops_Cons:
  "complete_ops (op # ops) s = complete_ops ops (publish_flow_bodies (op_flow op) (retire_op op s))"
  by (simp add: complete_ops_def publish_fold_retire)

lemma complete_ops_Nil [simp]: "complete_ops [] s = s"
  by (simp add: complete_ops_def)

section \<open>A chunk lands the same way whatever the transaction does\<close>

text \<open>The shape of the operations that the enqueue functions build.\<close>

definition op_ok :: "flow_op \<Rightarrow> bool" where
  "op_ok op \<longleftrightarrow>
     op_id op \<noteq> 0 \<and>
     (case op_flow op of None \<Rightarrow> op_kind op = OpAddTags
      | Some f \<Rightarrow> op_kind op \<noteq> OpAddTags \<and> qf_id f = op_id op)"

definition op_write :: "(flow_op \<Rightarrow> bool) \<Rightarrow> flow_db \<Rightarrow> flow_op \<Rightarrow> write_result" where
  "op_write fails db op =
     (case op_kind op of
        OpInsert \<Rightarrow> insert_flow_row_exec (fails op) db (the (op_flow op)) (op_id op)
      | OpUpdate \<Rightarrow> write_flow_update_exec (fails op) db (the (op_flow op))
      | OpAddTags \<Rightarrow> write_flow_tags_exec (fails op) db (op_id op) (op_tags op))"

definition noted :: "flow_op \<Rightarrow> int \<Rightarrow> int" where
  "noted op n = (if op_kind op = OpInsert \<and> \<not> op_id op \<le> n then op_id op else n)"

lemma apply_flow_op_eq:
  assumes "op_ok op" and "op_id op \<notin> fs_void s"
  shows "fst (apply_flow_op ev op s) =
    publish_flow_bodies (op_flow op)
      (s\<lparr>fs_next_id := noted op (fs_next_id s), fs_db := db_after (fs_db s) (op_write (ev_fails ev) (fs_db s) op)\<rparr>)"
proof (cases "op_kind op")
  case OpInsert
  with assms show ?thesis
    by (auto simp: apply_flow_op_def op_ok_def insert_flow_def note_flow_id_def noted_def op_write_def
        publish_flow_bodies_def Let_def split: option.splits)
next
  case OpUpdate
  with assms show ?thesis
    by (auto simp: apply_flow_op_def op_ok_def write_flow_update_def noted_def op_write_def
        publish_flow_bodies_def Let_def split: option.splits)
next
  case OpAddTags
  with assms show ?thesis
    by (auto simp: apply_flow_op_def op_ok_def noted_def op_write_def publish_flow_bodies_def split: option.splits)
qed

lemma apply_flow_op_void:
  "op_id op \<in> fs_void s \<Longrightarrow> apply_flow_op ev op s = (publish_flow_bodies (op_flow op) s, False)"
  by (simp add: apply_flow_op_def)

lemma apply_flow_op_err:
  "op_ok op \<Longrightarrow> op_id op \<notin> fs_void s \<Longrightarrow> op_write (ev_fails ev) (fs_db s) op \<in> {NoRows} \<union> range Wrote \<Longrightarrow>
   snd (apply_flow_op ev op s) = False"
  by (auto simp: apply_flow_op_def op_ok_def op_write_def insert_flow_def note_flow_id_def write_flow_update_def
      insert_flow_row_exec_def write_flow_update_exec_def Let_def split: flow_op_kind.splits option.splits if_splits)

lemma apply_flow_op_tx_eq:
  assumes "op_ok op"
  shows "apply_flow_op_tx ev n db op =
    (noted op n, case op_write (ev_fails ev) db op of Wrote db' \<Rightarrow> OpDone db'
       | NoRows \<Rightarrow> OpSkipped | Conflict \<Rightarrow> OpErr | WriteErr \<Rightarrow> OpErr)"
  using assms
  by (auto simp: apply_flow_op_tx_def insert_flow_exec_def op_ok_def op_write_def noted_def insert_flow_row_exec_def
      write_flow_update_exec_def write_flow_tags_exec_def Let_def split: flow_op_kind.splits option.splits if_splits)

lemma publish_upd:
  "publish_flow_bodies f (s\<lparr>fs_next_id := n, fs_db := db\<rparr>) = (publish_flow_bodies f s)\<lparr>fs_next_id := n, fs_db := db\<rparr>"
  by (simp add: publish_flow_bodies_def publish_bodies_def split: option.splits)

lemma retire_upd: "retire_op op (s\<lparr>fs_next_id := n, fs_db := db\<rparr>) = (retire_op op s)\<lparr>fs_next_id := n, fs_db := db\<rparr>"
  by (simp add: retire_op_def finish_flow_pending_def Let_def)

text \<open>While a write of an id is still to come, retiring another write of it keeps its void mark.\<close>

lemma retire_void_iff:
  assumes "\<forall>i. count_list (map op_id (op # ops)) i \<le> rc_get (fs_pending_n s) i" and "op' \<in> set ops"
  shows "op_id op' \<in> fs_void (retire_op op s) \<longleftrightarrow> op_id op' \<in> fs_void s"
proof (cases "op_id op' = op_id op")
  case True
  have "count_list (map op_id ops) (op_id op) > 0"
    using assms(2) True by (metis count_list_0_iff gr0I image_eqI list.set_map)
  moreover have "count_list (map op_id (op # ops)) (op_id op) \<le> rc_get (fs_pending_n s) (op_id op)"
    using assms(1) by blast
  ultimately have "rc_get (fs_pending_n (finish_flow_pending (op_id op) s)) (op_id op) > 0"
    by (simp add: pend.get_dec)
  then have "fs_pending_n (finish_flow_pending (op_id op) s) (op_id op) \<noteq> None"
    by (auto simp: rc_get_def split: option.splits)
  then show ?thesis
    by (auto simp: retire_op_def finish_flow_pending_def Let_def)
next
  case False
  then show ?thesis by (simp add: retire_op_def finish_flow_pending_def Let_def)
qed

lemma retire_counts:
  assumes "\<forall>i. count_list (map op_id (op # ops)) i \<le> rc_get (fs_pending_n s) i"
  shows "\<forall>i. count_list (map op_id ops) i \<le> rc_get (fs_pending_n (retire_op op s)) i"
proof
  fix i
  have "count_list (op_id op # map op_id ops) i \<le> rc_get (fs_pending_n s) i" using assms by simp
  then show "count_list (map op_id ops) i \<le> rc_get (fs_pending_n (retire_op op s)) i"
    using pend.covers_dec [of "op_id op" "map op_id ops" i s] by (simp add: retire_pending_n pend.get_dec)
qed

lemma tx_loop_replay:
  assumes "tx_loop ev V ops (fs_next_id s) (fs_db s) = (n', Some db')"
    and "\<not> fs_give_up s" and "\<forall>op \<in> set ops. op_ok op"
    and "\<forall>i. count_list (map op_id ops) i \<le> rc_get (fs_pending_n s) i"
    and "\<forall>op \<in> set ops. op_id op \<in> fs_void s \<longleftrightarrow> op_id op \<in> V"
  shows "apply_flow_ops_one_by_one ev ops s = (complete_ops ops (s\<lparr>fs_next_id := n', fs_db := db'\<rparr>), False)"
  using assms
proof (induction ops arbitrary: s)
  case Nil
  then show ?case by simp
next
  case (Cons op ops)
  have void': "\<forall>op' \<in> set ops. op_id op' \<in> fs_void (retire_op op s) \<longleftrightarrow> op_id op' \<in> V"
    using Cons.prems(5) retire_void_iff [OF Cons.prems(4)] by simp
  note counts' = retire_counts [OF Cons.prems(4)]
  define s1 where "s1 = publish_flow_bodies (op_flow op) s"
  have step: "apply_flow_ops_one_by_one ev ops (complete_op op (s1\<lparr>fs_next_id := n, fs_db := db\<rparr>)) =
      (complete_ops (op # ops) (s\<lparr>fs_next_id := n', fs_db := db'\<rparr>), False)"
    if "tx_loop ev V ops n db = (n', Some db')" for n db
  proof -
    let ?t = "complete_op op (s1\<lparr>fs_next_id := n, fs_db := db\<rparr>)"
    have t: "?t = (publish_flow_bodies (op_flow op) (retire_op op s))\<lparr>fs_next_id := n, fs_db := db\<rparr>"
      by (simp add: s1_def complete_op_def retire_upd retire_publish)
    have "apply_flow_ops_one_by_one ev ops ?t = (complete_ops ops (?t\<lparr>fs_next_id := n', fs_db := db'\<rparr>), False)"
      by (rule Cons.IH) (use Cons.prems that void' counts' in \<open>simp_all add: t\<close>)
    then show ?thesis by (simp add: t complete_ops_Cons publish_upd retire_upd)
  qed
  have ok: "op_ok op" using Cons.prems(3) by simp
  show ?case
  proof (cases "op_id op \<in> V")
    case True
    then have v: "op_id op \<in> fs_void s" using Cons.prems(5) by simp
    have same: "s1\<lparr>fs_next_id := fs_next_id s, fs_db := fs_db s\<rparr> = s1"
      by (simp add: s1_def publish_flow_bodies_def publish_bodies_def split: option.splits)
    have "apply_flow_op ev op s = (s1, False)"
      by (simp add: apply_flow_op_void [OF v] s1_def)
    with step [of "fs_next_id s" "fs_db s"] True Cons.prems(1,2) same show ?thesis by simp
  next
    case False
    then have v: "op_id op \<notin> fs_void s" using Cons.prems(5) by simp
    let ?w = "op_write (ev_fails ev) (fs_db s) op"
    have w: "?w \<in> {NoRows} \<union> range Wrote"
      and tl: "tx_loop ev V ops (noted op (fs_next_id s)) (db_after (fs_db s) ?w) = (n', Some db')"
      using Cons.prems(1) False by (auto simp: apply_flow_op_tx_eq [OF ok] db_after_def split: write_result.splits)
    obtain s2 where s2: "apply_flow_op ev op s = (s2, False)"
      using apply_flow_op_err [OF ok v w] by (metis prod.collapse)
    then have "s2 = s1\<lparr>fs_next_id := noted op (fs_next_id s), fs_db := db_after (fs_db s) ?w\<rparr>"
      using apply_flow_op_eq [OF ok v, of ev] by (simp add: s1_def publish_upd)
    with step [OF tl] s2 Cons.prems(2) show ?thesis by simp
  qed
qed

text \<open>Ids that the enqueue functions have noted: noting them again changes nothing.\<close>

lemma tx_loop_noted:
  "\<forall>op \<in> set ops. op_ok op \<and> (op_kind op = OpInsert \<longrightarrow> op_id op \<le> n) \<Longrightarrow> fst (tx_loop ev V ops n db) = n"
  by (induction ops arbitrary: db)
     (auto simp: apply_flow_op_tx_eq noted_def split: write_result.splits)

lemma apply_flow_batch_replay:
  assumes "\<not> fs_give_up s" and "\<forall>op \<in> set batch. op_ok op \<and> (op_kind op = OpInsert \<longrightarrow> op_id op \<le> fs_next_id s)"
    and "\<forall>i. count_list (map op_id batch) i \<le> rc_get (fs_pending_n s) i"
  shows "apply_flow_batch ev batch s = apply_flow_ops_one_by_one ev batch s"
proof (cases "ev_begin_ok ev")
  case False
  then show ?thesis by (simp add: apply_flow_batch_def apply_flow_batch_tx_def)
next
  case True
  obtain r where tx: "tx_loop ev (fs_void s) batch (fs_next_id s) (fs_db s) = (fs_next_id s, r)"
    using tx_loop_noted [OF assms(2)] by (metis prod.collapse)
  show ?thesis
  proof (cases r)
    case None
    with tx show ?thesis by (simp add: apply_flow_batch_def apply_flow_batch_tx_def)
  next
    case (Some db')
    with tx_loop_replay [of ev "fs_void s" batch s "fs_next_id s" db'] tx assms
    show ?thesis by (simp add: apply_flow_batch_def apply_flow_batch_tx_def)
  qed
qed

text \<open>The write that a caller waiting for SQLite would have made.\<close>

definition seq_write :: "(flow_op \<Rightarrow> bool) \<Rightarrow> flow_db \<Rightarrow> flow_op \<Rightarrow> flow_db" where
  "seq_write fails db op = db_after db (op_write fails db op)"

definition same_queue :: "fstore \<Rightarrow> fstore \<Rightarrow> bool" where
  "same_queue s s' \<longleftrightarrow>
     fs_pending s' = fs_pending s \<and> fs_dropped s' = fs_dropped s \<and> fs_give_up s' = fs_give_up s \<and>
     fs_closed s' = fs_closed s \<and> fs_next_id s' = fs_next_id s"

lemma retire_clean: "rc_clean (fs_pending_n s) \<Longrightarrow> rc_clean (fs_pending_n (retire_op op s))"
  by (auto simp: retire_op_def finish_flow_pending_def Let_def)

lemma apply_flow_op_frame:
  assumes "op_ok op" and "op_kind op = OpInsert \<longrightarrow> op_id op \<le> fs_next_id s" and "apply_flow_op ev op s = (s1, err)"
  shows "same_queue s s1 \<and> fs_pending_n s1 = fs_pending_n s \<and> fs_void s1 = fs_void s \<and>
    (op_id op \<notin> fs_void s \<longrightarrow> fs_db s1 = seq_write (ev_fails ev) (fs_db s) op)"
proof (cases "op_id op \<in> fs_void s")
  case True
  with assms(3) show ?thesis by (auto simp: apply_flow_op_void same_queue_def)
next
  case False
  have "s1 = publish_flow_bodies (op_flow op) (s\<lparr>fs_next_id := noted op (fs_next_id s),
      fs_db := db_after (fs_db s) (op_write (ev_fails ev) (fs_db s) op)\<rparr>)"
    using apply_flow_op_eq [OF assms(1) False, of ev] assms(3) by simp
  with assms(2) show ?thesis by (simp add: same_queue_def seq_write_def noted_def)
qed

lemma one_by_one_effects:
  assumes "\<not> fs_give_up s"
    and "\<forall>op \<in> set ops. op_ok op \<and> (op_kind op = OpInsert \<longrightarrow> op_id op \<le> fs_next_id s)"
    and "s' = fst (apply_flow_ops_one_by_one ev ops s)"
  shows "same_queue s s' \<and> fs_void s' \<subseteq> fs_void s \<and>
    (rc_clean (fs_pending_n s) \<longrightarrow> rc_clean (fs_pending_n s')) \<and>
    (\<forall>i. rc_get (fs_pending_n s') i = rc_get (fs_pending_n s) i - count_list (map op_id ops) i) \<and>
    (fs_void s = {} \<longrightarrow> fs_db s' = foldl (seq_write (ev_fails ev)) (fs_db s) ops)"
  using assms
proof (induction ops arbitrary: s)
  case Nil
  then show ?case by (simp add: same_queue_def)
next
  case (Cons op ops)
  obtain s1 err where s1: "apply_flow_op ev op s = (s1, err)" by (metis prod.collapse)
  note fr = apply_flow_op_frame [OF _ _ s1]
  have ok: "op_ok op" "op_kind op = OpInsert \<longrightarrow> op_id op \<le> fs_next_id s"
    using Cons.prems(2) by auto
  let ?t = "complete_op op s1"
  have t: "same_queue s ?t" "fs_void ?t \<subseteq> fs_void s" "rc_clean (fs_pending_n s) \<Longrightarrow> rc_clean (fs_pending_n ?t)"
    "fs_void s = {} \<Longrightarrow> fs_db ?t = seq_write (ev_fails ev) (fs_db s) op"
    "\<And>i. rc_get (fs_pending_n ?t) i = rc_get (fs_pending_n s) i - (if i = op_id op then 1 else 0)"
    using fr [OF ok] retire_void_subset [of op s1] retire_clean [of s1 op]
    by (auto simp: same_queue_def complete_op_def retire_pending_n)
  have s': "s' = fst (apply_flow_ops_one_by_one ev ops ?t)"
    using Cons.prems(1,3) by (simp add: s1 split_beta)
  have "same_queue ?t s' \<and> fs_void s' \<subseteq> fs_void ?t \<and>
    (rc_clean (fs_pending_n ?t) \<longrightarrow> rc_clean (fs_pending_n s')) \<and>
    (\<forall>i. rc_get (fs_pending_n s') i = rc_get (fs_pending_n ?t) i - count_list (map op_id ops) i) \<and>
    (fs_void ?t = {} \<longrightarrow> fs_db s' = foldl (seq_write (ev_fails ev)) (fs_db ?t) ops)"
    by (rule Cons.IH) (use Cons.prems t(1) s' in \<open>auto simp: same_queue_def\<close>)
  with t show ?case by (auto simp: same_queue_def)
qed

end
