(* ===== verification/FlowSystem.thy ===== *)
theory FlowSystem
  imports FlowQueue "HOL-Library.Sublist"
begin

text \<open>
  The write-behind queue as a system: any number of producers and the one flusher goroutine, in
  any interleaving. A step is one section of code under \<open>flowMu\<close> or the application of one chunk.
  Two ghost lists record the writes that were queued (\<open>q_acc\<close>) and those the flusher has retired
  (\<open>q_done\<close>); \<open>q_batch\<close> is the flusher's local batch, what is left of it.
\<close>

section \<open>Steps\<close>

record fqueue =
  q_s :: fstore
  q_batch :: "flow_op list"
  q_acc :: "flow_op list"
  q_done :: "flow_op list"

text \<open>The operation that each enqueue function appends, for the ghost list.\<close>

definition insert_op :: "int \<Rightarrow> qflow \<Rightarrow> flow_op" where
  "insert_op i f = \<lparr>op_kind = OpInsert, op_flow = Some (f\<lparr>qf_id := i\<rparr>), op_id = i, op_tags = []\<rparr>"

definition update_op :: "qflow \<Rightarrow> flow_op" where
  "update_op f = \<lparr>op_kind = OpUpdate, op_flow = Some f, op_id = qf_id f, op_tags = []\<rparr>"

definition tags_op :: "int \<Rightarrow> string list \<Rightarrow> flow_op" where
  "tags_op i tags = \<lparr>op_kind = OpAddTags, op_flow = None, op_id = i, op_tags = normalize_tags tags\<rparr>"

definition discards :: "int \<Rightarrow> fstore \<Rightarrow> bool" where
  "discards i s \<longleftrightarrow> i \<in> fs_void s \<and> rc_get (fs_pending_n s) i = 0"

definition fqueue_init :: "flow_db \<Rightarrow> int \<Rightarrow> fqueue" where
  "fqueue_init db n = \<lparr>q_s = fstore_init db n, q_batch = [], q_acc = [], q_done = []\<rparr>"

text \<open>
  \<open>fails\<close> says which writes the database refuses; opening and committing a transaction may fail
  at any chunk.
\<close>

inductive fq_step :: "(flow_op \<Rightarrow> bool) \<Rightarrow> fqueue \<Rightarrow> fqueue \<Rightarrow> bool" for fails where
  enq_insert: "enqueue_insert_flow f (q_s q) = (s, Accepted, i) \<Longrightarrow>
     fq_step fails q (q\<lparr>q_s := s, q_acc := q_acc q @ [insert_op i f]\<rparr>)"
| enq_update: "enqueue_update_flow f (q_s q) = (s, Accepted) \<Longrightarrow>
     fq_step fails q (q\<lparr>q_s := s, q_acc := q_acc q @ (if discards (qf_id f) (q_s q) then [] else [update_op f])\<rparr>)"
| enq_tags: "enqueue_add_flow_tags i tags (q_s q) = (s, Accepted) \<Longrightarrow>
     fq_step fails q (q\<lparr>q_s := s,
       q_acc := q_acc q @ (if i = 0 \<or> normalize_tags tags = [] \<or> discards i (q_s q) then [] else [tags_op i tags])\<rparr>)"
| take: "q_batch q = [] \<Longrightarrow> \<not> fs_give_up (q_s q) \<Longrightarrow> take_batch (q_s q) = (s, batch) \<Longrightarrow>
     fq_step fails q (q\<lparr>q_s := s, q_batch := batch\<rparr>)"
| chunk: "q_batch q \<noteq> [] \<Longrightarrow> \<not> fs_give_up (q_s q) \<Longrightarrow> ev_fails ev = fails \<Longrightarrow>
     apply_flow_batch ev (List.take flow_batch_max (q_batch q)) (q_s q) = (s, err) \<Longrightarrow>
     fq_step fails q (q\<lparr>q_s := s, q_batch := drop flow_batch_max (q_batch q),
                       q_done := q_done q @ List.take flow_batch_max (q_batch q)\<rparr>)"
| idle: "q_batch q = [] \<Longrightarrow> fq_step fails q (q\<lparr>q_s := (q_s q)\<lparr>fs_in_flight := False\<rparr>\<rparr>)"
| close: "fq_step fails q (q\<lparr>q_s := (q_s q)\<lparr>fs_closed := True\<rparr>\<rparr>)"
| give_up: "fs_closed (q_s q) \<Longrightarrow> fq_step fails q (q\<lparr>q_s := (q_s q)\<lparr>fs_give_up := True\<rparr>\<rparr>)"
| abandon: "fs_give_up (q_s q) \<Longrightarrow> fq_step fails q (q\<lparr>q_s := abandon_pending (q_s q)\<rparr>)"
| abandon_rest: "fs_give_up (q_s q) \<Longrightarrow>
     fq_step fails q (q\<lparr>q_s := abandon_ops (q_batch q) (q_s q), q_batch := []\<rparr>)"

inductive fq_reachable :: "(flow_op \<Rightarrow> bool) \<Rightarrow> fqueue \<Rightarrow> fqueue \<Rightarrow> bool" for fails where
  start: "fq_reachable fails q q"
| step: "fq_reachable fails q0 q \<Longrightarrow> fq_step fails q q' \<Longrightarrow> fq_reachable fails q0 q'"

inductive_cases fq_stepE: "fq_step fails q q'"

section \<open>The invariant\<close>

definition op_known :: "int \<Rightarrow> flow_op \<Rightarrow> bool" where
  "op_known n op \<longleftrightarrow> op_ok op \<and> (op_kind op = OpInsert \<longrightarrow> op_id op \<le> n)"

lemma op_known_mono: "op_known n op \<Longrightarrow> n \<le> n' \<Longrightarrow> op_known n' op"
  by (auto simp: op_known_def)

text \<open>
  The counter of an id covers its queued writes; it is their exact number until the flusher gives
  up, because \<open>abandonOps\<close> leaves the counters of the writes it abandons.
\<close>

definition covers :: "bool \<Rightarrow> int list \<Rightarrow> int counts \<Rightarrow> bool" where
  "covers gave_up ids m \<longleftrightarrow>
     rc_clean m \<and> (\<forall>i. count_list ids i \<le> rc_get m i) \<and>
     (gave_up \<or> (\<forall>i. rc_get m i = count_list ids i))"

lemma covers_inc: "covers g xs m \<Longrightarrow> covers g (xs @ [k]) (rc_inc m k)"
  by (auto simp: covers_def rc.get_inc intro!: rc_clean_inc) 

lemma covers_drop: "covers True (xs @ ys) m \<Longrightarrow> covers True ys m"
  by (auto simp: covers_def intro: le_trans [OF le_add2])

lemma covers_sub:
  assumes "covers g (xs @ ys) m" and "rc_clean m'" and "\<And>i. rc_get m' i = rc_get m i - count_list xs i"
  shows "covers g ys m'"
proof -
  have "count_list xs i + count_list ys i \<le> rc_get m i" for i
    using assms(1) by (simp add: covers_def)
  then have "count_list ys i \<le> rc_get m' i" for i
    using assms(3) [of i] by (metis add_le_imp_le_diff add.commute)
  moreover have "g \<or> (\<forall>i. rc_get m' i = count_list ys i)"
    using assms(1,3) by (auto simp: covers_def)
  ultimately show ?thesis using assms(2) by (simp add: covers_def)
qed

lemma covers_dec_mid:
  assumes "covers g (xs @ k # ys) m"
  shows "covers g (xs @ ys) (rc_dec m k)"
proof (rule covers_sub [where xs = "[k]" and m = m])
  have "count_list (xs @ k # ys) i = count_list ([k] @ (xs @ ys)) i" for i by simp
  then show "covers g ([k] @ (xs @ ys)) m" using assms by (simp only: covers_def) simp
  show "rc_clean (rc_dec m k)" using assms by (auto simp: covers_def)
  show "rc_get (rc_dec m k) i = rc_get m i - count_list [k] i" for i by (simp add: rc.get_dec)
qed

definition store_ok :: "flow_op list \<Rightarrow> fstore \<Rightarrow> bool" where
  "store_ok batch s \<longleftrightarrow>
     0 \<le> fs_next_id s \<and> length (fs_pending s) \<le> flow_buf_cap \<and>
     list_all (op_known (fs_next_id s)) (batch @ fs_pending s) \<and>
     covers (fs_give_up s) (map op_id batch @ map op_id (fs_pending s)) (fs_pending_n s) \<and>
     (fs_dropped s = 0 \<longrightarrow> fs_void s = {})"

definition fq_inv :: "(flow_op \<Rightarrow> bool) \<Rightarrow> flow_db \<Rightarrow> fqueue \<Rightarrow> bool" where
  "fq_inv fails db0 q \<longleftrightarrow>
     store_ok (q_batch q) (q_s q) \<and>
     subseq (q_done q @ q_batch q @ fs_pending (q_s q)) (q_acc q) \<and>
     length (q_acc q) = length (q_done q) + length (q_batch q) + length (fs_pending (q_s q)) + fs_dropped (q_s q) \<and>
     (fs_dropped (q_s q) = 0 \<longrightarrow> fs_db (q_s q) = foldl (seq_write fails) db0 (q_done q))"

text \<open>Making room: at most one queued write goes, and it is the oldest.\<close>

lemma drop_oldest_frame [simp]:
  "fs_closed (fst (drop_oldest_flow s)) = fs_closed s"
  "fs_give_up (fst (drop_oldest_flow s)) = fs_give_up s"
  "fs_next_id (fst (drop_oldest_flow s)) = fs_next_id s"
  "fs_db (fst (drop_oldest_flow s)) = fs_db s"
  by (simp_all add: drop_oldest_flow_def finish_flow_pending_def Let_def split: list.splits)

lemma drop_oldest_cases:
  obtains (room) "fst (drop_oldest_flow s) = s" "length (fs_pending s) < flow_buf_cap"
  | (full) op rest where "fs_pending s = op # rest" "flow_buf_cap \<le> length (fs_pending s)"
      "fs_pending (fst (drop_oldest_flow s)) = rest" "fs_dropped (fst (drop_oldest_flow s)) = fs_dropped s + 1"
      "fs_pending_n (fst (drop_oldest_flow s)) = rc_dec (fs_pending_n s) (op_id op)"
proof (cases "fs_pending s")
  case Nil
  then show ?thesis by (intro room) (simp_all add: drop_oldest_flow_def flow_buf_cap_def)
next
  case (Cons op rest)
  show ?thesis
  proof (cases "length (fs_pending s) < flow_buf_cap")
    case True
    with Cons show ?thesis by (intro room) (simp_all add: drop_oldest_flow_def)
  next
    case False
    with Cons show ?thesis
      by (intro full [of op rest]) (simp_all add: drop_oldest_flow_def finish_flow_pending_def Let_def)
  qed
qed

lemma drop_oldest_ok:
  assumes "store_ok batch s"
  shows "store_ok batch (fst (drop_oldest_flow s)) \<and> length (fs_pending (fst (drop_oldest_flow s))) < flow_buf_cap"
proof (cases s rule: drop_oldest_cases)
  case room
  with assms show ?thesis by simp
next
  case (full op rest)
  then show ?thesis
    using assms covers_dec_mid [of "fs_give_up s" "map op_id batch" "op_id op" "map op_id rest" "fs_pending_n s"]
    by (simp add: store_ok_def)
qed

text \<open>Queueing one more write.\<close>

lemma push_ok:
  assumes "store_ok batch s" and "length (fs_pending s) < flow_buf_cap" and "op_known (fs_next_id s) op"
  shows "store_ok batch (push_op op s)"
  using assms covers_inc [of "fs_give_up s" "map op_id batch @ map op_id (fs_pending s)" "fs_pending_n s" "op_id op"]
  by (simp add: store_ok_def push_op_def bump_flow_pending_def)

lemma publish_ok [simp]: "store_ok batch (publish_flow_bodies f s) = store_ok batch s"
  by (simp add: store_ok_def)

lemma note_ok: "store_ok batch s \<Longrightarrow> store_ok batch (note_flow_id i s)"
  unfolding store_ok_def note_flow_id_def using op_known_mono [of "fs_next_id s" _ i]
  by (auto simp: list_all_iff)

lemma alloc_ok: "store_ok batch s \<Longrightarrow> store_ok batch (fst (alloc_flow_id s))"
  unfolding store_ok_def alloc_flow_id_def using op_known_mono [of "fs_next_id s" _ "fs_next_id s + 1"]
  by (auto simp: list_all_iff)

text \<open>What an accepted enqueue did: it made room, then appended one write.\<close>

lemma enqueue_insert_view:
  assumes "enqueue_insert_flow f s = (s', Accepted, i)" and "store_ok batch s"
  shows "\<exists>t. store_ok batch t \<and> length (fs_pending t) < flow_buf_cap \<and> op_known (fs_next_id t) (insert_op i f) \<and>
    fs_pending t = fs_pending (fst (drop_oldest_flow s)) \<and> fs_dropped t = fs_dropped (fst (drop_oldest_flow s)) \<and>
    fs_db t = fs_db s \<and> (\<exists>d. s' = publish_flow_bodies d (push_op (insert_op i f) t))"
proof -
  let ?d = "fst (drop_oldest_flow s)"
  note d = drop_oldest_ok [OF assms(2)]
  let ?t = "if qf_id f = 0 then fst (alloc_flow_id ?d) else note_flow_id (qf_id f) ?d"
  have i: "i = (if qf_id f = 0 then fs_next_id s + 1 else qf_id f)"
    and s': "s' = publish_flow_bodies (snd (drop_oldest_flow s)) (push_op (insert_op i f) ?t)"
    using assms(1)
    by (auto simp: enqueue_insert_flow_def Let_def split_beta alloc_flow_id_def insert_op_def split: if_splits)
  have "0 \<le> fs_next_id s" using assms(2) by (simp add: store_ok_def)
  with i have "op_known (fs_next_id ?t) (insert_op i f)"
    by (auto simp: op_known_def op_ok_def insert_op_def alloc_flow_id_def note_flow_id_def)
  moreover have "store_ok batch ?t"
    using d note_ok alloc_ok by simp
  moreover have "fs_pending ?t = fs_pending ?d" "fs_dropped ?t = fs_dropped ?d" "fs_db ?t = fs_db s"
    by (simp_all add: alloc_flow_id_def note_flow_id_def)
  ultimately show ?thesis using s' d by (intro exI [of _ ?t]) auto
qed

lemma enqueue_update_view:
  assumes "enqueue_update_flow f s = (s', Accepted)" and "store_ok batch s"
  shows "if discards (qf_id f) s then \<exists>d. s' = publish_flow_bodies d s
    else op_known (fs_next_id s) (update_op f) \<and>
      (\<exists>d. s' = publish_flow_bodies d (push_op (update_op f) (fst (drop_oldest_flow s))))"
  using assms
  by (auto simp: enqueue_update_flow_def Let_def split_beta discards_def update_op_def op_known_def op_ok_def
      split: if_splits)

lemma enqueue_tags_view:
  assumes "enqueue_add_flow_tags i tags s = (s', Accepted)" and "store_ok batch s"
  shows "if i = 0 \<or> normalize_tags tags = [] \<or> discards i s then s' = s
    else op_known (fs_next_id s) (tags_op i tags) \<and>
      (\<exists>d. s' = publish_flow_bodies d (push_op (tags_op i tags) (fst (drop_oldest_flow s))))"
  using assms
  by (auto simp: enqueue_add_flow_tags_def Let_def split_beta discards_def tags_op_def op_known_def op_ok_def
      split: if_splits)

lemma push_op_frame [simp]:
  "fs_pending (push_op op s) = fs_pending s @ [op]"
  "fs_dropped (push_op op s) = fs_dropped s" "fs_db (push_op op s) = fs_db s"
  by (simp_all add: push_op_def bump_flow_pending_def)

text \<open>Making room and appending keeps the ghost lists in step.\<close>

lemma subseq_snoc: "subseq (a @ b @ c) acc \<Longrightarrow> subseq (a @ b @ c @ [x]) (acc @ [x])"
  using list_emb_append_mono [of "(=)" "a @ b @ c" acc "[x]" "[x]"] by simp

lemma fq_inv_push:
  assumes "fq_inv fails db0 q" and "store_ok (q_batch q) (push_op op t)"
    and "fs_pending t = fs_pending (fst (drop_oldest_flow (q_s q)))"
    and "fs_dropped t = fs_dropped (fst (drop_oldest_flow (q_s q)))"
    and "fs_db t = fs_db (q_s q)"
  shows "fq_inv fails db0 (q\<lparr>q_s := publish_flow_bodies d (push_op op t), q_acc := q_acc q @ [op]\<rparr>)"
proof (cases "q_s q" rule: drop_oldest_cases)
  case room
  with assms show ?thesis by (auto simp: fq_inv_def subseq_snoc)
next
  case (full op0 rest)
  have "subseq ((q_done q @ q_batch q) @ rest) ((q_done q @ q_batch q) @ op0 # rest)"
    by (intro list_emb_append_mono subseq_order.refl list_emb_Cons)
  then have "subseq (q_done q @ q_batch q @ rest) (q_acc q)"
    using assms(1) full(1) by (auto simp: fq_inv_def intro: subseq_order.trans)
  then have "subseq (q_done q @ q_batch q @ rest @ [op]) (q_acc q @ [op])"
    by (rule subseq_snoc)
  with assms full show ?thesis by (simp add: fq_inv_def)
qed

lemma enqueue_inv:
  assumes "fq_inv fails db0 q" and "op_known (fs_next_id (q_s q)) op"
  shows "fq_inv fails db0 (q\<lparr>q_s := publish_flow_bodies d (push_op op (fst (drop_oldest_flow (q_s q)))),
           q_acc := q_acc q @ [op]\<rparr>)"
proof -
  have "store_ok (q_batch q) (q_s q)" using assms(1) by (simp add: fq_inv_def)
  note d = drop_oldest_ok [OF this]
  have "store_ok (q_batch q) (push_op op (fst (drop_oldest_flow (q_s q))))"
    using d assms(2) by (simp add: push_ok)
  then show ?thesis by (intro fq_inv_push [OF assms(1)]) simp_all
qed

text \<open>A chunk retires the writes it applies and nothing else.\<close>

lemma list_all_drop: "list_all P xs \<Longrightarrow> list_all P (drop n xs)"
  by (auto simp: list_all_iff dest: in_set_dropD)

lemma chunk_inv:
  assumes inv: "fq_inv (ev_fails ev) db0 q" and "\<not> fs_give_up (q_s q)"
    and ap: "apply_flow_batch ev (List.take n (q_batch q)) (q_s q) = (s, err)"
  shows "fq_inv (ev_fails ev) db0 (q\<lparr>q_s := s, q_batch := drop n (q_batch q),
           q_done := q_done q @ List.take n (q_batch q)\<rparr>)"
proof -
  let ?b = "List.take n (q_batch q)" and ?r = "drop n (q_batch q)"
  let ?s = "q_s q"
  have ok: "store_ok (?b @ ?r) ?s" using inv by (simp add: fq_inv_def)
  then have known: "\<forall>op \<in> set ?b. op_ok op \<and> (op_kind op = OpInsert \<longrightarrow> op_id op \<le> fs_next_id ?s)"
    by (auto simp: store_ok_def list_all_iff op_known_def dest: in_set_takeD)
  have cov: "covers False (map op_id ?b @ map op_id ?r @ map op_id (fs_pending ?s)) (fs_pending_n ?s)"
    using ok assms(2) unfolding store_ok_def by (simp only: map_append append_assoc simp_thms)
  then have cnt: "\<forall>i. count_list (map op_id ?b) i \<le> rc_get (fs_pending_n ?s) i"
    by (simp add: covers_def)
  have s: "s = fst (apply_flow_ops_one_by_one ev ?b ?s)"
    using apply_flow_batch_replay [OF assms(2) known cnt] ap by (metis fst_conv)
  note eff = one_by_one_effects [OF assms(2) known s]
  have cov': "covers False (map op_id ?r @ map op_id (fs_pending ?s)) (fs_pending_n s)"
    by (rule covers_sub [OF cov]) (use eff cov in \<open>simp_all add: covers_def\<close>)
  have "store_ok ?r s"
    using ok eff cov' assms(2) list_all_drop [of "op_known (fs_next_id ?s)" "q_batch q" n]
    unfolding store_ok_def same_queue_def by simp blast
  moreover have "fs_db s = foldl (seq_write (ev_fails ev)) db0 (q_done q @ ?b)" if "fs_dropped s = 0"
    using that inv eff ok by (simp add: fq_inv_def same_queue_def store_ok_def)
  moreover have "subseq (q_done q @ ?b @ ?r @ fs_pending ?s) (q_acc q)"
    using inv unfolding fq_inv_def by (metis append.assoc append_take_drop_id)
  moreover have "length (q_batch q) = min (length (q_batch q)) n + (length (q_batch q) - n)" by simp
  ultimately show ?thesis
    using inv eff by (simp add: fq_inv_def same_queue_def)
qed

definition void_op :: "flow_op \<Rightarrow> fstore \<Rightarrow> fstore" where
  "void_op op s =
     (let s = finish_flow_pending (op_id op) s
      in if op_kind op = OpInsert then s\<lparr>fs_void := insert (op_id op) (fs_void s)\<rparr> else s)"

lemma abandon_pending_eq:
  "abandon_pending s = abandon_ops (fs_pending s) (fold void_op (fs_pending s) (s\<lparr>fs_pending := [], fs_in_flight := False\<rparr>))"
  by (simp add: abandon_pending_def void_op_def [abs_def] Let_def)

lemma void_fold:
  "fs_pending (fold void_op ops s) = fs_pending s \<and> fs_dropped (fold void_op ops s) = fs_dropped s \<and>
   fs_give_up (fold void_op ops s) = fs_give_up s \<and> fs_next_id (fold void_op ops s) = fs_next_id s \<and>
   fs_db (fold void_op ops s) = fs_db s \<and>
   (ops = [] \<longrightarrow> fs_void (fold void_op ops s) = fs_void s) \<and>
   (rc_clean (fs_pending_n s) \<longrightarrow> rc_clean (fs_pending_n (fold void_op ops s))) \<and>
   (\<forall>i. rc_get (fs_pending_n (fold void_op ops s)) i = rc_get (fs_pending_n s) i - count_list (map op_id ops) i)"
proof (induction ops arbitrary: s)
  case (Cons op ops)
  have "fs_pending (void_op op s) = fs_pending s" "fs_dropped (void_op op s) = fs_dropped s"
    "fs_give_up (void_op op s) = fs_give_up s" "fs_next_id (void_op op s) = fs_next_id s"
    "fs_db (void_op op s) = fs_db s" "fs_pending_n (void_op op s) = rc_dec (fs_pending_n s) (op_id op)"
    by (simp_all add: void_op_def finish_flow_pending_def Let_def)
  with Cons.IH [of "void_op op s"] show ?case by (auto simp: rc.get_dec)
qed simp

lemma abandon_ops_frame [simp]:
  "fs_pending (abandon_ops b s) = fs_pending s" "fs_pending_n (abandon_ops b s) = fs_pending_n s"
  "fs_void (abandon_ops b s) = fs_void s" "fs_give_up (abandon_ops b s) = fs_give_up s"
  "fs_db (abandon_ops b s) = fs_db s" "fs_dropped (abandon_ops b s) = fs_dropped s + length b"
  by (simp_all add: abandon_ops_def Let_def)

lemma abandon_ops_next [simp]: "fs_next_id (abandon_ops b s) = fs_next_id s"
proof -
  have "fs_next_id (fold (\<lambda>op. publish_flow_bodies (op_flow op)) b s) = fs_next_id s"
    by (induction b arbitrary: s) simp_all
  then show ?thesis by (simp add: abandon_ops_def Let_def)
qed

lemma abandon_inv:
  assumes inv: "fq_inv fails db0 q" and "fs_give_up (q_s q)"
  shows "fq_inv fails db0 (q\<lparr>q_s := abandon_pending (q_s q)\<rparr>)"
proof -
  let ?s = "q_s q"
  let ?t = "fold void_op (fs_pending ?s) (?s\<lparr>fs_pending := [], fs_in_flight := False\<rparr>)"
  note vf = void_fold [of "fs_pending ?s" "?s\<lparr>fs_pending := [], fs_in_flight := False\<rparr>"]
  have ok: "store_ok (q_batch q) ?s" using inv by (simp add: fq_inv_def)
  have "covers True (map op_id (fs_pending ?s) @ map op_id (q_batch q)) (fs_pending_n ?s)"
    using ok assms(2) by (auto simp: store_ok_def covers_def add.commute)
  then have "covers True (map op_id (q_batch q)) (fs_pending_n ?t)"
    by (rule covers_sub) (use vf ok in \<open>simp_all add: store_ok_def covers_def\<close>)
  then have "store_ok (q_batch q) (abandon_ops (fs_pending ?s) ?t)"
    using ok vf assms(2) by (auto simp: store_ok_def)
  moreover have "subseq (q_done q @ q_batch q) (q_done q @ q_batch q @ fs_pending ?s)"
    using list_emb_append2 [of "(=)" "q_done q @ q_batch q" "q_done q @ q_batch q" "fs_pending ?s"] by auto
  ultimately show ?thesis
    using inv vf by (auto simp: fq_inv_def abandon_pending_eq intro: subseq_order.trans)
qed

lemma abandon_rest_inv:
  assumes inv: "fq_inv fails db0 q" and "fs_give_up (q_s q)"
  shows "fq_inv fails db0 (q\<lparr>q_s := abandon_ops (q_batch q) (q_s q), q_batch := []\<rparr>)"
proof -
  let ?s = "q_s q"
  have ok: "store_ok (q_batch q) ?s" using inv by (simp add: fq_inv_def)
  have "covers True (map op_id (fs_pending ?s)) (fs_pending_n ?s)"
    by (rule covers_drop [of "map op_id (q_batch q)"]) (use ok assms(2) in \<open>simp add: store_ok_def\<close>)
  then have "store_ok [] (abandon_ops (q_batch q) ?s)"
    using ok assms(2) by (simp add: store_ok_def)
  moreover have "subseq (q_done q @ fs_pending ?s) (q_done q @ q_batch q @ fs_pending ?s)"
    by (rule list_emb_append_mono) auto
  ultimately show ?thesis
    using inv by (auto simp: fq_inv_def intro: subseq_order.trans)
qed

lemma fq_step_inv: "fq_step fails q q' \<Longrightarrow> fq_inv fails db0 q \<Longrightarrow> fq_inv fails db0 q'"
proof (induction rule: fq_step.induct)
  case (enq_insert f q s i)
  then have "store_ok (q_batch q) (q_s q)" by (simp add: fq_inv_def)
  from enqueue_insert_view [OF enq_insert(1) this] enq_insert(2) show ?case
    using fq_inv_push push_ok by metis
next
  case (enq_update f q s)
  then have ok: "store_ok (q_batch q) (q_s q)" by (simp add: fq_inv_def)
  show ?case
  proof (cases "discards (qf_id f) (q_s q)")
    case True
    then obtain d where "s = publish_flow_bodies d (q_s q)"
      using enqueue_update_view [OF enq_update(1) ok] by auto
    with True enq_update(2) show ?thesis by (simp add: fq_inv_def)
  next
    case False
    then obtain d where "op_known (fs_next_id (q_s q)) (update_op f)"
        "s = publish_flow_bodies d (push_op (update_op f) (fst (drop_oldest_flow (q_s q))))"
      using enqueue_update_view [OF enq_update(1) ok] by auto
    with False enqueue_inv [OF enq_update(2)] show ?thesis by simp
  qed
next
  case (enq_tags i tags q s)
  then have ok: "store_ok (q_batch q) (q_s q)" by (simp add: fq_inv_def)
  show ?case
  proof (cases "i = 0 \<or> normalize_tags tags = [] \<or> discards i (q_s q)")
    case True
    with enqueue_tags_view [OF enq_tags(1) ok] enq_tags(2) show ?thesis by (simp add: fq_inv_def)
  next
    case False
    then obtain d where "op_known (fs_next_id (q_s q)) (tags_op i tags)"
        "s = publish_flow_bodies d (push_op (tags_op i tags) (fst (drop_oldest_flow (q_s q))))"
      using enqueue_tags_view [OF enq_tags(1) ok] by auto
    with False enqueue_inv [OF enq_tags(2)] show ?thesis by simp
  qed
next
  case (take q s batch)
  then show ?case by (auto simp: take_batch_def fq_inv_def store_ok_def)
next
  case (chunk q ev s err)
  then show ?case using chunk_inv by metis
next
  case (abandon q)
  then show ?case by (simp add: abandon_inv)
next
  case (abandon_rest q)
  then show ?case by (simp add: abandon_rest_inv)
next
  case (give_up q)
  then show ?case by (auto simp: fq_inv_def store_ok_def covers_def)
qed (simp_all add: fq_inv_def store_ok_def)

lemma fq_init_inv: "0 \<le> n \<Longrightarrow> fq_inv fails db0 (fqueue_init db0 n)"
  by (simp add: fq_inv_def fqueue_init_def store_ok_def fstore_init_def covers_def rc_clean_def flow_buf_cap_def)

lemma fq_reachable_inv:
  "fq_reachable fails q0 q \<Longrightarrow> fq_inv fails db0 q0 \<Longrightarrow> fq_inv fails db0 q"
  by (induction rule: fq_reachable.induct) (auto intro: fq_step_inv)

section \<open>Draining with nobody else writing\<close>

lemma drain_chunks_inv:
  "fq_inv fails db0 q \<Longrightarrow> \<not> fs_give_up (q_s q) \<Longrightarrow> (\<And>k. ev_fails (evs k) = fails) \<Longrightarrow>
   s' = fst (drain_chunks evs k (q_batch q) (q_s q)) \<Longrightarrow>
   fq_inv fails db0 (q\<lparr>q_s := s', q_batch := [], q_done := q_done q @ q_batch q\<rparr>) \<and>
   fs_pending s' = fs_pending (q_s q) \<and> fs_give_up s' = fs_give_up (q_s q) \<and> fs_closed s' = fs_closed (q_s q) \<and>
   fs_dropped s' = fs_dropped (q_s q)"
proof (induction "length (q_batch q)" arbitrary: q k rule: less_induct)
  case less
  show ?case
  proof (cases "q_batch q = []")
    case True
    with less.prems show ?thesis by (simp add: drain_chunks.simps fq_inv_def)
  next
    case False
    let ?b = "List.take flow_batch_max (q_batch q)" and ?r = "drop flow_batch_max (q_batch q)"
    obtain s1 err where s1: "apply_flow_batch (evs k) ?b (q_s q) = (s1, err)" by (metis prod.collapse)
    let ?q = "q\<lparr>q_s := s1, q_batch := ?r, q_done := q_done q @ ?b\<rparr>"
    have inv1: "fq_inv fails db0 ?q"
      using chunk_inv [of "evs k" db0 q flow_batch_max s1 err] less.prems s1 by simp
    have "same_queue (q_s q) s1"
    proof -
      have ok: "store_ok (q_batch q) (q_s q)" using less.prems(1) by (simp add: fq_inv_def)
      then have known: "\<forall>op \<in> set ?b. op_ok op \<and> (op_kind op = OpInsert \<longrightarrow> op_id op \<le> fs_next_id (q_s q))"
        by (auto simp: store_ok_def list_all_iff op_known_def dest: in_set_takeD)
      have "covers False (map op_id (?b @ ?r) @ map op_id (fs_pending (q_s q))) (fs_pending_n (q_s q))"
        using ok less.prems(2) by (simp add: store_ok_def)
      then have "\<forall>i. count_list (map op_id ?b) i \<le> rc_get (fs_pending_n (q_s q)) i"
        unfolding map_append covers_def by simp
      then show ?thesis
        using apply_flow_batch_replay [OF less.prems(2) known] s1
          one_by_one_effects [OF less.prems(2) known, of s1 "evs k"] by (metis fst_conv)
    qed
    moreover have "s' = fst (drain_chunks evs (Suc k) ?r s1)"
      using less.prems(2,4) False s1 by (simp add: drain_chunks.simps [of evs k] split_beta)
    moreover have "length ?r < length (q_batch q)" using False by (simp add: flow_batch_max_def)
    ultimately show ?thesis
      using less.hyps [of ?q "Suc k"] inv1 less.prems(2,3) by (simp add: same_queue_def)
  qed
qed

lemma drain_once_inv:
  assumes "fq_inv fails db0 q" and "q_batch q = []" and "\<not> fs_give_up (q_s q)"
    and "\<And>k. ev_fails (evs k) = fails" and "s' = fst (drain_once evs (q_s q))"
  shows "fq_inv fails db0 (q\<lparr>q_s := s', q_done := q_done q @ fs_pending (q_s q)\<rparr>) \<and> fs_pending s' = [] \<and>
    fs_give_up s' = fs_give_up (q_s q) \<and> fs_closed s' = fs_closed (q_s q) \<and> fs_dropped s' = fs_dropped (q_s q)"
proof -
  obtain s1 batch where tb: "take_batch (q_s q) = (s1, batch)" by (metis prod.collapse)
  then have b: "batch = fs_pending (q_s q)" "fs_pending s1 = []" "fs_give_up s1 = fs_give_up (q_s q)"
    "fs_closed s1 = fs_closed (q_s q)" "fs_dropped s1 = fs_dropped (q_s q)"
    by (auto simp: take_batch_def)
  have inv1: "fq_inv fails db0 (q\<lparr>q_s := s1, q_batch := batch\<rparr>)"
    using fq_step.take [OF assms(2,3) tb] assms(1) fq_step_inv by blast
  show ?thesis
  proof (cases "batch = []")
    case True
    with assms tb b inv1 show ?thesis by (simp add: drain_once_def fq_inv_def)
  next
    case False
    define s2 where "s2 = fst (drain_chunks evs 0 batch s1)"
    have s': "s' = s2\<lparr>fs_in_flight := False\<rparr>"
      using assms(3,5) tb False by (simp add: drain_once_def split_beta s2_def)
    have "fq_inv fails db0 (q\<lparr>q_s := s2, q_batch := [], q_done := q_done q @ batch\<rparr>) \<and>
      fs_pending s2 = [] \<and> fs_give_up s2 = fs_give_up (q_s q) \<and> fs_closed s2 = fs_closed (q_s q) \<and>
      fs_dropped s2 = fs_dropped (q_s q)"
      using drain_chunks_inv [OF inv1, of evs s2 0] assms(3,4) b by (simp add: s2_def)
    with s' b assms(2) show ?thesis by (auto simp: fq_inv_def store_ok_def)
  qed
qed

lemma flush_flows_inv:
  assumes "fq_inv fails db0 q" and "q_batch q = []" and "\<not> fs_give_up (q_s q)" and "\<not> fs_closed (q_s q)"
    and "\<And>p k. ev_fails (evs p k) = fails" and "s' = flush_flows evs (q_s q)"
  shows "fq_inv fails db0 (q\<lparr>q_s := s', q_done := q_done q @ fs_pending (q_s q)\<rparr>) \<and> fs_pending s' = [] \<and>
    fs_give_up s' = fs_give_up (q_s q) \<and> fs_closed s' = fs_closed (q_s q) \<and> fs_dropped s' = fs_dropped (q_s q)"
proof (cases "fs_pending (q_s q) = []")
  case True
  with assms show ?thesis by (simp add: flush_flows_def numeral_eq_Suc)
next
  case False
  let ?s1 = "fst (drain_once (evs 7) (q_s q))"
  note d = drain_once_inv [OF assms(1,2,3), of "evs 7" ?s1, OF assms(5) refl]
  have "s' = ?s1"
    using assms(3,4,6) False d by (simp add: flush_flows_def numeral_eq_Suc split_beta)
  with d show ?thesis by simp
qed

lemma not_busy_when_empty:
  "store_ok [] s \<Longrightarrow> fs_pending s = [] \<Longrightarrow> \<not> fs_give_up s \<Longrightarrow> \<not> flow_busy_id i s"
  by (simp add: store_ok_def covers_def flow_busy_id_def)

section \<open>A run of the queue\<close>

definition demo_flow :: "string \<Rightarrow> qflow" where
  "demo_flow body = \<lparr>qf_id = 0, qf_ident = ''host'', qf_note = [], qf_fields = [], qf_req_body = body,
     qf_res_body = [], qf_orig_req_body = [], qf_orig_res_body = []\<rparr>"

definition demo_db :: flow_db where
  "demo_db = \<lparr>db_rows = [], db_tags = []\<rparr>"

definition demo_queue :: fqueue where
  "demo_queue = (fqueue_init demo_db 0)
     \<lparr>q_s := fst (enqueue_insert_flow (demo_flow []) (fstore_init demo_db 0)), q_acc := [insert_op 1 (demo_flow [])]\<rparr>"

definition demo_env :: "(flow_op \<Rightarrow> bool) \<Rightarrow> bool \<Rightarrow> flow_env" where
  "demo_env fails ok = \<lparr>ev_begin_ok = ok, ev_commit_ok = ok, ev_fails = fails\<rparr>"

lemma demo_enqueue: "enqueue_insert_flow (demo_flow []) (fstore_init demo_db 0) = (q_s demo_queue, Accepted, 1)"
  by (simp add: demo_queue_def enqueue_insert_flow_def fstore_init_def drop_oldest_flow_def alloc_flow_id_def
      demo_flow_def)

lemma demo_queue_pending: "fs_pending (q_s demo_queue) = [insert_op 1 (demo_flow [])]"
  by (simp add: demo_queue_def enqueue_insert_flow_def fstore_init_def drop_oldest_flow_def alloc_flow_id_def
      demo_flow_def insert_op_def)

lemma demo_queue_flags:
  "fs_dropped (q_s demo_queue) = 0" "\<not> fs_give_up (q_s demo_queue)" "\<not> fs_closed (q_s demo_queue)"
  "q_batch demo_queue = []" "q_done demo_queue = []" "fs_db (q_s demo_queue) = demo_db"
  by (simp_all add: demo_queue_def enqueue_insert_flow_def fstore_init_def drop_oldest_flow_def alloc_flow_id_def
      demo_flow_def fqueue_init_def push_op_def bump_flow_pending_def publish_flow_bodies_def)

lemma demo_queue_reachable: "fq_reachable fails (fqueue_init demo_db 0) demo_queue"
proof -
  have "enqueue_insert_flow (demo_flow []) (q_s (fqueue_init demo_db 0)) = (q_s demo_queue, Accepted, 1)"
    using demo_enqueue by (simp add: fqueue_init_def)
  from fq_step.enq_insert [OF this] have "fq_step fails (fqueue_init demo_db 0) demo_queue"
    by (simp add: demo_queue_def fqueue_init_def)
  then show ?thesis by (rule fq_reachable.step [OF fq_reachable.start])
qed

section \<open>Properties\<close>

lemma one_by_one_cong:
  "ev_fails ev = ev_fails ev' \<Longrightarrow> apply_flow_ops_one_by_one ev ops s = apply_flow_ops_one_by_one ev' ops s"
proof (induction ops arbitrary: s)
  case (Cons op ops)
  then have "apply_flow_op ev op s = apply_flow_op ev' op s" by (simp only: apply_flow_op_def)
  with Cons show ?case by (simp add: split_beta)
qed simp

text \<open>
  (C8) Write-behind is invisible once it has drained. As long as the buffer never overflowed, the
  writes that were queued are exactly those applied, followed by those in flight and those still
  buffered, in the order they were queued; and the database is what writing them one after the
  other at the moment they were queued would have left, whatever chunks and transactions the
  flusher used.
\<close>

theorem write_behind_is_synchronous:
  assumes "fq_reachable fails (fqueue_init db0 n) q" and "0 \<le> n" and "fs_dropped (q_s q) = 0"
  shows "q_acc q = q_done q @ q_batch q @ fs_pending (q_s q) \<and>
         fs_db (q_s q) = foldl (seq_write fails) db0 (q_done q)"
proof -
  have inv: "fq_inv fails db0 q"
    using fq_reachable_inv [OF assms(1) fq_init_inv [OF assms(2)]] .
  then have "subseq (q_done q @ q_batch q @ fs_pending (q_s q)) (q_acc q)"
    "length (q_done q @ q_batch q @ fs_pending (q_s q)) = length (q_acc q)"
    using assms(3) by (simp_all add: fq_inv_def)
  then have "q_acc q = q_done q @ q_batch q @ fs_pending (q_s q)"
    using subseq_same_length by metis
  with inv assms(3) show ?thesis by (simp add: fq_inv_def)
qed

theorem write_behind_is_synchronous_witness: "fs_db (q_s demo_queue) = foldl (seq_write (\<lambda>op. False)) demo_db []"
  using write_behind_is_synchronous [OF demo_queue_reachable] demo_queue_flags by simp

text \<open>
  (C9) A failed transaction costs a pass and nothing else. In every reachable state, applying the
  next chunk leaves the same rows, the same counters, the same protected bodies and the same
  error, whether its transaction commits, cannot be opened, cannot commit or is abandoned at a
  refused write and replayed write by write.
\<close>

theorem batch_equals_replay:
  assumes "fq_reachable fails (fqueue_init db0 n) q" and "0 \<le> n" and "\<not> fs_give_up (q_s q)"
    and "ev_fails ev = ev_fails ev'"
  shows "apply_flow_batch ev (List.take k (q_batch q)) (q_s q) =
         apply_flow_batch ev' (List.take k (q_batch q)) (q_s q)"
proof -
  let ?b = "List.take k (q_batch q)" and ?r = "drop k (q_batch q)"
  have ok: "store_ok (q_batch q) (q_s q)"
    using fq_reachable_inv [OF assms(1) fq_init_inv [OF assms(2)]] by (simp add: fq_inv_def)
  then have known: "\<forall>op \<in> set ?b. op_ok op \<and> (op_kind op = OpInsert \<longrightarrow> op_id op \<le> fs_next_id (q_s q))"
    by (auto simp: store_ok_def list_all_iff op_known_def dest: in_set_takeD)
  have "covers False (map op_id (?b @ ?r) @ map op_id (fs_pending (q_s q))) (fs_pending_n (q_s q))"
    using ok assms(3) by (simp add: store_ok_def)
  then have "\<forall>i. count_list (map op_id ?b) i \<le> rc_get (fs_pending_n (q_s q)) i"
    unfolding map_append covers_def by simp
  then show ?thesis
    using apply_flow_batch_replay [OF assms(3) known] one_by_one_cong [OF assms(4)] by simp
qed

definition demo_taken :: fqueue where
  "demo_taken = demo_queue\<lparr>q_s := fst (take_batch (q_s demo_queue)), q_batch := [insert_op 1 (demo_flow [])]\<rparr>"

lemma demo_taken_reachable: "fq_reachable fails (fqueue_init demo_db 0) demo_taken"
proof -
  have "take_batch (q_s demo_queue) = (fst (take_batch (q_s demo_queue)), [insert_op 1 (demo_flow [])])"
    by (simp add: take_batch_def demo_queue_pending)
  from fq_step.take [OF demo_queue_flags(4,2) this]
  have "fq_step fails demo_queue demo_taken" by (simp add: demo_taken_def)
  then show ?thesis by (rule fq_reachable.step [OF demo_queue_reachable])
qed

theorem batch_equals_replay_witness:
  "apply_flow_batch (demo_env (\<lambda>op. False) True) (q_batch demo_taken) (q_s demo_taken) =
   apply_flow_batch (demo_env (\<lambda>op. False) False) (q_batch demo_taken) (q_s demo_taken)"
proof -
  have "\<not> fs_give_up (q_s demo_taken)"
    using demo_queue_flags by (simp add: demo_taken_def take_batch_def)
  with batch_equals_replay [OF demo_taken_reachable [of "\<lambda>op. False"], of "demo_env (\<lambda>op. False) True"
      "demo_env (\<lambda>op. False) False" 1]
  show ?thesis by (simp add: demo_env_def demo_taken_def)
qed





text \<open>
  Waiting ends. With nobody else writing, \<open>waitFlow\<close> on an open queue returns after at most
  one flush with the id not busy, everything that was buffered applied and nothing dropped,
  whatever transactions fail on the way.
\<close>

theorem wait_flow_drains:
  assumes "fq_reachable fails (fqueue_init db0 n) q" and "0 \<le> n" and "q_batch q = []"
    and "\<not> fs_give_up (q_s q)" and "\<not> fs_closed (q_s q)" and "\<And>p k. ev_fails (evs p k) = fails"
    and "i \<noteq> 0" and "fs_dropped (q_s q) = 0"
  shows "\<not> flow_busy_id i (wait_flow evs i (q_s q)) \<and>
         (flow_busy_id i (q_s q) \<longrightarrow>
            fs_db (wait_flow evs i (q_s q)) = foldl (seq_write fails) (fs_db (q_s q)) (fs_pending (q_s q)))"
proof (cases "flow_busy_id i (q_s q)")
  case False
  with assms(7) show ?thesis by (simp add: wait_flow_def numeral_eq_Suc)
next
  case True
  have inv: "fq_inv fails db0 q" using fq_reachable_inv [OF assms(1) fq_init_inv [OF assms(2)]] .
  let ?s = "flush_flows evs (q_s q)"
  note fl = flush_flows_inv [OF inv assms(3,4,5), of evs ?s, OF assms(6) refl]
  then have "store_ok [] ?s" using assms(3) by (simp add: fq_inv_def)
  then have nb: "\<not> flow_busy_id i ?s" using fl assms(4) not_busy_when_empty by blast
  have "wait_flow evs i (q_s q) = ?s"
    using True nb assms(5,7) by (simp add: wait_flow_def numeral_eq_Suc)
  moreover have "fs_db ?s = foldl (seq_write fails) (fs_db (q_s q)) (fs_pending (q_s q))"
    using fl inv assms(8) by (simp add: fq_inv_def)
  ultimately show ?thesis using nb by simp
qed

theorem wait_flow_drains_witness:
  "\<not> flow_busy_id 1 (wait_flow (\<lambda>p k. demo_env (\<lambda>op. False) False) 1 (q_s demo_queue))"
proof -
  have "ev_fails (demo_env (\<lambda>op. False) False) = (\<lambda>op. False)" by (simp add: demo_env_def)
  with wait_flow_drains [OF demo_queue_reachable [of "\<lambda>op. False"], of "\<lambda>p k. demo_env (\<lambda>op. False) False" 1]
    demo_queue_flags
  show ?thesis by simp
qed

text \<open>
  The protection of captured bodies is counted per capture but released per write. Two flows with
  the same request body protect it twice; the insert and the update of the first flow release it
  twice, so the body of the second flow, still queued, is no longer protected.
\<close>

lemma protection_released_early:
  "rc_get (fs_bodies
     (complete_ops
        [\<lparr>op_kind = OpInsert, op_flow = Some (demo_flow ''ab''), op_id = 1, op_tags = []\<rparr>,
         \<lparr>op_kind = OpUpdate, op_flow = Some (demo_flow ''ab''), op_id = 1, op_tags = []\<rparr>]
        (the (protect_pending ''ab'' (the (protect_pending ''ab'' (fstore_init demo_db 0))))))) ''ab'' = 0"
proof -
  have "the (protect_pending ''ab'' (the (protect_pending ''ab'' (fstore_init demo_db 0)))) =
      (fstore_init demo_db 0)\<lparr>fs_bodies := [''ab'' \<mapsto> 2]\<rparr>"
    by (simp add: protect_pending_def fstore_init_def rc_get_def rc_inc_def max_pending_bodies_def
        numeral_2_eq_2)
  then show ?thesis
    by (simp add: complete_ops_def publish_flow_bodies_def publish_bodies_def flow_bodies_def demo_flow_def
        release_pending_body_def retire_op_def finish_flow_pending_def fstore_init_def rc_get_def rc_dec_def Let_def)
qed

text \<open>
  The writes that \<open>drainOnce\<close> abandons when the flusher gives up keep their counters, so their
  ids stay busy.
\<close>

lemma abandoned_ids_stay_busy: "flow_busy_id i (abandon_ops batch s) = flow_busy_id i s"
  by (simp add: flow_busy_id_def)

end
