(* ===== verification/Guard.thy ===== *)
theory Guard
  imports Allowlist Http
begin

text \<open>
  Model of the control plane's front door: \<open>securityGuard\<close> (\<open>internal/control/guard.go\<close>), the
  client address it allowlists (\<open>clientip.go\<close>), the login rate limiter (\<open>auth.go\<close>) and the API
  keys (\<open>internal/store/apikeys.go\<close>). A request is what \<open>net/http\<close> has parsed of it. The hash
  \<open>sha\<close>, the random token of a new key, the time \<open>now\<close>, \<open>url.Parse\<close> and the trusted proxy hosts
  of the environment are arguments. \<open>au_readable\<close> says whether the key database can be read.
\<close>

section \<open>API keys\<close>

record api_key =
  ak_id :: int
  ak_hash :: string
  ak_scope :: string
  ak_expires :: int

record auth_store =
  au_keys :: "api_key list"
  au_last_id :: int
  au_armed :: bool
  au_readable :: bool
  au_mcp_seen :: bool
  au_allow :: allow_store

definition scope_full :: string where "scope_full = ''full''"
definition scope_read :: string where "scope_read = ''read''"

definition normalize_scope :: "string \<Rightarrow> string" where
  "normalize_scope s = (if s = scope_read then scope_read else scope_full)"

text \<open>The hash column is unique: a second key with the same hash is an error.\<close>

definition create_api_key ::
    "(string \<Rightarrow> string) \<Rightarrow> string \<Rightarrow> string \<Rightarrow> int \<Rightarrow> auth_store \<Rightarrow> auth_store option" where
  "create_api_key sha token scope expires s =
     (if sha token \<in> set (map ak_hash (au_keys s)) then None else Some (s\<lparr>au_keys := au_keys s @ [\<lparr>ak_id = au_last_id s + 1, ak_hash = sha token,
                                ak_scope = normalize_scope scope,
                                ak_expires = (if expires < 0 then 0 else expires)\<rparr>],
       au_last_id := au_last_id s + 1, au_armed := True\<rparr>))"

definition delete_api_key :: "int \<Rightarrow> auth_store \<Rightarrow> auth_store" where
  "delete_api_key i s = s\<lparr>au_armed := True, au_keys := filter (\<lambda>k. ak_id k \<noteq> i) (au_keys s)\<rparr>"

definition api_key_auth_required :: "auth_store \<Rightarrow> bool option" where
  "api_key_auth_required s = (if au_readable s then Some (au_armed s) else None)"

text \<open>\<open>VerifyAPIKeyScope\<close>: the scope of a valid key.\<close>

definition verify_api_key_scope ::
    "(string \<Rightarrow> string) \<Rightarrow> int \<Rightarrow> auth_store \<Rightarrow> string \<Rightarrow> string option" where
  "verify_api_key_scope sha now s token =
     (if token = [] \<or> \<not> au_readable s then None
      else case List.find (\<lambda>k. ak_hash k = sha token) (au_keys s) of
             None \<Rightarrow> None
           | Some k \<Rightarrow>
               if ak_expires k \<noteq> 0 \<and> ak_expires k \<le> now then None
               else Some (normalize_scope (ak_scope k)))"

definition verify_api_key :: "(string \<Rightarrow> string) \<Rightarrow> int \<Rightarrow> auth_store \<Rightarrow> string \<Rightarrow> bool" where
  "verify_api_key sha now s token \<longleftrightarrow> verify_api_key_scope sha now s token \<noteq> None"

section \<open>Requests\<close>

record guard_req =
  gr_method :: string
  gr_path :: string
  gr_host :: string
  gr_remote :: string
  gr_local :: "string option"
  gr_header :: header
  gr_cookie :: "string option"
  gr_query :: "string \<Rightarrow> string"

definition bearer_prefix :: string where
  "bearer_prefix = ''Bearer ''"

definition bearer_token :: "guard_req \<Rightarrow> string" where
  "bearer_token r =
     (let v = header_get (gr_header r) ''Authorization''
      in if length v \<ge> length bearer_prefix \<and> equal_fold (take (length bearer_prefix) v) bearer_prefix
         then trim_space (drop (length bearer_prefix) v) else [])"

datatype auth_via = ViaBearer | ViaCookie | ViaQuery | ViaNone

definition auth_token :: "guard_req \<Rightarrow> string \<times> auth_via" where
  "auth_token r =
     (if bearer_token r \<noteq> [] then (bearer_token r, ViaBearer)
      else case gr_cookie r of
             Some (c # cs) \<Rightarrow> (c # cs, ViaCookie)
           | _ \<Rightarrow> if gr_query r ''token'' \<noteq> [] then (gr_query r ''token'', ViaQuery) else ([], ViaNone))"

definition csrf_header_ok :: "guard_req \<Rightarrow> bool" where
  "csrf_header_ok r \<longleftrightarrow>
     header_get (gr_header r) ''X-Interseptor-CSRF'' = ''1'' \<or>
     header_get (gr_header r) ''X-Interceptor-CSRF'' = ''1''"

definition is_mutating_method :: "string \<Rightarrow> bool" where
  "is_mutating_method m \<longleftrightarrow> m \<notin> {''GET'', ''HEAD'', ''OPTIONS''}"

definition requires_full_scope :: "guard_req \<Rightarrow> bool" where
  "requires_full_scope r \<longleftrightarrow>
     gr_method r = ''GET'' \<and> gr_path r = ''/api/ios/ssh/status'' \<and> trim_space (gr_query r ''host'') \<noteq> []"

definition wants_html :: "guard_req \<Rightarrow> bool" where
  "wants_html r = str_contains (header_get (gr_header r) ''Accept'') ''text/html''"

section \<open>Loopback and origins\<close>

definition unbracket :: "string \<Rightarrow> string" where
  "unbracket h = trim_prefix (trim_suffix h '']'') ''[''"

definition parses_loopback :: "string \<Rightarrow> bool" where
  "parses_loopback h = (case parse_ip h of None \<Rightarrow> False | Some ip \<Rightarrow> ip_is_loopback ip)"

definition is_loopback_host :: "string \<Rightarrow> bool" where
  "is_loopback_host host =
     (if host = [] then False
      else
        let h = unbracket (case split_host_port host of Some (h, p) \<Rightarrow> h | None \<Rightarrow> host)
        in equal_fold h ''localhost'' \<or> parses_loopback h)"

definition is_loopback_addr :: "string \<Rightarrow> bool" where
  "is_loopback_addr a = parses_loopback (case split_host_port a of Some (h, p) \<Rightarrow> h | None \<Rightarrow> a)"

definition scheme_port :: "string \<Rightarrow> string" where
  "scheme_port scheme = (if equal_fold scheme ''https'' then ''443'' else ''80'')"

definition origin_port :: "url \<Rightarrow> string" where
  "origin_port u = (if url_port u \<noteq> [] then url_port u else scheme_port (url_scheme u))"

definition host_port :: "string \<Rightarrow> string \<Rightarrow> string" where
  "host_port host scheme =
     (case split_host_port host of
        Some (h, p) \<Rightarrow> if p \<noteq> [] then p else scheme_port scheme
      | None \<Rightarrow> scheme_port scheme)"

definition is_loopback_origin :: "url_parser \<Rightarrow> string \<Rightarrow> string \<Rightarrow> bool" where
  "is_loopback_origin up origin host =
     (case up origin of
        None \<Rightarrow> False
      | Some u \<Rightarrow>
          if url_host u = [] \<or> \<not> is_loopback_host (url_host u) then False
          else origin_port u = host_port host (url_scheme u))"

definition same_host_origin :: "url_parser \<Rightarrow> string \<Rightarrow> string \<Rightarrow> bool" where
  "same_host_origin up origin host =
     (case up origin of
        None \<Rightarrow> False
      | Some u \<Rightarrow>
          if url_host u = [] then False
          else equal_fold (url_hostname u) (case split_host_port host of Some (h, p) \<Rightarrow> h | None \<Rightarrow> host))"

section \<open>The client address\<close>

definition remote_ip :: "guard_req \<Rightarrow> string" where
  "remote_ip r =
     (case last_byte_index CHR '':'' (gr_remote r) of
        Some i \<Rightarrow> if i > 0 then take i (gr_remote r) else gr_remote r
      | None \<Rightarrow> gr_remote r)"

definition host_only_ip :: "string \<Rightarrow> string" where
  "host_only_ip s =
     (let s = trim_space s
      in if s = [] then []
         else
           let s = unbracket (case split_host_port s of Some (h, p) \<Rightarrow> h | None \<Rightarrow> s)
           in if parse_ip s = None then [] else s)"

definition is_loopback_ip_string :: "string \<Rightarrow> bool" where
  "is_loopback_ip_string s = parses_loopback (unbracket s)"

definition trusted_forward_host :: "string \<Rightarrow> string \<Rightarrow> bool" where
  "trusted_forward_host trusted host =
     (if is_loopback_host host then True
      else
        let host = (case split_host_port host of Some (h, p) \<Rightarrow> h | None \<Rightarrow> host);
            host = trim_suffix (to_lower host) ''.''
        in if host = [] then False
           else if has_suffix host ''.ts.net'' \<or> has_suffix host ''.trycloudflare.com'' then True
           else list_ex (\<lambda>h. let h = trim_suffix (to_lower (trim_space h)) ''.'' in h \<noteq> [] \<and> h = host)
                  (split_byte CHR '','' trusted))"

definition forwarded_ip :: "string \<Rightarrow> string" where
  "forwarded_ip v = (if v = [] then [] else host_only_ip v)"

definition client_ip :: "string \<Rightarrow> guard_req \<Rightarrow> string" where
  "client_ip trusted r =
     (let peer = remote_ip r
      in if is_loopback_ip_string peer \<and> trusted_forward_host trusted (gr_host r) then
           let cf = forwarded_ip (trim_space (header_get (gr_header r) ''CF-Connecting-IP''));
               v = trim_space (header_get (gr_header r) ''X-Forwarded-For'');
               xff = (if v = [] then []
                      else host_only_ip (trim_space
                             (case byte_index CHR '','' v of Some i \<Rightarrow> take i v | None \<Rightarrow> v)));
               rip = forwarded_ip (trim_space (header_get (gr_header r) ''X-Real-IP''))
           in if cf \<noteq> [] then cf else if xff \<noteq> [] then xff else if rip \<noteq> [] then rip else peer
         else peer)"

section \<open>The guard\<close>

definition max_request_body :: nat where "max_request_body = 128 * 2 ^ 20"
definition max_archive_bytes :: nat where "max_archive_bytes = 4 * 2 ^ 30"

definition control_request_body_limit :: "string \<Rightarrow> nat" where
  "control_request_body_limit path =
     (if path \<in> {''/api/import/full'', ''/api/merge/file'', ''/api/packs/install''}
      then max_archive_bytes else max_request_body)"

datatype guard_outcome =
    NextPublic
  | NextPreAuth nat
  | NextScoped string nat
  | Forbidden
  | Unauthorized
  | LoginRedirect

definition mcp_authorized ::
    "(string \<Rightarrow> string) \<Rightarrow> int \<Rightarrow> guard_req \<Rightarrow> auth_store \<Rightarrow> auth_store \<times> bool" where
  "mcp_authorized sha now r s =
     (let (s, required) =
        (case api_key_auth_required s of
           None \<Rightarrow> (s, au_mcp_seen s)
         | Some req \<Rightarrow> (s\<lparr>au_mcp_seen := req\<rparr>, req))
      in if \<not> required then (s, True)
         else if bearer_token r = [] then (s, False)
         else (s, verify_api_key sha now s (bearer_token r)))"

definition cross_origin :: "(string \<Rightarrow> string \<Rightarrow> bool) \<Rightarrow> guard_req \<Rightarrow> bool" where
  "cross_origin ok r \<longleftrightarrow>
     (let origin = header_get (gr_header r) ''Origin'' in origin \<noteq> [] \<and> \<not> ok origin (gr_host r))"

definition key_branch :: "url_parser \<Rightarrow> string \<Rightarrow> auth_via \<Rightarrow> guard_req \<Rightarrow> guard_outcome" where
  "key_branch up scope via r =
     (if requires_full_scope r \<and> scope \<noteq> scope_full then Forbidden
      else if is_mutating_method (gr_method r) \<and> scope = scope_read then Forbidden
      else if is_mutating_method (gr_method r) \<and> via = ViaCookie \<and> \<not> csrf_header_ok r then Forbidden
      else if is_mutating_method (gr_method r) \<and> via = ViaCookie \<and> cross_origin (same_host_origin up) r
        then Forbidden
      else if gr_path r = ''/mcp'' \<and> scope \<noteq> scope_full then Forbidden
      else if via = ViaQuery \<and> gr_path r \<noteq> ''/api/events'' then Forbidden
      else NextScoped scope (control_request_body_limit (gr_path r)))"

definition loopback_conn :: "guard_req \<Rightarrow> bool" where
  "loopback_conn r = (case gr_local r of None \<Rightarrow> True | Some a \<Rightarrow> is_loopback_addr a)"

definition loopback_branch ::
    "(string \<Rightarrow> string) \<Rightarrow> url_parser \<Rightarrow> int \<Rightarrow> guard_req \<Rightarrow> auth_store \<Rightarrow> auth_store \<times> guard_outcome" where
  "loopback_branch sha up now r s =
     (if cross_origin (is_loopback_origin up) r then (s, Forbidden)
      else
        let (s, ok) = (if gr_path r = ''/mcp'' then mcp_authorized sha now r s else (s, True))
        in if \<not> ok then (s, Unauthorized)
           else (s, NextScoped scope_full (control_request_body_limit (gr_path r))))"

definition allowlist_branch :: "url_parser \<Rightarrow> guard_req \<Rightarrow> guard_outcome" where
  "allowlist_branch up r =
     (if gr_path r = ''/mcp'' then Unauthorized
      else if is_mutating_method (gr_method r) \<and> cross_origin (same_host_origin up) r then Forbidden
      else NextScoped scope_full (control_request_body_limit (gr_path r)))"

definition pre_auth_paths :: "string set" where
  "pre_auth_paths = {''/login'', ''/api/session/auth'', ''/api/session/logout''}"

definition security_guard ::
    "(string \<Rightarrow> string) \<Rightarrow> url_parser \<Rightarrow> string \<Rightarrow> int \<Rightarrow> guard_req \<Rightarrow> auth_store \<Rightarrow>
     auth_store \<times> guard_outcome" where
  "security_guard sha up trusted now r s =
     (if has_prefix (gr_path r) ''/oob/'' then (s, NextPublic)
      else if gr_path r \<in> pre_auth_paths then (s, NextPreAuth (64 * 2 ^ 10))
      else
        let (tok, via) = auth_token r
        in case (if tok = [] then None else verify_api_key_scope sha now s tok) of
             Some scope \<Rightarrow> (s, key_branch up scope via r)
           | None \<Rightarrow>
               if loopback_conn r \<and> is_loopback_host (gr_host r) then loopback_branch sha up now r s
               else
                 let (al, hit) = allowlist_match (au_allow s) (client_ip trusted r); s = s\<lparr>au_allow := al\<rparr>
                 in if hit then (s, allowlist_branch up r)
                    else if tok = [] \<and> wants_html r then (s, LoginRedirect)
                    else (s, Unauthorized))"

definition reaches_handler :: "guard_outcome \<Rightarrow> bool" where
  "reaches_handler out \<longleftrightarrow> (\<exists>scope lim. out = NextScoped scope lim)"

section \<open>The login rate limiter\<close>

record rl_entry =
  rl_count :: nat
  rl_reset :: int

definition rl_allow :: "string \<Rightarrow> int \<Rightarrow> (string \<rightharpoonup> rl_entry) \<Rightarrow> (string \<rightharpoonup> rl_entry) \<times> bool" where
  "rl_allow ip now w =
     (case w ip of
        None \<Rightarrow>
          (let w = w(ip \<mapsto> \<lparr>rl_count = 1, rl_reset = now + 60000\<rparr>)
           in (\<lambda>k. case w k of None \<Rightarrow> None | Some v \<Rightarrow> if now \<ge> rl_reset v then None else Some v, True))
      | Some e \<Rightarrow>
          if now \<ge> rl_reset e then
            (let w = w(ip \<mapsto> \<lparr>rl_count = 1, rl_reset = now + 60000\<rparr>)
             in (\<lambda>k. case w k of None \<Rightarrow> None | Some v \<Rightarrow> if now \<ge> rl_reset v then None else Some v, True))
          else if rl_count e \<ge> 10 then (w, False)
          else (w(ip \<mapsto> e\<lparr>rl_count := rl_count e + 1\<rparr>), True))"

fun rl_session :: "(string \<times> int) list \<Rightarrow> (string \<rightharpoonup> rl_entry) \<Rightarrow> bool list" where
  "rl_session [] w = []"
| "rl_session ((ip, now) # rest) w =
     (let (w, ok) = rl_allow ip now w in ok # rl_session rest w)"

section \<open>Lemmas\<close>

lemma key_branch_next:
  "key_branch up scope via r = NextScoped sc lim \<longleftrightarrow>
     sc = scope \<and> lim = control_request_body_limit (gr_path r) \<and>
     (requires_full_scope r \<longrightarrow> scope = scope_full) \<and>
     (is_mutating_method (gr_method r) \<longrightarrow> scope \<noteq> scope_read \<and>
        (via = ViaCookie \<longrightarrow> csrf_header_ok r \<and> \<not> cross_origin (same_host_origin up) r)) \<and>
     (gr_path r = ''/mcp'' \<longrightarrow> scope = scope_full) \<and> (via = ViaQuery \<longrightarrow> gr_path r = ''/api/events'')"
  by (auto simp: key_branch_def)

lemma mcp_authorized_ok:
  "snd (mcp_authorized sha now r s) \<longleftrightarrow>
     (if au_readable s then \<not> au_armed s else \<not> au_mcp_seen s) \<or> verify_api_key sha now s (bearer_token r)"
  by (auto simp: mcp_authorized_def api_key_auth_required_def verify_api_key_def verify_api_key_scope_def
      Let_def split: option.splits)

lemma loopback_branch_next:
  "snd (loopback_branch sha up now r s) = NextScoped sc lim \<longleftrightarrow>
     sc = scope_full \<and> lim = control_request_body_limit (gr_path r) \<and>
     \<not> cross_origin (is_loopback_origin up) r \<and>
     (gr_path r = ''/mcp'' \<longrightarrow> snd (mcp_authorized sha now r s))"
  by (auto simp: loopback_branch_def split_beta)

lemma allowlist_branch_next:
  "allowlist_branch up r = NextScoped sc lim \<longleftrightarrow>
     sc = scope_full \<and> lim = control_request_body_limit (gr_path r) \<and> gr_path r \<noteq> ''/mcp'' \<and>
     (is_mutating_method (gr_method r) \<longrightarrow> \<not> cross_origin (same_host_origin up) r)"
  by (auto simp: allowlist_branch_def)

definition key_scope :: "(string \<Rightarrow> string) \<Rightarrow> int \<Rightarrow> auth_store \<Rightarrow> guard_req \<Rightarrow> string option" where
  "key_scope sha now s r = verify_api_key_scope sha now s (fst (auth_token r))"

lemma guarded_cases:
  assumes "snd (security_guard sha up trusted now r s) = NextScoped sc lim"
  obtains (key) scope where "key_scope sha now s r = Some scope" "key_branch up scope (snd (auth_token r)) r = NextScoped sc lim"
  | (loopback) "key_scope sha now s r = None" "loopback_conn r" "is_loopback_host (gr_host r)"
      "snd (loopback_branch sha up now r s) = NextScoped sc lim"
  | (allowlisted) "key_scope sha now s r = None" "snd (allowlist_match (au_allow s) (client_ip trusted r))"
      "allowlist_branch up r = NextScoped sc lim"
proof -
  obtain tok via where tv: "auth_token r = (tok, via)" by (metis prod.collapse)
  have k: "(if tok = [] then None else verify_api_key_scope sha now s tok) = key_scope sha now s r"
    by (simp add: key_scope_def tv verify_api_key_scope_def)
  show ?thesis
  proof (cases "key_scope sha now s r")
    case (Some scope)
    with assms key tv k show ?thesis
      by (auto simp: security_guard_def split: if_splits)
  next
    case None
    show ?thesis
    proof (cases "loopback_conn r \<and> is_loopback_host (gr_host r)")
      case True
      with assms None loopback tv k show ?thesis by (auto simp: security_guard_def split: if_splits)
    next
      case False
      with assms None allowlisted tv k show ?thesis
        by (auto simp: security_guard_def Let_def split_beta split: if_splits)
    qed
  qed
qed

section \<open>Properties\<close>

definition demo_auth :: "bool \<Rightarrow> auth_store" where
  "demo_auth readable =
     \<lparr>au_keys = [\<lparr>ak_id = 1, ak_hash = ''h-read'', ak_scope = ''read'', ak_expires = 0\<rparr>], au_last_id = 1,
      au_armed = True, au_readable = readable, au_mcp_seen = True, au_allow = allow_init demo_rows\<rparr>"

definition demo_sha :: "string \<Rightarrow> string" where
  "demo_sha t = ''h-'' @ t"

definition demo_guard_req :: "string \<Rightarrow> string \<Rightarrow> string \<Rightarrow> header \<Rightarrow> guard_req" where
  "demo_guard_req m path host h =
     \<lparr>gr_method = m, gr_path = path, gr_host = host, gr_remote = ''127.0.0.1:5000'', gr_local = Some ''127.0.0.1:9966'',
      gr_header = h, gr_cookie = None, gr_query = (\<lambda>k. [])\<rparr>"

text \<open>
  (C10) Nobody reaches the control plane by accident. A request is handed to a scoped handler only
  if it presents a key that verifies, or it arrived on a loopback connection naming a loopback
  host, with no Origin or a loopback Origin on the same port, or its client address is on the
  allowlist, the path is not the MCP endpoint, and a state change has no foreign Origin.
\<close>

theorem guard_admits_only_trusted:
  assumes "snd (security_guard sha up trusted now r s) = NextScoped sc lim"
  shows "(\<exists>scope. verify_api_key_scope sha now s (fst (auth_token r)) = Some scope \<and> sc = scope) \<or>
         (loopback_conn r \<and> is_loopback_host (gr_host r) \<and> \<not> cross_origin (is_loopback_origin up) r) \<or>
         (snd (allowlist_match (au_allow s) (client_ip trusted r)) \<and> gr_path r \<noteq> ''/mcp'' \<and>
            (is_mutating_method (gr_method r) \<longrightarrow> \<not> cross_origin (same_host_origin up) r))"
  using assms
proof (cases rule: guarded_cases)
  case (key scope)
  then show ?thesis by (simp add: key_scope_def key_branch_next)
next
  case loopback
  then show ?thesis by (simp add: loopback_branch_next)
next
  case allowlisted
  then show ?thesis by (simp add: allowlist_branch_next)
qed

lemma demo_guard_local:
  "snd (security_guard demo_sha (\<lambda>s. None) [] 0 (demo_guard_req ''GET'' ''/api/flows'' ''127.0.0.1:9966'' [])
     (demo_auth True)) = NextScoped ''full'' max_request_body"
proof -
  have "loopback_conn (demo_guard_req ''GET'' ''/api/flows'' ''127.0.0.1:9966'' [])" by code_simp
  moreover have "is_loopback_host ''127.0.0.1:9966''" by code_simp
  ultimately show ?thesis
    by (simp add: security_guard_def demo_guard_req_def auth_token_def bearer_token_def bearer_prefix_def
        header_get_def header_values_def loopback_branch_def cross_origin_def pre_auth_paths_def scope_full_def
        control_request_body_limit_def)
qed

theorem guard_admits_only_trusted_witness:
  "loopback_conn (demo_guard_req ''GET'' ''/api/flows'' ''127.0.0.1:9966'' [])"
proof -
  have "verify_api_key_scope demo_sha 0 (demo_auth True)
      (fst (auth_token (demo_guard_req ''GET'' ''/api/flows'' ''127.0.0.1:9966'' []))) = None" by code_simp
  moreover have "\<not> snd (allowlist_match (au_allow (demo_auth True))
      (client_ip [] (demo_guard_req ''GET'' ''/api/flows'' ''127.0.0.1:9966'' [])))" by code_simp
  ultimately show ?thesis using guard_admits_only_trusted [OF demo_guard_local] by auto
qed

text \<open>
  (C11) A read-only key observes and nothing more: whoever presents a valid read-only key, from
  wherever, reaches a handler only with GET, HEAD or OPTIONS, outside the MCP endpoint, with the
  read scope attached; and a token in the URL reaches only the event stream.
\<close>

theorem read_key_never_mutates:
  assumes "verify_api_key_scope sha now s (fst (auth_token r)) = Some scope_read"
    and "snd (security_guard sha up trusted now r s) = NextScoped sc lim"
  shows "sc = scope_read \<and> gr_method r \<in> {''GET'', ''HEAD'', ''OPTIONS''} \<and> gr_path r \<noteq> ''/mcp'' \<and>
         \<not> requires_full_scope r \<and> (snd (auth_token r) = ViaQuery \<longrightarrow> gr_path r = ''/api/events'')"
  using assms(2)
proof (cases rule: guarded_cases)
  case (key scope)
  with assms(1) have "scope = scope_read" by (simp add: key_scope_def)
  with key(2) show ?thesis
    by (auto simp: key_branch_next is_mutating_method_def scope_full_def scope_read_def)
qed (use assms(1) in \<open>simp_all add: key_scope_def\<close>)

theorem read_key_never_mutates_witness:
  "gr_method (demo_guard_req ''GET'' ''/api/flows'' ''evil.test'' [(''Authorization'', [''Bearer read''])])
     \<in> {''GET'', ''HEAD'', ''OPTIONS''}"
proof -
  let ?r = "demo_guard_req ''GET'' ''/api/flows'' ''evil.test'' [(''Authorization'', [''Bearer read''])]"
  have a: "auth_token ?r = (''read'', ViaBearer)" by code_simp
  have v: "verify_api_key_scope demo_sha 0 (demo_auth True) ''read'' = Some scope_read" by code_simp
  have "key_branch (\<lambda>s. None) scope_read ViaBearer ?r = NextScoped scope_read max_request_body"
    unfolding key_branch_next
    by (simp add: demo_guard_req_def control_request_body_limit_def requires_full_scope_def is_mutating_method_def)
  then have "snd (security_guard demo_sha (\<lambda>s. None) [] 0 ?r (demo_auth True)) = NextScoped scope_read max_request_body"
    using a v by (simp add: security_guard_def pre_auth_paths_def) (simp add: demo_guard_req_def)
  then show ?thesis using read_key_never_mutates v a by (metis fst_conv)
qed

text \<open>
  The MCP endpoint fails closed. A request reaches it only with a valid full-access key, or
  locally and then, once a key was ever created, only with a valid bearer token; and when the key
  database cannot be read after that, nobody reaches it.
\<close>

theorem mcp_endpoint_guarded:
  assumes "snd (security_guard sha up trusted now r s) = NextScoped sc lim" and "gr_path r = ''/mcp''"
  shows "sc = scope_full \<and>
         (verify_api_key_scope sha now s (fst (auth_token r)) = Some scope_full \<or>
          (loopback_conn r \<and> is_loopback_host (gr_host r) \<and>
             ((if au_readable s then \<not> au_armed s else \<not> au_mcp_seen s) \<or>
              verify_api_key sha now s (bearer_token r)))) \<and>
         (au_readable s \<or> \<not> au_mcp_seen s)"
  using assms(1)
proof (cases rule: guarded_cases)
  case (key scope)
  then have "scope = scope_full \<and> sc = scope_full" using assms(2) by (simp add: key_branch_next)
  with key show ?thesis by (auto simp: key_scope_def verify_api_key_scope_def)
next
  case loopback
  then show ?thesis using assms(2)
    by (auto simp: loopback_branch_next mcp_authorized_ok verify_api_key_def verify_api_key_scope_def split: if_splits)
next
  case allowlisted
  then show ?thesis using assms(2) by (simp add: allowlist_branch_next)
qed

theorem mcp_endpoint_guarded_witness:
  "\<not> au_armed ((demo_auth True)\<lparr>au_keys := [], au_armed := False\<rparr>)"
proof -
  let ?s = "(demo_auth True)\<lparr>au_keys := [], au_armed := False\<rparr>"
  let ?r = "demo_guard_req ''POST'' ''/mcp'' ''127.0.0.1:9966'' []"
  have "loopback_conn ?r" by code_simp
  moreover have "is_loopback_host ''127.0.0.1:9966''" by code_simp
  ultimately have "snd (security_guard demo_sha (\<lambda>s. None) [] 0 ?r ?s) = NextScoped ''full'' max_request_body"
    by (simp add: security_guard_def demo_guard_req_def auth_token_def bearer_token_def bearer_prefix_def
        header_get_def header_values_def loopback_branch_def cross_origin_def pre_auth_paths_def scope_full_def
        control_request_body_limit_def mcp_authorized_def api_key_auth_required_def demo_auth_def)
  moreover have "gr_path ?r = ''/mcp''" by (simp add: demo_guard_req_def)
  moreover have "verify_api_key_scope demo_sha 0 ?s t = None" for t
    by (simp add: verify_api_key_scope_def)
  moreover have "au_readable ?s" by (simp add: demo_auth_def)
  ultimately show ?thesis
    using mcp_endpoint_guarded [of demo_sha "\<lambda>s. None" "[]" 0 ?r ?s] by (auto simp: verify_api_key_def)
qed

section \<open>The life of a key\<close>

datatype key_op = CreateKey string string int | DeleteKey int

definition key_step :: "(string \<Rightarrow> string) \<Rightarrow> auth_store \<Rightarrow> key_op \<Rightarrow> auth_store" where
  "key_step sha s kop =
     (case kop of
        CreateKey token scope expires \<Rightarrow>
          (case create_api_key sha token scope expires s of None \<Rightarrow> s | Some s \<Rightarrow> s)
      | DeleteKey i \<Rightarrow> delete_api_key i s)"

definition keys_ok :: "auth_store \<Rightarrow> bool" where
  "keys_ok s \<longleftrightarrow>
     distinct (map ak_id (au_keys s)) \<and> distinct (map ak_hash (au_keys s)) \<and>
     (\<forall>k \<in> set (au_keys s). ak_id k \<le> au_last_id s \<and> ak_scope k \<in> {scope_full, scope_read}) \<and>
     (au_keys s \<noteq> [] \<longrightarrow> au_armed s)"

lemma keys_ok_step: "keys_ok s \<Longrightarrow> keys_ok (key_step sha s kop)"
  by (fastforce simp: keys_ok_def key_step_def create_api_key_def delete_api_key_def normalize_scope_def
      distinct_map_filter split: key_op.splits option.splits if_splits)

lemma keys_ok_session: "keys_ok s \<Longrightarrow> keys_ok (foldl (key_step sha) s kops)"
  by (rule foldl_invariant [where P = keys_ok]) (simp_all add: keys_ok_step)

lemma armed_step: "au_armed s \<Longrightarrow> au_armed (key_step sha s kop)"
  by (auto simp: key_step_def create_api_key_def delete_api_key_def split: key_op.splits option.splits)

lemma armed_session: "au_armed s \<Longrightarrow> au_armed (foldl (key_step sha) s kops)"
  by (rule foldl_invariant [where P = au_armed]) (simp_all add: armed_step)

lemma find_distinct:
  "distinct (map f xs) \<Longrightarrow> x \<in> set xs \<Longrightarrow> List.find (\<lambda>y. f y = f x) xs = Some x"
  by (induction xs) (auto simp: image_iff)

text \<open>
  Keys live exactly from creation to revocation or expiry. After any sequence of creations
  and deletions, the token of a stored key verifies with its scope until it expires, it does not
  verify once the key is deleted, whatever other keys exist, and key authentication stays armed
  from then on, through any further sequence, even when no key is left.
\<close>

theorem key_lifecycle:
  assumes "keys_ok s0" and "s = foldl (key_step sha) s0 kops" and "k \<in> set (au_keys s)"
    and "sha token = ak_hash k" and "token \<noteq> []" and "au_readable s"
  shows "verify_api_key_scope sha now s token =
           (if ak_expires k \<noteq> 0 \<and> ak_expires k \<le> now then None else Some (ak_scope k)) \<and>
         verify_api_key_scope sha now (delete_api_key (ak_id k) s) token = None \<and>
         au_armed (foldl (key_step sha) (delete_api_key (ak_id k) s) kops')"
proof -
  have ok: "keys_ok s" using keys_ok_session [OF assms(1)] assms(2) by simp
  then have sc: "normalize_scope (ak_scope k) = ak_scope k"
    using assms(3) by (auto simp: keys_ok_def normalize_scope_def)
  have "List.find (\<lambda>y. ak_hash y = ak_hash k) (au_keys s) = Some k"
    using ok assms(3) by (intro find_distinct) (simp_all add: keys_ok_def)
  moreover have "List.find (\<lambda>y. ak_hash y = ak_hash k) (filter (\<lambda>x. ak_id x \<noteq> ak_id k) (au_keys s)) = None"
    using ok assms(3) by (auto simp: find_None_iff keys_ok_def dest: inj_onD [of ak_hash] simp: distinct_map)
  moreover have "au_armed (delete_api_key (ak_id k) s)"
    by (simp add: delete_api_key_def)
  ultimately show ?thesis
    using assms(4-6) armed_session sc by (simp add: verify_api_key_scope_def delete_api_key_def)
qed

theorem key_lifecycle_witness:
  "verify_api_key_scope demo_sha 0 (delete_api_key 1 (demo_auth True)) ''read'' = None"
proof -
  have "keys_ok (demo_auth True)" by (simp add: keys_ok_def demo_auth_def scope_read_def)
  from key_lifecycle [OF this, of "demo_auth True" demo_sha "[]" "hd (au_keys (demo_auth True))" "''read''" 0]
  show ?thesis by (simp add: demo_auth_def demo_sha_def)
qed

section \<open>Rate limiting\<close>

definition rl_allowed :: "string \<Rightarrow> (string \<times> int) list \<Rightarrow> (string \<rightharpoonup> rl_entry) \<Rightarrow> nat" where
  "rl_allowed ip atts w = length (filter (\<lambda>(a, ok). fst a = ip \<and> ok) (zip atts (rl_session atts w)))"

lemma rl_open_window:
  assumes "w ip = Some e" and "rl_count e \<le> 10" and "\<forall>a \<in> set atts. snd a < rl_reset e"
  shows "rl_allowed ip atts w = min (10 - rl_count e) (length (filter (\<lambda>a. fst a = ip) atts))"
  using assms
proof (induction atts arbitrary: w e)
  case Nil
  then show ?case by (simp add: rl_allowed_def)
next
  case (Cons a atts)
  obtain k t where a: "a = (k, t)" by (cases a)
  obtain w' ok where w': "rl_allow k t w = (w', ok)" by (metis prod.collapse)
  have t: "t < rl_reset e" using Cons.prems(3) a by simp
  show ?case
  proof (cases "k = ip")
    case True
    show ?thesis
    proof (cases "rl_count e \<ge> 10")
      case full: True
      then have "w' = w" "\<not> ok" using w' True Cons.prems(1) t by (auto simp: rl_allow_def)
      with Cons.IH [of w e] Cons.prems a w' full show ?thesis by (simp add: rl_allowed_def)
    next
      case False
      then have "w' ip = Some (e\<lparr>rl_count := rl_count e + 1\<rparr>)" "ok"
        using w' True Cons.prems(1) t by (auto simp: rl_allow_def)
      with Cons.IH [of w' "e\<lparr>rl_count := rl_count e + 1\<rparr>"] Cons.prems a w' True False show ?thesis
        by (simp add: rl_allowed_def)
    qed
  next
    case False
    then have "w' ip = Some e"
      using w' Cons.prems(1) t by (auto simp: rl_allow_def Let_def split: option.splits if_splits)
    with Cons.IH [of w' e] Cons.prems a w' False show ?thesis by (simp add: rl_allowed_def)
  qed
qed

text \<open>
  Online guessing is throttled: of the login attempts that one address makes in the minute
  after its window opens, in any interleaving with the attempts of other addresses, exactly the
  first ten are let through.
\<close>

theorem login_window_bound:
  assumes "w ip = None \<or> (\<exists>e. w ip = Some e \<and> rl_reset e \<le> t)"
    and "\<forall>a \<in> set atts. snd a < t + 60000"
  shows "rl_allowed ip ((ip, t) # atts) w = min 10 (1 + length (filter (\<lambda>a. fst a = ip) atts))"
proof -
  obtain w' where w': "rl_allow ip t w = (w', True)" "w' ip = Some \<lparr>rl_count = 1, rl_reset = t + 60000\<rparr>"
    using assms(1) by (auto simp: rl_allow_def Let_def)
  with rl_open_window [of w' ip _ atts] assms(2) show ?thesis
    by (simp add: rl_allowed_def)
qed

theorem login_window_bound_witness: "rl_allowed ''a'' ((''a'', 0) # replicate 20 (''a'', 5)) Map.empty = 10"
  using login_window_bound [of Map.empty "''a''" 0 "replicate 20 (''a'', 5)"] by simp

text \<open>
  \<open>remoteIP\<close> leaves the brackets of an IPv6 peer, and the allowlist parses the address as it is:
  an IPv6 client that connects directly never matches, whatever the allowlist holds.
\<close>

lemma direct_ipv6_never_allowlisted:
  "\<not> snd (allowlist_match al (client_ip trusted
      ((demo_guard_req ''GET'' ''/'' ''box.test'' [])\<lparr>gr_remote := ''[2001:db8::5]:4000''\<rparr>)))"
proof -
  let ?r = "(demo_guard_req ''GET'' ''/'' ''box.test'' [])\<lparr>gr_remote := ''[2001:db8::5]:4000''\<rparr>"
  have "remote_ip ?r = ''[2001:db8::5]''" "\<not> is_loopback_ip_string ''[2001:db8::5]''"
    by code_simp+
  then have "client_ip trusted ?r = ''[2001:db8::5]''" by (simp add: client_ip_def)
  moreover have "parse_ip (trim_space ''[2001:db8::5]'') = None" by code_simp
  ultimately show ?thesis by (simp add: allowlist_match_def)
qed

end
