(* ===== verification/Rank.thy ===== *)
theory Rank
  imports GoBase
begin

text \<open>
  The ordering keys of collections and requests (\<open>internal/store/collections_rank.go\<close>):
  \<open>rankIdx\<close>, \<open>RankBetween\<close> and \<open>EvenRanks\<close>. A rank is a string over the 36 characters
  \<open>0-9a-z\<close>, compared as Go compares strings. The loop of \<open>RankBetween\<close> is \<open>rank_loop\<close>, with the
  index, the flag \<open>bInf\<close> and the bytes written so far as arguments.

  The lemmas show that the ranks that do not end in the minimal digit are closed under
  \<open>RankBetween\<close> and that it returns a string strictly between its arguments on them, and that
  \<open>EvenRanks\<close> yields a strictly increasing list of such ranks of one width. The two integer
  loops are over \<open>nat\<close>; \<open>even_space_bound\<close> bounds their values, so that Go's \<open>int\<close> does not
  wrap for any list that fits memory.
\<close>

section \<open>Definitions\<close>

definition rank_alphabet :: string where
  "rank_alphabet = ''0123456789abcdefghijklmnopqrstuvwxyz''"

definition rank_idx :: "char \<Rightarrow> nat" where
  "rank_idx c =
     (if is_digit c then byte_val c - 48
      else if is_lower_letter c then byte_val c - 97 + 10
      else 0)"

function rank_loop :: "string \<Rightarrow> string \<Rightarrow> nat \<Rightarrow> bool \<Rightarrow> string \<Rightarrow> string" where
  "rank_loop a b i b_inf out =
     (let da = (if i < length a then rank_idx (a ! i) else 0);
          db = (if \<not> b_inf \<and> i < length b then rank_idx (b ! i) else 36)
      in if int db - int da > 1 then out @ [rank_alphabet ! ((da + db) div 2)]
         else rank_loop a b (Suc i) (b_inf \<or> db \<noteq> da) (out @ [rank_alphabet ! da]))"
  by pat_completeness auto

termination
  by (relation "measure (\<lambda>(a, b, i, _, _). Suc (max (length a) (length b)) - i)")
     (auto split: if_splits)

declare rank_loop.simps [simp del]

definition rank_between :: "string \<Rightarrow> string \<Rightarrow> string" where
  "rank_between a b =
     (let b = (if b \<noteq> [] \<and> a \<ge> b then [] else b) in rank_loop a b 0 (b = []) [])"

text \<open>
  \<open>for space < (n+1)*4 { width++; space *= base }\<close>. The guard \<open>space = 0\<close> makes the recursion
  total; the loop starts at 36, so it never decides.
\<close>

function even_width :: "nat \<Rightarrow> nat \<Rightarrow> nat \<Rightarrow> nat \<times> nat" where
  "even_width n width space =
     (if space = 0 \<or> \<not> space < (n + 1) * 4 then (width, space)
      else even_width n (width + 1) (space * 36))"
  by pat_completeness auto

termination
  by (relation "measure (\<lambda>(n, w, s). (n + 1) * 4 - s)") auto

declare even_width.simps [simp del]

text \<open>The digits of \<open>v\<close>, written from the last position of the buffer to the first.\<close>

fun rank_digits :: "nat \<Rightarrow> nat \<Rightarrow> string" where
  "rank_digits 0 v = []"
| "rank_digits (Suc w) v = rank_digits w (v div 36) @ [rank_alphabet ! (v mod 36)]"

definition even_value :: "nat \<Rightarrow> nat \<Rightarrow> nat" where
  "even_value stride i =
     (let v = (i + 1) * stride in if v mod 36 = 0 then v + 1 else v)"

definition even_ranks :: "int \<Rightarrow> string list" where
  "even_ranks m =
     (if m \<le> 0 then []
      else (let n = nat m;
                (width, space) = even_width n 1 36;
                stride = space div (n + 1)
            in map (\<lambda>i. rank_digits width (even_value stride i)) [0..<n]))"

text \<open>The ranks the store holds: not empty, over the alphabet, no trailing minimal digit.\<close>

definition rank_char :: "char \<Rightarrow> bool" where
  "rank_char c \<longleftrightarrow> is_digit c \<or> is_lower_letter c"

definition rank_ok :: "string \<Rightarrow> bool" where
  "rank_ok r \<longleftrightarrow> r \<noteq> [] \<and> list_all rank_char r \<and> last r \<noteq> CHR ''0''"

section \<open>Digits and their order\<close>

lemma rank_alphabet_idx: "n < 36 \<Longrightarrow> rank_char (rank_alphabet ! n) \<and> rank_idx (rank_alphabet ! n) = n"
proof -
  have "list_all (\<lambda>n. rank_char (rank_alphabet ! n) \<and> rank_idx (rank_alphabet ! n) = n) [0..<36]"
    by code_simp
  moreover assume "n < 36"
  ultimately show ?thesis by (simp add: list_all_iff)
qed

lemma rank_idx_less: "rank_idx c < 36"
  by (auto simp: rank_idx_def is_digit_def is_lower_letter_def)

lemma char_less_iff_byte: "c < d \<longleftrightarrow> byte_val c < byte_val d"
  by (simp add: less_char_def byte_val_def)

lemma rank_idx_mono:
  "rank_char c \<Longrightarrow> rank_char d \<Longrightarrow> c < d \<longleftrightarrow> rank_idx c < rank_idx d"
  by (auto simp: char_less_iff_byte rank_char_def rank_idx_def is_digit_def is_lower_letter_def)

lemma rank_idx_inj: "rank_char c \<Longrightarrow> rank_char d \<Longrightarrow> rank_idx c = rank_idx d \<Longrightarrow> c = d"
  by (metis rank_idx_mono less_irrefl linorder_less_linear)

lemma rank_alphabet_of_idx: "rank_char c \<Longrightarrow> rank_alphabet ! rank_idx c = c"
  using rank_alphabet_idx rank_idx_inj rank_idx_less by blast

lemma rank_idx_zero: "rank_char c \<Longrightarrow> rank_idx c = 0 \<longleftrightarrow> c = CHR ''0''"
  using rank_idx_inj [of c "CHR ''0''"]
  by (auto simp: rank_char_def rank_idx_def is_digit_def byte_val_def)

lemma rank_alphabet_zero: "n < 36 \<Longrightarrow> rank_alphabet ! n = CHR ''0'' \<longleftrightarrow> n = 0"
  using rank_alphabet_idx rank_idx_zero by metis

section \<open>Between\<close>

text \<open>
  What the loop owes for the rest of the strings: it writes a tail after \<open>out\<close> that lies
  between the rests of \<open>a\<close> and of \<open>b\<close>.
\<close>

definition tail_between :: "string \<Rightarrow> string \<Rightarrow> bool \<Rightarrow> string \<Rightarrow> bool" where
  "tail_between a b b_inf t \<longleftrightarrow> a < t \<and> (b_inf \<or> t < b) \<and> rank_ok t"

lemma rank_ok_Cons: "t \<noteq> [] \<Longrightarrow> rank_ok (c # t) \<longleftrightarrow> rank_char c \<and> rank_ok t"
  by (auto simp: rank_ok_def)

lemma tail_between_last:
  assumes "list_all rank_char a" "b_inf \<or> (b \<noteq> [] \<and> list_all rank_char b)"
    and da: "da = (if a = [] then 0 else rank_idx (hd a))"
    and db: "db = (if b_inf then 36 else rank_idx (hd b))"
    and gap: "da + 1 < db"
  shows "tail_between a b b_inf [rank_alphabet ! ((da + db) div 2)]"
proof -
  define m where "m = (da + db) div 2"
  have "db \<le> 36" using db rank_idx_less [of "hd b"] by auto
  with gap have m: "da < m" "m < db" "m < 36" by (auto simp: m_def)
  have c: "rank_char (rank_alphabet ! m)" "rank_idx (rank_alphabet ! m) = m"
    using rank_alphabet_idx m(3) by auto
  have ok: "rank_ok [rank_alphabet ! m]"
    using c m rank_alphabet_zero [of m] by (auto simp: rank_ok_def)
  have "a < [rank_alphabet ! m]"
    using assms(1) da m c rank_idx_mono by (cases a) auto
  moreover have "b_inf \<or> [rank_alphabet ! m] < b"
    using assms(2) db m c rank_idx_mono by (cases b) auto
  ultimately show ?thesis
    using ok by (simp add: tail_between_def m_def)
qed

lemma tail_between_step:
  assumes "list_all rank_char a" "b_inf \<or> (b \<noteq> [] \<and> list_all rank_char b)"
    and da: "da = (if a = [] then 0 else rank_idx (hd a))"
    and db: "db = (if b_inf then 36 else rank_idx (hd b))"
    and order: "b_inf \<or> a < b"
    and t: "tail_between (tl a) (tl b) (b_inf \<or> db \<noteq> da) t"
  shows "tail_between a b b_inf (rank_alphabet ! da # t)"
proof -
  have "da < 36" using da rank_idx_less by auto
  note c = rank_alphabet_idx [OF this]
  have "t \<noteq> []" using t by (auto simp: tail_between_def)
  then have ok: "rank_ok (rank_alphabet ! da # t)"
    using t c by (simp add: tail_between_def rank_ok_Cons)
  have 1: "a < rank_alphabet ! da # t"
    using assms(1) da t rank_alphabet_of_idx by (cases a) (auto simp: tail_between_def)
  have 2: "b_inf \<or> rank_alphabet ! da # t < b"
  proof (cases b_inf)
    case False
    then obtain c' bs where b: "b = c' # bs" "rank_char c'" "db = rank_idx c'"
      using assms(2) db by (cases b) auto
    have "da \<le> db"
    proof (cases a)
      case (Cons x xs)
      then have "rank_char x" "da = rank_idx x" using assms(1) da by auto
      moreover have "x < c' \<or> x = c'" using order False b Cons by auto
      ultimately show ?thesis using b rank_idx_mono [of x c'] by auto
    qed (use da in simp)
    then consider "da = db" | "da < db" by linarith
    then show ?thesis
    proof cases
      case 1
      then have "rank_alphabet ! da = c'" using b rank_alphabet_of_idx by simp
      with t 1 b False show ?thesis by (simp add: tail_between_def)
    next
      case 2
      then have "rank_alphabet ! da < c'" using b c rank_idx_mono by simp
      with b show ?thesis by simp
    qed
  qed simp
  show ?thesis using ok 1 2 by (simp add: tail_between_def)
qed

text \<open>The rest of the bounds stays in order, because \<open>b\<close> does not end in the digit 0.\<close>

lemma tails_ordered:
  assumes "a < b" "list_all rank_char a" "rank_ok b"
    and "rank_idx (hd b) = (if a = [] then 0 else rank_idx (hd a))"
  shows "tl a < tl b \<and> rank_ok (tl b)"
proof (cases a)
  case Nil
  obtain c bs where b: "b = c # bs" using assms(3) by (cases b) (auto simp: rank_ok_def)
  have "c = CHR ''0''"
    using assms(3,4) b Nil rank_idx_zero by (simp add: rank_ok_def)
  then have "bs \<noteq> []" using assms(3) b by (auto simp: rank_ok_def)
  then show ?thesis
    using Nil b assms(3) by (cases bs) (auto simp: rank_ok_def)
next
  case (Cons x xs)
  obtain c bs where b: "b = c # bs" using assms(3) by (cases b) (auto simp: rank_ok_def)
  have "x = c" using assms(2-4) b Cons rank_idx_inj by (simp add: rank_ok_def)
  then have "xs < bs" using assms(1) b Cons by simp
  then show ?thesis
    using Cons b assms(3) by (cases bs) (auto simp: rank_ok_def)
qed

lemma rank_loop_between:
  assumes "list_all rank_char a"
    and "b_inf \<or> (drop i a < drop i b \<and> rank_ok (drop i b))"
  shows "\<exists>t. rank_loop a b i b_inf out = out @ t \<and> tail_between (drop i a) (drop i b) b_inf t"
  using assms
proof (induction a b i b_inf out rule: rank_loop.induct)
  case (1 a b i b_inf out)
  define da where "da = (if drop i a = [] then 0 else rank_idx (hd (drop i a)))"
  define db where "db = (if b_inf then 36 else rank_idx (hd (drop i b)))"
  have da': "(if i < length a then rank_idx (a ! i) else 0) = da"
    by (simp add: da_def hd_drop_conv_nth)
  have db': "(if \<not> b_inf \<and> i < length b then rank_idx (b ! i) else 36) = db"
    using "1.prems"(2) by (auto simp: db_def hd_drop_conv_nth rank_ok_def)
  have la: "list_all rank_char (drop i a)"
    using "1.prems"(1) by (auto simp: list_all_iff dest: in_set_dropD)
  have lb: "b_inf \<or> (drop i b \<noteq> [] \<and> list_all rank_char (drop i b))"
    using "1.prems"(2) by (auto simp: rank_ok_def)
  show ?case
  proof (cases "int db - int da > 1")
    case True
    then have "da + 1 < db" by linarith
    from tail_between_last [OF la lb da_def db_def this]
    show ?thesis using True by (subst rank_loop.simps) (simp add: da' db' Let_def)
  next
    case False
    have order: "b_inf \<or> drop i a < drop i b" using "1.prems"(2) by blast
    have "b_inf \<or> db \<noteq> da \<or> (drop (Suc i) a < drop (Suc i) b \<and> rank_ok (drop (Suc i) b))"
      using tails_ordered [OF _ la, of "drop i b"] "1.prems"(2)
      by (auto simp: da_def db_def drop_Suc tl_drop)
    then obtain t where
      t: "rank_loop a b (Suc i) (b_inf \<or> db \<noteq> da) (out @ [rank_alphabet ! da])
            = (out @ [rank_alphabet ! da]) @ t"
         "tail_between (drop (Suc i) a) (drop (Suc i) b) (b_inf \<or> db \<noteq> da) t"
      using "1.IH" [OF da' [symmetric] db' [symmetric] False "1.prems"(1)] by auto
    have "tail_between (drop i a) (drop i b) b_inf (rank_alphabet ! da # t)"
      using tail_between_step [OF la lb da_def db_def order] t(2) by (simp add: drop_Suc tl_drop)
    then show ?thesis
      using t(1) False by (subst rank_loop.simps) (simp add: da' db' Let_def)
  qed
qed

text \<open>
  \<open>RankBetween\<close> keeps a list sortable for ever: for a lower bound that is empty or a rank
  of the store and an upper bound that is empty or a rank of the store, the result is again a
  rank of the store, it is greater than the lower bound, and it is smaller than the upper bound
  whenever there is one above the lower bound.
\<close>

theorem rank_between_strict:
  assumes "a = [] \<or> rank_ok a" "b = [] \<or> rank_ok b"
  shows "rank_ok (rank_between a b) \<and> a < rank_between a b
    \<and> (b \<noteq> [] \<and> a < b \<longrightarrow> rank_between a b < b)"
proof -
  define b' where "b' = (if b \<noteq> [] \<and> a \<ge> b then [] else b)"
  have a: "list_all rank_char a" using assms(1) by (auto simp: rank_ok_def)
  have "b' = [] \<or> (a < b' \<and> rank_ok b')" using assms(2) by (auto simp: b'_def)
  then obtain t where "rank_loop a b' 0 (b' = []) [] = t" "tail_between a b' (b' = []) t"
    using rank_loop_between [OF a, of "b' = []" 0 b' "[]"] by auto
  then show ?thesis
    by (auto simp: rank_between_def b'_def [symmetric] Let_def tail_between_def)
       (auto simp: b'_def split: if_splits)
qed

theorem rank_between_strict_witness:
  "rank_ok (rank_between ''a'' ''a1'') \<and> ''a'' < rank_between ''a'' ''a1''
    \<and> rank_between ''a'' ''a1'' < ''a1'' \<and> rank_between ''a'' ''a1'' = ''a0i''"
proof -
  have "rank_ok ''a''" "rank_ok ''a1''" "''a'' < ''a1''" "rank_between ''a'' ''a1'' = ''a0i''"
    by code_simp+
  then show ?thesis using rank_between_strict [of "''a''" "''a1''"] by simp
qed

text \<open>
  An upper bound that ends in the minimal digit has no string of the alphabet right below it:
  the result for the bounds \<open>a\<close> and \<open>a0\<close> is above both.
\<close>

lemma rank_between_trailing_zero:
  "''a'' < ''a0'' \<and> \<not> rank_between ''a'' ''a0'' < ''a0''"
  by code_simp

section \<open>Even ranks\<close>

lemma even_width_space:
  assumes "space = 36 ^ width" "even_width n width space = (w, s)"
  shows "s = 36 ^ w \<and> (n + 1) * 4 \<le> s \<and> s \<le> max space (36 * ((n + 1) * 4))"
  using assms
proof (induction n width space rule: even_width.induct)
  case (1 n width space)
  show ?case
  proof (cases "space < (n + 1) * 4")
    case True
    have nz: "\<not> (space = 0 \<or> \<not> space < (n + 1) * 4)" using "1.prems"(1) True by simp
    have "even_width n (width + 1) (space * 36) = (w, s)"
      using nz "1.prems"(2) by (subst (asm) even_width.simps) (simp only: if_False)
    moreover have "space * 36 = 36 ^ (width + 1)" using "1.prems"(1) by simp
    ultimately have "s = 36 ^ w \<and> (n + 1) * 4 \<le> s \<and> s \<le> max (space * 36) (36 * ((n + 1) * 4))"
      using "1.IH" [OF nz] by blast
    moreover have "max (space * 36) (36 * ((n + 1) * 4)) \<le> max space (36 * ((n + 1) * 4))"
      using True by auto
    ultimately show ?thesis by linarith
  next
    case False
    then have "w = width" "s = space"
      using "1.prems"(2) by (simp_all add: even_width.simps [of n width space])
    with False "1.prems"(1) show ?thesis by simp
  qed
qed

lemma even_space_bound: "even_width n 1 36 = (w, s) \<Longrightarrow> s \<le> 144 * (n + 1)"
  using even_width_space [of 36 1 n w s] by auto

lemma length_rank_digits [simp]: "length (rank_digits w v) = w"
  by (induction w arbitrary: v) auto

lemma rank_digits_chars: "list_all rank_char (rank_digits w v)"
  by (induction w arbitrary: v) (auto simp: rank_alphabet_idx)

lemma snoc_less_snoc:
  fixes x y :: "'a::linorder"
  shows "length xs = length ys \<Longrightarrow> xs @ [x] < ys @ [y] \<longleftrightarrow> xs < ys \<or> (xs = ys \<and> x < y)"
  by (induction xs ys rule: list_induct2) auto

text \<open>The strings of one width are ordered as the numbers they write.\<close>

lemma rank_digits_less:
  "u < v \<Longrightarrow> v < 36 ^ w \<Longrightarrow> rank_digits w u < rank_digits w v"
proof (induction w arbitrary: u v)
  case (Suc w)
  consider "u div 36 < v div 36" | "u div 36 = v div 36" "u mod 36 < v mod 36"
    using Suc.prems(1)
    by (metis div_le_mono div_mult_mod_eq less_imp_le_nat nat_add_left_cancel_less nat_less_le)
  then show ?case
  proof cases
    case 1
    have "v div 36 < 36 ^ w" using Suc.prems(2) by (simp add: less_mult_imp_div_less mult.commute)
    with 1 Suc.IH show ?thesis by (simp add: snoc_less_snoc)
  next
    case 2
    have "rank_alphabet ! (u mod 36) < rank_alphabet ! (v mod 36)"
      using 2 rank_alphabet_idx [of "u mod 36"] rank_alphabet_idx [of "v mod 36"] rank_idx_mono
      by simp
    with 2 show ?thesis by (simp add: snoc_less_snoc)
  qed
qed simp

lemma even_value_range:
  assumes "4 \<le> stride"
  shows "even_value stride i < even_value stride (Suc i)"
    "(i + 1) * stride \<le> even_value stride i" "even_value stride i < (i + 2) * stride"
    "even_value stride i mod 36 \<noteq> 0"
proof -
  have "(v + 1) mod 36 \<noteq> 0" if "v mod 36 = 0" for v :: nat
    using that by presburger
  then show "even_value stride i mod 36 \<noteq> 0" by (simp add: even_value_def Let_def)
  show 1: "(i + 1) * stride \<le> even_value stride i" for i
    by (simp add: even_value_def Let_def)
  show 2: "even_value stride i < (i + 2) * stride"
    using assms by (simp add: even_value_def Let_def)
  show "even_value stride i < even_value stride (Suc i)"
    using 2 1 [of "Suc i"] by simp
qed

text \<open>
  \<open>EvenRanks(n)\<close> returns \<open>n\<close> ranks, all of one width, strictly increasing, and each of
  them a rank of the store (no trailing minimal digit), so that \<open>RankBetween\<close> has room between
  any two neighbours.
\<close>

theorem even_ranks_spread:
  assumes "0 < n"
  shows "length (even_ranks n) = nat n \<and> sorted_wrt (<) (even_ranks n)
    \<and> list_all rank_ok (even_ranks n) \<and> (\<exists>w. list_all (\<lambda>r. length r = w) (even_ranks n))"
proof -
  obtain m where m: "n = int m" "0 < m" using assms by (metis of_nat_0_less_iff pos_int_cases)
  obtain w s where ws: "even_width m 1 36 = (w, s)" by (cases "even_width m 1 36")
  then have s: "s = 36 ^ w" "(m + 1) * 4 \<le> s" using even_width_space [of 36 1 m w s] by auto
  define stride where "stride = s div (m + 1)"
  have st: "4 \<le> stride" using s(2) by (simp add: stride_def less_eq_div_iff_mult_less_eq mult.commute)
  have top: "even_value stride i < s" if "i < m" for i
  proof -
    have "even_value stride i < (i + 2) * stride" using even_value_range(3) [OF st] .
    also have "\<dots> \<le> (m + 1) * stride" using that by (intro mult_right_mono) auto
    also have "\<dots> \<le> s" unfolding stride_def by (rule times_div_less_eq_dividend)
    finally show ?thesis .
  qed
  have mono: "even_value stride i < even_value stride j" if "i < j" for i j
    using lift_Suc_mono_less [of "even_value stride", OF even_value_range(1) [OF st] that] .
  have eq: "even_ranks n = map (\<lambda>i. rank_digits w (even_value stride i)) [0..<m]"
    using m ws by (simp add: even_ranks_def stride_def del: One_nat_def)
  have "w \<noteq> 0" using s by (cases w) auto
  then obtain w' where w': "w = Suc w'" by (cases w) auto
  have "rank_ok (rank_digits w (even_value stride i))" for i
    using even_value_range(4) [OF st, of i] rank_alphabet_zero rank_digits_chars [of w]
    by (auto simp: rank_ok_def w')
  moreover have "sorted_wrt (<) (even_ranks n)"
    using mono top rank_digits_less s(1) by (simp add: eq sorted_wrt_iff_nth_less)
  ultimately show ?thesis
    unfolding eq using m(1) by (simp add: list_all_iff)
qed

theorem even_ranks_spread_witness:
  "sorted_wrt (<) (even_ranks 10) \<and> list_all rank_ok (even_ranks 10)
    \<and> even_ranks 3 = [''9'', ''i'', ''r'']"
proof -
  have "even_ranks 3 = [''9'', ''i'', ''r'']" by code_simp
  then show ?thesis using even_ranks_spread [of 10] by simp
qed

end
