(* ===== verification/GoText.thy ===== *)
theory GoText
  imports GoBase
begin

text \<open>
  More of Go's text handling, used by the collection side of the program: \<open>strings.ReplaceAll\<close>
  and \<open>strings.FieldsFunc\<close>, the UTF-8 decoder of \<open>range\<close>/\<open>json.Marshal\<close>, the JSON form of a
  string, and the calendar arithmetic behind \<open>time.Time.Format\<close> for the one layout the code uses.
\<close>

section \<open>Replacing and splitting\<close>

text \<open>\<open>strings.ReplaceAll\<close>; the code calls it with a non-empty text to replace only.\<close>

function replace_all :: "string \<Rightarrow> string \<Rightarrow> string \<Rightarrow> string" where
  "replace_all p r [] = []"
| "replace_all p r (c # s) =
     (if p \<noteq> [] \<and> has_prefix (c # s) p then r @ replace_all p r (drop (length p) (c # s))
      else c # replace_all p r s)"
  by pat_completeness auto
termination
  by (relation "measure (\<lambda>(p, r, s). length s)") auto

text \<open>\<open>strings.FieldsFunc\<close>: the maximal runs of bytes outside the predicate.\<close>

fun fields_by :: "(char \<Rightarrow> bool) \<Rightarrow> string \<Rightarrow> string \<Rightarrow> string list" where
  "fields_by P w [] = (if w = [] then [] else [w])"
| "fields_by P w (c # s) =
     (if P c then (if w = [] then fields_by P [] s else w # fields_by P [] s)
      else fields_by P (w @ [c]) s)"

text \<open>\<open>strings.Cut\<close> with any separator.\<close>

definition str_cut :: "string \<Rightarrow> string \<Rightarrow> (string \<times> string) option" where
  "str_cut sep s =
     (case str_index s sep of None \<Rightarrow> None | Some i \<Rightarrow> Some (take i s, drop (i + length sep) s))"

text \<open>\<open>strings.CutPrefix\<close>\<close>

definition cut_prefix :: "string \<Rightarrow> string \<Rightarrow> string option" where
  "cut_prefix s p = (if has_prefix s p then Some (drop (length p) s) else None)"

lemma replace_all_id: "\<not> str_contains s p \<Longrightarrow> replace_all p r s = s"
  by (induction s) (auto simp: str_contains_Cons)

text \<open>
  What \<open>ReplaceAll\<close> does: the text is cut at its occurrences, left to right, into pieces
  without an occurrence, and the pieces are joined again by the replacement.
\<close>

lemma replace_all_pieces:
  assumes "p \<noteq> []"
  shows "\<exists>ws. ws \<noteq> [] \<and> str_join p ws = s \<and> str_join r ws = replace_all p r s
           \<and> (\<forall>w\<in>set ws. \<not> str_contains w p)"
proof (induction "length s" arbitrary: s rule: less_induct)
  case less
  show ?case
  proof (cases "str_index s p")
    case None
    then have "\<not> str_contains s p" by (simp add: str_contains_def)
    then have "[s] \<noteq> [] \<and> str_join p [s] = s \<and> str_join r [s] = replace_all p r s
      \<and> (\<forall>w\<in>set [s]. \<not> str_contains w p)" by (simp add: replace_all_id)
    then show ?thesis by blast
  next
    case (Some i)
    have pre: "\<And>i. str_index s p = Some i \<Longrightarrow>
        s = take i s @ p @ drop (i + length p) s \<and> \<not> str_contains (take i s) p
        \<and> replace_all p r s = take i s @ r @ replace_all p r (drop (i + length p) s)"
    proof (induction s)
      case Nil
      with assms show ?case by simp
    next
      case (Cons c s)
      show ?case
      proof (cases "has_prefix (c # s) p")
        case True
        with Cons.prems have i: "i = 0" by simp
        have "\<not> str_contains [] p" using assms by (simp add: str_contains_def)
        moreover have "c # s = p @ drop (length p) (c # s)"
          using True by (metis append_take_drop_id has_prefix_def)
        ultimately show ?thesis using True assms i by simp
      next
        case False
        with Cons.prems obtain k where k: "str_index s p = Some k" "i = Suc k"
          by (auto split: if_splits)
        from Cons.IH [OF k(1)] have h: "s = take k s @ p @ drop (k + length p) s"
          "\<not> str_contains (take k s) p"
          "replace_all p r s = take k s @ r @ replace_all p r (drop (k + length p) s)" by auto
        have "\<not> has_prefix (c # take k s) p"
          using False by (metis Cons_eq_appendI append_take_drop_id append.assoc has_prefix_iff)
        with h(2) have "\<not> str_contains (c # take k s) p" by (simp add: str_contains_Cons)
        with h False k(2) show ?thesis by simp
      qed
    qed
    define t where "t = drop (i + length p) s"
    from pre [OF Some] have s: "s = take i s @ p @ t" and no: "\<not> str_contains (take i s) p"
      and rep: "replace_all p r s = take i s @ r @ replace_all p r t"
      by (auto simp: t_def)
    have "length t < length s"
      using arg_cong [OF s, of length] assms by (cases p) auto
    from less [OF this] obtain ws where ws: "ws \<noteq> []" "str_join p ws = t"
      "str_join r ws = replace_all p r t" "\<forall>w\<in>set ws. \<not> str_contains w p" by blast
    obtain v vs where vs: "ws = v # vs" using ws(1) by (cases ws) auto
    have "str_join p (take i s # ws) = s" using ws(2) s vs by simp
    moreover have "str_join r (take i s # ws) = replace_all p r s" using ws(3) rep vs by simp
    ultimately show ?thesis using ws(4) no by (intro exI [of _ "take i s # ws"]) auto
  qed
qed

section \<open>UTF-8\<close>

definition cont_byte :: "char \<Rightarrow> bool" where
  "cont_byte c \<longleftrightarrow> 128 \<le> byte_val c \<and> byte_val c \<le> 191"

text \<open>
  The number of bytes of the UTF-8 sequence at the front of a string, as
  \<open>utf8.DecodeRuneInString\<close> accepts it; \<open>0\<close> for an invalid one (Go then advances by one byte).
\<close>

definition utf8_len :: "string \<Rightarrow> nat" where
  "utf8_len s =
     (case s of [] \<Rightarrow> 0
      | a # t \<Rightarrow>
        (let x = byte_val a;
             y = (case t of [] \<Rightarrow> 0 | b # _ \<Rightarrow> byte_val b);
             conts = length (takeWhile cont_byte (take 3 t))
         in if x < 128 then 1
            else if 194 \<le> x \<and> x \<le> 223 \<and> 1 \<le> conts then 2
            else if 224 \<le> x \<and> x \<le> 239 \<and> 2 \<le> conts \<and> (x = 224 \<longrightarrow> 160 \<le> y) \<and> (x = 237 \<longrightarrow> y \<le> 159) then 3
            else if 240 \<le> x \<and> x \<le> 244 \<and> 3 \<le> conts \<and> (x = 240 \<longrightarrow> 144 \<le> y) \<and> (x = 244 \<longrightarrow> y \<le> 143) then 4
            else 0))"

section \<open>JSON strings\<close>

definition hex_char :: "nat \<Rightarrow> char" where
  "hex_char n = (if n < 10 then char_of (48 + n) else char_of (87 + n))"

text \<open>One ASCII byte in \<open>json.Marshal\<close>, which escapes the HTML bytes too.\<close>

definition json_ascii :: "char \<Rightarrow> string" where
  "json_ascii c =
     (let n = byte_val c in
      if c = CHR 0x22 \<or> c = CHR 0x5C then [CHR 0x5C, c]
      else if n = 8 then [CHR 0x5C, CHR ''b''] else if n = 9 then [CHR 0x5C, CHR ''t'']
      else if n = 10 then [CHR 0x5C, CHR ''n''] else if n = 12 then [CHR 0x5C, CHR ''f'']
      else if n = 13 then [CHR 0x5C, CHR ''r'']
      else if n < 32 \<or> c = CHR ''<'' \<or> c = CHR ''>'' \<or> c = CHR ''&'' then
        CHR 0x5C # ''u00'' @ [hex_char (n div 16), hex_char (n mod 16)]
      else [c])"

text \<open>The body of the JSON string, without its quotes.\<close>

function json_body :: "string \<Rightarrow> string" where
  "json_body [] = []"
| "json_body (c # s) =
     (let k = utf8_len (c # s); w = map byte_val (take k (c # s)) in
      if k = 0 then CHR 0x5C # ''ufffd'' @ json_body s
      else if k = 1 then json_ascii c @ json_body s
      else if w = [226, 128, 168] then CHR 0x5C # ''u2028'' @ json_body (drop k (c # s))
      else if w = [226, 128, 169] then CHR 0x5C # ''u2029'' @ json_body (drop k (c # s))
      else take k (c # s) @ json_body (drop k (c # s)))"
  by pat_completeness auto
termination
  by (relation "measure length") auto

definition json_string :: "string \<Rightarrow> string" where
  "json_string s = CHR 0x22 # json_body s @ [CHR 0x22]"

section \<open>Time\<close>

definition left_pad :: "nat \<Rightarrow> char \<Rightarrow> string \<Rightarrow> string" where
  "left_pad k c s = replicate (k - length s) c @ s"

text \<open>Year, month and day of a day number of the Unix calendar (proleptic Gregorian).\<close>

definition civil_date :: "int \<Rightarrow> int \<times> int \<times> int" where
  "civil_date days =
     (let z = days + 719468; era = z div 146097; doe = z mod 146097;
          yoe = (doe - doe div 1460 + doe div 36524 - doe div 146096) div 365;
          doy = doe - (365 * yoe + yoe div 4 - yoe div 100);
          mp = (5 * doy + 2) div 153;
          d = doy - (153 * mp + 2) div 5 + 1;
          m = (if mp < 10 then mp + 3 else mp - 9)
      in (yoe + era * 400 + (if m \<le> 2 then 1 else 0), m, d))"

definition pad_int :: "nat \<Rightarrow> int \<Rightarrow> string" where
  "pad_int k i = left_pad k (CHR ''0'') (nat_dec (nat i))"

text \<open>
  \<open>t.UTC().Format("2006-01-02T15:04:05.000Z")\<close> of a time given in Unix milliseconds, from
  year 0 on.
\<close>

definition iso_millis :: "int \<Rightarrow> string" where
  "iso_millis ms =
     (let (y, m, d) = civil_date (ms div 86400000); t = ms mod 86400000
      in pad_int 4 y @ ''-'' @ pad_int 2 m @ ''-'' @ pad_int 2 d @ ''T'' @ pad_int 2 (t div 3600000)
         @ '':'' @ pad_int 2 (t div 60000 mod 60) @ '':'' @ pad_int 2 (t div 1000 mod 60)
         @ ''.'' @ pad_int 3 (t mod 1000) @ ''Z'')"

end
