(* ===== verification/Payload.thy ===== *)
theory Payload
  imports Regex GoText
begin

text \<open>
  Payloads and templates of the intruder (\<open>internal/intruder/intruder.go\<close>): the payload
  transforms (\<open>processPayload\<close>, \<open>htmlEscaper\<close>, \<open>validateProcessRules\<close>) with the encoders
  of the standard library they call, and the fuzz-point markers (\<open>marker\<close>, the baselines cut out in
  \<open>Start\<close>, \<open>substitute\<close>). Digests of \<open>crypto/\<close> are arguments (record \<open>digests\<close>).

  The marker is the two bytes of the UTF-8 encoding of the section sign. \<open>segments\<close> is what the regular
  expression (a marker, anything without a marker, a marker) finds from left to right: since
  the lead byte of the marker never is a continuation byte, matching by runes and by bytes agree.
\<close>

section \<open>Encoders\<close>

definition hex_upper :: "nat \<Rightarrow> char" where
  "hex_upper n = (if n < 10 then char_of (48 + n) else char_of (55 + n))"

definition hex_encode :: "string \<Rightarrow> string" where
  "hex_encode s = concat (map (\<lambda>c. [hex_char (byte_val c div 16), hex_char (byte_val c mod 16)]) s)"

definition is_letter :: "char \<Rightarrow> bool" where
  "is_letter c \<longleftrightarrow> is_lower_letter c \<or> (65 \<le> byte_val c \<and> byte_val c \<le> 90)"

text \<open>\<open>url.QueryEscape\<close>\<close>

definition query_escape_char :: "char \<Rightarrow> string" where
  "query_escape_char c =
     (if is_letter c \<or> is_digit c \<or> c \<in> set ''-_.~'' then [c]
      else if c = CHR '' '' then ''+''
      else [CHR ''%'', hex_upper (byte_val c div 16), hex_upper (byte_val c mod 16)])"

definition query_escape :: "string \<Rightarrow> string" where
  "query_escape s = concat (map query_escape_char s)"

text \<open>\<open>base64.StdEncoding\<close> and \<open>base64.URLEncoding\<close>, both padded; \<open>x\<close> and \<open>y\<close> are digits 62 and 63.\<close>

definition base64_digit :: "char \<Rightarrow> char \<Rightarrow> nat \<Rightarrow> char" where
  "base64_digit x y n =
     (if n < 26 then char_of (65 + n) else if n < 52 then char_of (97 + (n - 26))
      else if n < 62 then char_of (48 + (n - 52)) else if n = 62 then x else y)"

fun base64_encode :: "char \<Rightarrow> char \<Rightarrow> string \<Rightarrow> string" where
  "base64_encode x y [] = []"
| "base64_encode x y [a] =
     [base64_digit x y (byte_val a div 4), base64_digit x y (byte_val a mod 4 * 16), CHR ''='', CHR ''='']"
| "base64_encode x y [a, b] =
     [base64_digit x y (byte_val a div 4),
      base64_digit x y (byte_val a mod 4 * 16 + byte_val b div 16),
      base64_digit x y (byte_val b mod 16 * 4), CHR ''='']"
| "base64_encode x y (a # b # c # s) =
     [base64_digit x y (byte_val a div 4),
      base64_digit x y (byte_val a mod 4 * 16 + byte_val b div 16),
      base64_digit x y (byte_val b mod 16 * 4 + byte_val c div 64),
      base64_digit x y (byte_val c mod 64)] @ base64_encode x y s"

definition html_escape_char :: "char \<Rightarrow> string" where
  "html_escape_char c =
     (if c = CHR ''&'' then ''&amp;'' else if c = CHR ''<'' then ''&lt;''
      else if c = CHR ''>'' then ''&gt;'' else if c = CHR 0x22 then ''&#34;''
      else if c = CHR 0x27 then ''&#39;'' else [c])"

definition html_escape :: "string \<Rightarrow> string" where
  "html_escape s = concat (map html_escape_char s)"

record digests =
  dg_md5 :: "string \<Rightarrow> string"
  dg_sha1 :: "string \<Rightarrow> string"
  dg_sha256 :: "string \<Rightarrow> string"

section \<open>Transforms\<close>

definition process_rule :: "digests \<Rightarrow> string \<Rightarrow> string \<Rightarrow> string" where
  "process_rule dg ru pl =
     (if ru = [] then pl
      else if ru = ''urlencode'' then query_escape pl
      else if ru = ''base64'' then base64_encode (CHR ''+'') (CHR ''/'') pl
      else if ru = ''base64url'' then base64_encode (CHR ''-'') (CHR ''_'') pl
      else if ru = ''hex'' then hex_encode pl
      else if ru = ''htmlencode'' then html_escape pl
      else if ru = ''md5'' then hex_encode (dg_md5 dg pl)
      else if ru = ''sha1'' then hex_encode (dg_sha1 dg pl)
      else if ru = ''sha256'' then hex_encode (dg_sha256 dg pl)
      else if ru = ''upper'' then to_upper pl
      else if ru = ''lower'' then to_lower pl
      else if has_prefix ru ''prefix:'' then drop (length ''prefix:'') ru @ pl
      else if has_prefix ru ''suffix:'' then pl @ drop (length ''suffix:'') ru
      else pl)"

definition process_payload :: "digests \<Rightarrow> string \<Rightarrow> string list \<Rightarrow> string" where
  "process_payload dg pl rules = foldl (\<lambda>pl ru. process_rule dg ru pl) pl rules"

definition known_rule :: "string \<Rightarrow> bool" where
  "known_rule ru \<longleftrightarrow>
     ru = ''urlencode'' \<or> ru = ''base64'' \<or> ru = ''base64url'' \<or> ru = ''hex'' \<or> ru = ''htmlencode''
     \<or> ru = ''md5'' \<or> ru = ''sha1'' \<or> ru = ''sha256'' \<or> ru = ''upper'' \<or> ru = ''lower''
     \<or> has_prefix ru ''prefix:'' \<or> has_prefix ru ''suffix:''"

text \<open>The rule that is refused, if any.\<close>

fun validate_process_rules :: "string list \<Rightarrow> string option" where
  "validate_process_rules [] = None"
| "validate_process_rules (ru # rules) =
     (if ru = [] then validate_process_rules rules
      else if known_rule ru then validate_process_rules rules
      else Some ru)"

section \<open>Markers\<close>

definition marker :: string where
  "marker = [CHR 0xC2, CHR 0xA7]"

datatype segment = Lit char | Fuzz string

function segments :: "string \<Rightarrow> segment list" where
  "segments [] = []"
| "segments (c # s) =
     (if has_prefix (c # s) marker
      then (case str_index (drop 1 s) marker of
              Some (Suc k) \<Rightarrow> Fuzz (take (Suc k) (drop 1 s)) # segments (drop (Suc k + 2) (drop 1 s))
            | _ \<Rightarrow> Lit c # segments s)
      else Lit c # segments s)"
  by pat_completeness auto

termination
  by (relation "measure length") auto

declare segments.simps(2) [simp del]

text \<open>\<open>marker.FindAllString(template, -1)\<close>\<close>

definition find_markers :: "string \<Rightarrow> string list" where
  "find_markers t =
     concat (map (\<lambda>g. case g of Lit c \<Rightarrow> [] | Fuzz x \<Rightarrow> [marker @ x @ marker]) (segments t))"

definition baselines_of :: "string \<Rightarrow> string list" where
  "baselines_of t = map (\<lambda>p. trim_prefix (trim_suffix p marker) marker) (find_markers t)"

text \<open>\<open>substitute\<close>: the closure's counter \<open>i\<close> is an argument.\<close>

fun subst_segments :: "segment list \<Rightarrow> nat \<Rightarrow> string list \<Rightarrow> string" where
  "subst_segments [] i ps = []"
| "subst_segments (Lit c # gs) i ps = c # subst_segments gs i ps"
| "subst_segments (Fuzz x # gs) i ps =
     (if i < length ps then ps ! i else []) @ subst_segments gs (Suc i) ps"

definition substitute :: "string \<Rightarrow> string list \<Rightarrow> string" where
  "substitute t ps = subst_segments (segments t) 0 ps"

section \<open>Lemmas on transforms\<close>

lemma process_payload_append:
  "process_payload dg pl (r1 @ r2) = process_payload dg (process_payload dg pl r1) r2"
  by (simp add: process_payload_def)

text \<open>A rule the validator refuses would be skipped silently; it refuses exactly those.\<close>

lemma validate_accepts: "validate_process_rules rules = None \<longleftrightarrow> (\<forall>ru\<in>set rules. ru = [] \<or> known_rule ru)"
  by (induction rules) auto

lemma unknown_rule_skipped: "\<not> known_rule ru \<Longrightarrow> process_rule dg ru pl = pl"
  by (auto simp: known_rule_def process_rule_def)

text \<open>Bytes that cannot end a request line, a header or a fuzz point.\<close>

definition inert_char :: "char \<Rightarrow> bool" where
  "inert_char c \<longleftrightarrow> 32 < byte_val c \<and> byte_val c < 127"

definition encoding_rule :: "string \<Rightarrow> bool" where
  "encoding_rule ru \<longleftrightarrow>
     ru \<in> {''urlencode'', ''base64'', ''base64url'', ''hex'', ''md5'', ''sha1'', ''sha256''}"

lemma hex_chars_inert: "n < 16 \<Longrightarrow> inert_char (hex_char n) \<and> inert_char (hex_upper n)"
  by (auto simp: inert_char_def hex_char_def hex_upper_def)

lemma hex_encode_inert: "list_all inert_char (hex_encode s)"
  by (auto simp: list_all_iff hex_encode_def less_mult_imp_div_less
      intro!: conjunct1 [OF hex_chars_inert])

lemma query_escape_char_inert: "list_all inert_char (query_escape_char c)"
proof -
  have punct: "list_all inert_char ''-_.~%+''" by code_simp
  consider (same) "is_letter c \<or> is_digit c" | (punct) "c \<in> set ''-_.~''"
    | (other) "\<not> (is_letter c \<or> is_digit c \<or> c \<in> set ''-_.~'')" by blast
  then show ?thesis
  proof cases
    case same
    then have "inert_char c"
      by (auto simp: inert_char_def is_letter_def is_lower_letter_def is_digit_def)
    with same show ?thesis by (auto simp: query_escape_char_def)
  next
    case punct
    then show ?thesis
      using \<open>list_all inert_char ''-_.~%+''\<close> by (auto simp: query_escape_char_def)
  next
    case other
    have "inert_char (hex_upper (byte_val c div 16))" "inert_char (hex_upper (byte_val c mod 16))"
      using hex_chars_inert byte_val_less [of c] by (simp_all add: less_mult_imp_div_less)
    then show ?thesis using other punct by (simp add: query_escape_char_def)
  qed
qed

lemma query_escape_inert: "list_all inert_char (query_escape s)"
  using query_escape_char_inert by (simp add: query_escape_def list_all_iff)

lemma base64_digit_inert: "inert_char x \<Longrightarrow> inert_char y \<Longrightarrow> inert_char (base64_digit x y n)"
  by (auto simp: inert_char_def base64_digit_def)

lemma base64_encode_inert: "inert_char x \<Longrightarrow> inert_char y \<Longrightarrow> list_all inert_char (base64_encode x y s)"
  by (induction x y s rule: base64_encode.induct)
     (simp_all add: base64_digit_inert inert_char_def [of "CHR ''=''"] byte_val_def [of "CHR ''=''"])

lemma encoded_inert: "encoding_rule ru \<Longrightarrow> list_all inert_char (process_rule dg ru pl)"
  using base64_encode_inert [of "CHR ''+''" "CHR ''/''" pl] base64_encode_inert [of "CHR ''-''" "CHR ''_''" pl]
  by (auto simp: encoding_rule_def process_rule_def query_escape_inert hex_encode_inert
      inert_char_def byte_val_def)

section \<open>Templates\<close>

definition no_marker :: "string \<Rightarrow> bool" where
  "no_marker s \<longleftrightarrow> \<not> str_contains s marker"

text \<open>A template: literal text, then fuzz points with their baseline, each followed by text.\<close>

fun template_of :: "string \<Rightarrow> (string \<times> string) list \<Rightarrow> string" where
  "template_of l [] = l"
| "template_of l ((b, l') # fs) = l @ marker @ b @ marker @ template_of l' fs"

lemma no_marker_Cons: "no_marker (c # s) \<Longrightarrow> \<not> has_prefix (c # s) marker \<and> no_marker s"
  by (simp add: no_marker_def str_contains_Cons)

lemma no_marker_boundary:
  assumes "no_marker (c # l)" "s = [] \<or> has_prefix s marker"
  shows "\<not> has_prefix ((c # l) @ s) marker"
proof (cases l)
  case Nil
  then show ?thesis using assms(2) by (cases s) (auto simp: marker_def)
next
  case (Cons d l')
  then show ?thesis using no_marker_Cons [OF assms(1)] by (simp add: marker_def)
qed

lemma segments_literal:
  "no_marker l \<Longrightarrow> s = [] \<or> has_prefix s marker \<Longrightarrow> segments (l @ s) = map Lit l @ segments s"
proof (induction l)
  case (Cons c l)
  have "\<not> has_prefix (c # l @ s) marker" using no_marker_boundary Cons.prems by fastforce
  then show ?case
    using Cons no_marker_Cons [OF Cons.prems(1)] by (simp add: segments.simps(2))
qed simp

lemma str_index_marker: "no_marker b \<Longrightarrow> str_index (b @ marker @ r) marker = Some (length b)"
proof (induction b)
  case Nil
  then show ?case by (simp add: marker_def)
next
  case (Cons c b)
  have "\<not> has_prefix ((c # b) @ marker @ r) marker"
    by (rule no_marker_boundary [OF Cons.prems]) simp
  then show ?case using Cons no_marker_Cons [OF Cons.prems] by simp
qed

lemma segments_fuzz:
  assumes "b \<noteq> []" "no_marker b"
  shows "segments (marker @ b @ marker @ r) = Fuzz b # segments r"
proof -
  obtain k where k: "length b = Suc k" using assms(1) by (cases b) auto
  have pre: "has_prefix (CHR 0xC2 # CHR 0xA7 # b @ marker @ r) marker" by (simp add: marker_def)
  have rest: "drop (Suc k + 2) (b @ marker @ r) = r" using k by (simp add: marker_def)
  have "take (Suc k) (b @ marker @ r) = b" using k by simp
  with pre rest have "segments (CHR 0xC2 # CHR 0xA7 # b @ marker @ r) = Fuzz b # segments r"
    using str_index_marker [OF assms(2), of r] k by (subst segments.simps(2)) simp
  then show ?thesis by (simp add: marker_def)
qed

definition fields_ok :: "(string \<times> string) list \<Rightarrow> bool" where
  "fields_ok fs \<longleftrightarrow> (\<forall>(b, l)\<in>set fs. b \<noteq> [] \<and> no_marker b \<and> no_marker l)"

lemma segments_template:
  "no_marker l \<Longrightarrow> fields_ok fs \<Longrightarrow>
    segments (template_of l fs) = map Lit l @ concat (map (\<lambda>(b, l'). Fuzz b # map Lit l') fs)"
proof (induction l fs rule: template_of.induct)
  case (1 l)
  then show ?case using segments_literal [of l "[]"] by simp
next
  case (2 l b l' fs)
  then have "no_marker l'" "fields_ok fs" "b \<noteq> []" "no_marker b" by (auto simp: fields_ok_def)
  then show ?case using 2 by (simp add: segments_literal segments_fuzz)
qed

lemma subst_literals: "subst_segments (map Lit l @ gs) i ps = l @ subst_segments gs i ps"
  by (induction l) auto

lemma subst_fields:
  "length vs = length fs \<Longrightarrow>
    subst_segments (concat (map (\<lambda>(b, l'). Fuzz b # map Lit l') fs)) (length us) (us @ vs)
      = concat (map2 (\<lambda>(b, l') v. v @ l') fs vs)"
proof (induction fs arbitrary: us vs)
  case (Cons f fs)
  obtain b l' where f: "f = (b, l')" by fastforce
  obtain v vs' where vs: "vs = v # vs'" using Cons.prems by (cases vs) auto
  have "subst_segments (concat (map (\<lambda>(b, l'). Fuzz b # map Lit l') fs)) (Suc (length us)) (us @ v # vs')
      = concat (map2 (\<lambda>(b, l') v. v @ l') fs vs')"
    using Cons.IH [of vs' "us @ [v]"] Cons.prems vs by simp
  then show ?case by (simp add: f vs subst_literals nth_append)
qed simp

lemma find_markers_template:
  assumes "no_marker l" "fields_ok fs"
  shows "find_markers (template_of l fs) = map (\<lambda>(b, l'). marker @ b @ marker) fs"
proof -
  have lits: "concat (map (\<lambda>g. case g of Lit c \<Rightarrow> [] | Fuzz x \<Rightarrow> [marker @ x @ marker]) (map Lit l)) = []" for l
    by (induction l) auto
  have "concat (map (\<lambda>g. case g of Lit c \<Rightarrow> [] | Fuzz x \<Rightarrow> [marker @ x @ marker])
      (concat (map (\<lambda>(b, l'). Fuzz b # map Lit l') fs))) = map (\<lambda>(b, l'). marker @ b @ marker) fs" for fs
    by (induction fs) (auto simp: lits)
  then show ?thesis
    by (simp add: find_markers_def segments_template [OF assms] lits del: map_map)
qed

text \<open>
  Substitution fills the fuzz points and nothing else: for a template of literal texts and
  marked baselines, \<open>Start\<close> reads off the baselines in order, and substituting one value per
  point puts the values in place of the marked baselines, the literal text unchanged, whatever
  bytes the values hold (they are not scanned again).
\<close>

theorem substitute_fills_points:
  assumes "no_marker l" "fields_ok fs" "length vs = length fs"
  shows "baselines_of (template_of l fs) = map fst fs
    \<and> substitute (template_of l fs) vs = l @ concat (map2 (\<lambda>(b, l') v. v @ l') fs vs)"
proof -
  have "trim_prefix (trim_suffix (marker @ b @ marker) marker) marker = b" for b
  proof -
    have "has_suffix ((marker @ b) @ marker) marker" by (rule has_suffix_append)
    then have "trim_suffix (marker @ b @ marker) marker = marker @ b"
      by (simp add: trim_suffix_def)
    then show ?thesis by (simp add: trim_prefix_def)
  qed
  then have "baselines_of (template_of l fs) = map fst fs"
    by (simp add: baselines_of_def find_markers_template [OF assms(1,2)] case_prod_unfold)
  moreover have "substitute (template_of l fs) vs = l @ concat (map2 (\<lambda>(b, l') v. v @ l') fs vs)"
    using subst_fields [OF assms(3), of "[]"]
    by (simp add: substitute_def segments_template [OF assms(1,2)] subst_literals)
  ultimately show ?thesis by simp
qed

theorem substitute_fills_points_witness:
  "substitute (template_of ''GET /?id='' [(''1'', ''&n=''), (''x'', '' HTTP/1.1'')]) [''7'', marker]
     = ''GET /?id=7&n='' @ marker @ '' HTTP/1.1''
   \<and> baselines_of (template_of ''GET /?id='' [(''1'', ''&n=''), (''x'', '' HTTP/1.1'')]) = [''1'', ''x'']"
proof -
  have "no_marker ''GET /?id=''" "fields_ok [(''1'', ''&n=''), (''x'', '' HTTP/1.1'')]" by code_simp+
  from substitute_fills_points [OF this, of "[''7'', marker]"] show ?thesis by simp
qed

text \<open>An empty pair of markers is no fuzz point; it stays in the request as written.\<close>

lemma empty_markers_kept:
  "find_markers (''a'' @ marker @ marker @ ''b'') = []
   \<and> substitute (''a'' @ marker @ marker @ ''b'') [''v''] = ''a'' @ marker @ marker @ ''b''"
  by code_simp

end
