(* ===== verification/Numbers.thy ===== *)
theory Numbers
  imports GoBase "HOL-Library.Word"
begin

text \<open>
  The Numbers payload source of the intruder (\<open>internal/intruder/numbers.go\<close>):
  \<open>NumbersSpec\<close>, \<open>ExpandNumbers\<close>, \<open>expandSequence\<close>, \<open>expandRandom\<close> and
  \<open>formatNumber\<close>. An \<open>int64\<close> is a \<open>64 word\<close> read with \<open>sint\<close>, so that additions wrap as
  they do in Go; counts and widths (Go \<open>int\<close>) only bound loops and are \<open>int\<close>.

  The generator \<open>*rand.Rand\<close> is the record \<open>rng\<close>: \<open>rng_perm n\<close> answers \<open>Perm(n)\<close>, \<open>rng_below i n\<close>
  is the answer to the \<open>i\<close>-th call of \<open>Intn(n)\<close> or \<open>Int63n(n)\<close>. \<open>rng_ok\<close> is what
  \<open>math/rand\<close> documents of them. Drawing without replacement from a wide range repeats until
  enough different values came up: it is a \<open>partial_function\<close>, \<open>None\<close> meaning it never ends.
\<close>

type_synonym int64 = "64 word"

definition max_requests :: nat where
  "max_requests = 20000"

record numbers_spec =
  ns_start :: int64
  ns_end :: int64
  ns_step :: int64
  ns_mode :: string
  ns_count :: int
  ns_pad :: int
  ns_unique :: bool

datatype numbers_error = BadMode | ZeroStep | WrongDirection | NoCount | EmptyRange

record rng =
  rng_perm :: "nat \<Rightarrow> nat list"
  rng_below :: "nat \<Rightarrow> nat \<Rightarrow> nat"

definition rng_ok :: "rng \<Rightarrow> bool" where
  "rng_ok r \<longleftrightarrow> (\<forall>n. distinct (rng_perm r n) \<and> set (rng_perm r n) = {..<n})
     \<and> (\<forall>i n. 0 < n \<longrightarrow> rng_below r i n < n)"

section \<open>Formatting\<close>

function pad_left :: "int \<Rightarrow> string \<Rightarrow> string" where
  "pad_left pad s = (if int (length s) < pad then pad_left pad (CHR ''0'' # s) else s)"
  by pat_completeness auto

termination
  by (relation "measure (\<lambda>(pad, s). nat (pad - int (length s)))") auto

declare pad_left.simps [simp del]

definition format_number :: "int64 \<Rightarrow> int \<Rightarrow> string" where
  "format_number n pad =
     (if pad > 0
      then (let neg = n <s 0;
                s = (if neg then int_dec (sint (- n)) else int_dec (sint n));
                s = pad_left pad s
            in if neg then CHR ''-'' # s else s)
      else int_dec (sint n))"

section \<open>Sequences\<close>

function seq_loop :: "int64 \<Rightarrow> int64 \<Rightarrow> int \<Rightarrow> int64 \<Rightarrow> string list \<Rightarrow> string list" where
  "seq_loop step till pad n out =
     (let out = out @ [format_number n pad]
      in if length out \<ge> max_requests then out
         else (let n' = n + step
               in if (if 0 <s step then till <s n' else n' <s till) then out
                  else seq_loop step till pad n' out))"
  by pat_completeness auto

termination
  by (relation "measure (\<lambda>(_, _, _, _, out). max_requests - length out)") auto

declare seq_loop.simps [simp del]

definition expand_sequence :: "numbers_spec \<Rightarrow> numbers_error + string list" where
  "expand_sequence spec =
     (let step = (if ns_step spec = 0
                  then (if ns_end spec <s ns_start spec then - 1 else 1)
                  else ns_step spec)
      in if step = 0 then Inl ZeroStep
         else if (0 <s step \<and> ns_end spec <s ns_start spec)
               \<or> (step <s 0 \<and> ns_start spec <s ns_end spec) then Inl WrongDirection
         else Inr (seq_loop step (ns_end spec) (ns_pad spec) (ns_start spec) []))"

section \<open>Random draws\<close>

function lattice_loop :: "int64 \<Rightarrow> int64 \<Rightarrow> int64 \<Rightarrow> int64 list \<Rightarrow> int64 list" where
  "lattice_loop step hi n lattice =
     (if length lattice < max_requests \<and> n \<le>s hi
      then lattice_loop step hi (n + step) (lattice @ [n])
      else lattice)"
  by pat_completeness auto

termination
  by (relation "measure (\<lambda>(_, _, _, l). max_requests - length l)") auto

declare lattice_loop.simps [simp del]

text \<open>Without replacement from a wide range: draw until \<open>n\<close> different values were seen.\<close>

partial_function (option) draw_unique ::
  "rng \<Rightarrow> int64 \<Rightarrow> nat \<Rightarrow> nat \<Rightarrow> nat \<Rightarrow> int64 list \<Rightarrow> int64 list option" where
  "draw_unique r lo span n i out =
     (if length out < n
      then (let v = lo + of_nat (rng_below r i span)
            in draw_unique r lo span n (Suc i) (if v \<in> set out then out else out @ [v]))
      else Some out)"

declare draw_unique.simps [code]

definition random_values ::
  "rng \<Rightarrow> int64 \<Rightarrow> int64 \<Rightarrow> int64 list \<Rightarrow> nat \<Rightarrow> bool \<Rightarrow> (numbers_error + int64 list) option" where
  "random_values r lo hi lattice n unique =
     (let span = hi - lo + 1
      in if unique
         then if lattice \<noteq> []
              then (let n = min n (length lattice); perm = rng_perm r (length lattice)
                    in Some (Inr (map (\<lambda>i. lattice ! (perm ! i)) [0..<n])))
              else if span \<le>s 0 then Some (Inl EmptyRange)
              else (let n = (if sint span < int n then nat (sint span) else n)
                    in if sint span \<le> int max_requests
                       then (let perm = rng_perm r (nat (sint span))
                             in Some (Inr (map (\<lambda>i. lo + of_nat (perm ! i)) [0..<n])))
                       else map_option Inr (draw_unique r lo (nat (sint span)) n 0 []))
         else if lattice \<noteq> []
              then Some (Inr (map (\<lambda>i. lattice ! rng_below r i (length lattice)) [0..<n]))
              else if span \<le>s 0 then Some (Inl EmptyRange)
              else Some (Inr (map (\<lambda>i. lo + of_nat (rng_below r i (nat (sint span)))) [0..<n])))"

definition expand_random :: "rng \<Rightarrow> numbers_spec \<Rightarrow> (numbers_error + string list) option" where
  "expand_random r spec =
     (if ns_count spec \<le> 0 then Some (Inl NoCount)
      else (let lo = ns_start spec; hi = ns_end spec;
                (lo, hi) = (if hi <s lo then (hi, lo) else (lo, hi));
                step = ns_step spec;
                step = (if step <s 0 then - step else step);
                lattice = (if step \<noteq> 0 then lattice_loop step hi lo [] else [])
            in if step = 0 \<and> hi - lo + 1 \<le>s 0 then Some (Inl EmptyRange)
               else map_option (map_sum id (map (\<lambda>v. format_number v (ns_pad spec))))
                      (random_values r lo hi lattice
                        (min (nat (ns_count spec)) max_requests) (ns_unique spec))))"

definition expand_numbers :: "rng \<Rightarrow> numbers_spec \<Rightarrow> (numbers_error + string list) option" where
  "expand_numbers r spec =
     (let mode = (if ns_mode spec = [] then ''sequence'' else ns_mode spec)
      in if mode = ''sequence'' then Some (expand_sequence spec)
         else if mode = ''random'' then expand_random r spec
         else Some (Inl BadMode))"

section \<open>Lemmas\<close>

lemma sint_range64: "- (2 ^ 63) \<le> sint (x :: int64)" "sint (x :: int64) < 2 ^ 63"
  using sint_greater_eq [of x] sint_less [of x] by auto

lemma sint_of_int64: "- (2 ^ 63) \<le> i \<Longrightarrow> i < 2 ^ 63 \<Longrightarrow> sint (word_of_int i :: int64) = i"
  by (simp add: sint_sbintrunc' signed_take_bit_int_eq_self)

lemma sint_plus64:
  "- (2 ^ 63) \<le> sint x + sint y \<Longrightarrow> sint x + sint y < 2 ^ 63 \<Longrightarrow> sint (x + y :: int64) = sint x + sint y"
  using sint_of_int64 [of "sint x + sint y"] by simp

lemma sless_sint: "(x :: int64) <s y \<longleftrightarrow> sint x < sint y"
  by (simp add: word_sless_alt)

lemma sle_sint: "(x :: int64) \<le>s y \<longleftrightarrow> sint x \<le> sint y"
  by (simp add: word_sle_eq)

lemma seq_loop_prefix: "\<exists>t. seq_loop step till pad n out = out @ format_number n pad # t"
proof (induction step till pad n out rule: seq_loop.induct)
  case (1 step till pad n out)
  show ?case
  proof (cases "length (out @ [format_number n pad]) \<ge> max_requests
      \<or> (if 0 <s step then till <s n + step else n + step <s till)")
    case True
    then show ?thesis by (subst seq_loop.simps) (auto simp: Let_def)
  next
    case False
    then obtain t where "seq_loop step till pad (n + step) (out @ [format_number n pad])
        = (out @ [format_number n pad]) @ format_number (n + step) pad # t"
      using 1 [OF refl _ refl] by auto
    then show ?thesis using False by (subst seq_loop.simps) (simp add: Let_def)
  qed
qed

section \<open>Sequences count as written\<close>

lemma track_more:
  fixes d e n :: int
  assumes "0 < d \<and> n + d \<le> e \<or> d < 0 \<and> e \<le> n + d"
  shows "nat ((e - n) div d) = Suc (nat ((e - (n + d)) div d))"
proof -
  have "e - n = (e - (n + d)) + d" by simp
  then have "(e - n) div d = (e - (n + d)) div d + 1"
    using assms by (metis div_add_self2 less_irrefl)
  moreover have "0 \<le> (e - (n + d)) div d" using assms by (auto simp: div_int_pos_iff)
  ultimately show ?thesis by simp
qed

lemma track_last:
  fixes d e n :: int
  assumes "0 < d \<and> n \<le> e \<and> e < n + d \<or> d < 0 \<and> e \<le> n \<and> n + d < e"
  shows "(e - n) div d = 0"
  using assms by (auto simp: div_pos_pos_trivial div_neg_neg_trivial)

lemma map_upt_shift: "map f [0..<Suc m] = f 0 # map (\<lambda>k. f (Suc k)) [0..<m]"
  by (simp add: map_upt_Suc del: upt_Suc)

lemma seq_loop_values:
  assumes "0 < d \<and> sint n \<le> e \<or> d < 0 \<and> e \<le> sint n"
    and "sint step = d" "sint till = e" "- (2 ^ 63) \<le> e + d" "e + d < 2 ^ 63"
    and "length out < max_requests"
  shows "seq_loop step till pad n out = out @ map (\<lambda>k. format_number (word_of_int (sint n + int k * d)) pad)
           [0..<min (max_requests - length out) (Suc (nat ((e - sint n) div d)))]"
  using assms
proof (induction step till pad n out rule: seq_loop.induct)
  case (1 step till pad n out)
  note r = sint_range64 [of n]
  have next_sint: "sint (n + step) = sint n + d"
    using sint_plus64 [of n step] "1.prems"(1-5) r by auto
  have beyond: "(if 0 <s step then till <s n + step else n + step <s till)
      \<longleftrightarrow> (if 0 < d then e < sint n + d else sint n + d < e)"
    using "1.prems"(2,3) next_sint by (simp add: sless_sint)
  have zero: "word_of_int (sint n + int 0 * d) = n" by simp
  consider (cap) "max_requests \<le> length out + 1"
    | (last) "length out + 1 < max_requests" "if 0 < d then e < sint n + d else sint n + d < e"
    | (more) "length out + 1 < max_requests" "\<not> (if 0 < d then e < sint n + d else sint n + d < e)"
    by linarith
  then show ?case
  proof cases
    case cap
    then have "max_requests - length out = 1" using "1.prems"(6) by linarith
    then show ?thesis using cap by (subst seq_loop.simps) (simp add: Let_def)
  next
    case last
    have "(e - sint n) div d = 0"
      by (rule track_last) (use last(2) "1.prems"(1) in \<open>auto split: if_splits\<close>)
    moreover have "min (max_requests - length out) (Suc 0) = 1" using last(1) by simp
    ultimately show ?thesis using last beyond by (subst seq_loop.simps) (simp add: Let_def)
  next
    case more
    have dir: "0 < d \<and> sint n + d \<le> e \<or> d < 0 \<and> e \<le> sint n + d"
      using more(2) "1.prems"(1) by (auto split: if_splits)
    note count = track_more [OF this]
    have "max_requests - length out = Suc (max_requests - length (out @ [format_number n pad]))"
      using more(1) by simp
    then have m: "min (max_requests - length out) (Suc (nat ((e - sint n) div d)))
        = Suc (min (max_requests - length (out @ [format_number n pad]))
            (Suc (nat ((e - sint (n + step)) div d))))"
      by (simp add: count next_sint)
    have "seq_loop step till pad n out = seq_loop step till pad (n + step) (out @ [format_number n pad])"
      using more beyond by (subst seq_loop.simps) (simp add: Let_def)
    also have "\<dots> = (out @ [format_number n pad]) @ map (\<lambda>k. format_number
        (word_of_int (sint (n + step) + int k * d)) pad)
        [0..<min (max_requests - length (out @ [format_number n pad]))
          (Suc (nat ((e - sint (n + step)) div d)))]"
      by (rule "1.IH" [OF refl _ refl]) (use more beyond dir next_sint "1.prems" in auto)
    finally show ?thesis
      unfolding m map_upt_shift by (simp add: next_sint algebra_simps)
  qed
qed

definition seq_step :: "numbers_spec \<Rightarrow> int" where
  "seq_step spec =
     (if sint (ns_step spec) \<noteq> 0 then sint (ns_step spec)
      else if sint (ns_end spec) < sint (ns_start spec) then - 1 else 1)"

text \<open>
  A sequence counts as written: from the start value by the step (1 or -1 when none is
  given) to the end value inclusive, cut at the request limit, for every start, end and step whose
  direction agrees and for which one step past the end still is an \<open>int64\<close>.
\<close>

theorem sequence_counts:
  assumes "if 0 < seq_step spec then sint (ns_start spec) \<le> sint (ns_end spec)
             else sint (ns_end spec) \<le> sint (ns_start spec)"
    and "- (2 ^ 63) \<le> sint (ns_end spec) + seq_step spec" "sint (ns_end spec) + seq_step spec < 2 ^ 63"
  shows "expand_sequence spec = Inr (map
      (\<lambda>k. format_number (word_of_int (sint (ns_start spec) + int k * seq_step spec)) (ns_pad spec))
      [0..<min max_requests
        (Suc (nat ((sint (ns_end spec) - sint (ns_start spec)) div seq_step spec)))])"
proof -
  define step where "step = (if ns_step spec = 0
    then (if ns_end spec <s ns_start spec then - 1 else 1) else ns_step spec)"
  have eq: "sint step = seq_step spec"
    by (auto simp: step_def seq_step_def sless_sint signed_eq_0_iff)
  have nz: "step \<noteq> 0" by (simp add: step_def)
  then have "seq_step spec \<noteq> 0" using eq by (metis signed_eq_0_iff)
  have "expand_sequence spec = Inr (seq_loop step (ns_end spec) (ns_pad spec) (ns_start spec) [])"
    using assms(1) nz eq
    by (auto simp: expand_sequence_def step_def [symmetric] Let_def sless_sint split: if_splits)
  also have "seq_loop step (ns_end spec) (ns_pad spec) (ns_start spec) []
      = map (\<lambda>k. format_number (word_of_int (sint (ns_start spec) + int k * seq_step spec)) (ns_pad spec))
      [0..<min max_requests
        (Suc (nat ((sint (ns_end spec) - sint (ns_start spec)) div seq_step spec)))]"
    using seq_loop_values [OF _ eq refl assms(2,3), of "ns_start spec" "[]" "ns_pad spec"]
      assms(1) \<open>seq_step spec \<noteq> 0\<close>
    by (auto simp: max_requests_def split: if_splits)
  finally show ?thesis .
qed

definition demo_numbers :: numbers_spec where
  "demo_numbers = \<lparr>ns_start = 3, ns_end = - 4, ns_step = - 3, ns_mode = [], ns_count = 0,
     ns_pad = 2, ns_unique = False\<rparr>"

theorem sequence_counts_witness:
  "expand_sequence demo_numbers = Inr [''03'', ''00'', ''-03'']"
proof -
  have "expand_sequence demo_numbers = Inr (map
      (\<lambda>k. format_number (word_of_int (3 + int k * - 3)) 2) [0..<min max_requests 3])"
    using sequence_counts [of demo_numbers]
    by (simp add: demo_numbers_def seq_step_def numeral_3_eq_3)
  also have "map (\<lambda>k. format_number (word_of_int (3 + int k * - 3)) 2) [0..<min max_requests 3]
      = [''03'', ''00'', ''-03'']"
    by code_simp
  finally show ?thesis .
qed

lemma digit_chars:
  "digit_char 0 = CHR ''0''" "digit_char (Suc 0) = CHR ''1''" "digit_char 2 = CHR ''2''"
  "digit_char 3 = CHR ''3''" "digit_char 4 = CHR ''4''" "digit_char 5 = CHR ''5''"
  "digit_char 6 = CHR ''6''" "digit_char 7 = CHR ''7''" "digit_char 8 = CHR ''8''"
  "digit_char 9 = CHR ''9''"
  by code_simp+

text \<open>
  At the top of the range the addition wraps below the end value, so the loop goes on from the
  smallest \<open>int64\<close> up to the request limit.
\<close>

lemma sequence_wraps_at_maximum:
  "\<exists>rest. seq_loop 1 9223372036854775807 0 9223372036854775806 []
     = [''9223372036854775806'', ''9223372036854775807'', ''-9223372036854775808''] @ rest"
proof -
  have step: "seq_loop 1 till 0 n out = seq_loop 1 till 0 (n + 1) (out @ [format_number n 0])"
    if "\<not> till <s n + 1" "length out < 3" for n till out
    using that by (subst seq_loop.simps) (simp add: Let_def max_requests_def sless_sint)
  have "seq_loop 1 9223372036854775807 0 9223372036854775806 []
      = seq_loop 1 9223372036854775807 0 9223372036854775807 [format_number 9223372036854775806 0]"
    by (subst step) simp_all
  also have "\<dots> = seq_loop 1 9223372036854775807 0 9223372036854775808
      [format_number 9223372036854775806 0, format_number 9223372036854775807 0]"
    by (subst step) simp_all
  also have "\<exists>rest. \<dots> = [format_number 9223372036854775806 0, format_number 9223372036854775807 0]
      @ format_number 9223372036854775808 0 # rest"
    by (rule seq_loop_prefix)
  moreover have "format_number 9223372036854775806 0 = ''9223372036854775806''"
    "format_number 9223372036854775807 0 = ''9223372036854775807''"
    "format_number 9223372036854775808 0 = ''-9223372036854775808''"
    by (simp_all add: format_number_def int_dec_def nat_dec.simps digit_chars)
  ultimately show ?thesis by simp
qed

section \<open>Formatting parses back\<close>

lemma pad_left_zeros: "\<exists>k. pad_left pad s = replicate k (CHR ''0'') @ s"
proof (induction pad s rule: pad_left.induct)
  case (1 pad s)
  show ?case
  proof (cases "int (length s) < pad")
    case True
    then obtain k where "pad_left pad (CHR ''0'' # s) = replicate k (CHR ''0'') @ CHR ''0'' # s"
      using 1 by blast
    then have "pad_left pad s = replicate (Suc k) (CHR ''0'') @ s"
      using True by (subst pad_left.simps) (simp add: replicate_app_Cons_same)
    then show ?thesis by blast
  next
    case False
    then have "pad_left pad s = replicate 0 (CHR ''0'') @ s" by (subst pad_left.simps) simp
    then show ?thesis by blast
  qed
qed

lemma pad_left_length: "int (length (pad_left pad s)) = max pad (int (length s))"
proof (induction pad s rule: pad_left.induct)
  case (1 pad s)
  then show ?case by (subst pad_left.simps) auto
qed

lemma dec_value_zeros: "dec_value (replicate k (CHR ''0'') @ s) = dec_value s"
  by (induction k) (simp_all add: dec_value_def byte_val_def)

lemma atoi_padded:
  assumes "v < 2 ^ 63"
  shows "atoi (pad_left pad (nat_dec v)) = Some (int v)
    \<and> atoi (CHR ''-'' # pad_left pad (nat_dec v)) = Some (- int v)"
proof -
  obtain k where k: "pad_left pad (nat_dec v) = replicate k (CHR ''0'') @ nat_dec v"
    using pad_left_zeros by blast
  define s where "s = replicate k (CHR ''0'') @ nat_dec v"
  have digits: "list_all is_digit s"
    using nat_dec_digits [of v] by (auto simp: s_def list_all_iff is_digit_def byte_val_def)
  have s: "s \<noteq> []" "dec_value s = v" by (simp_all add: s_def dec_value_zeros)
  have "hd s \<noteq> CHR ''-''" "hd s \<noteq> CHR ''+''"
    using nat_dec_hd [of v] by (cases k; simp add: s_def)+
  then show ?thesis
    using assms digits s by (simp add: k s_def [symmetric] atoi_def Let_def)
qed

text \<open>
  Every number but the smallest \<open>int64\<close> is written so that \<open>strconv.Atoi\<close> reads the same
  number back, whatever zero padding is asked for, and the padded digits fill the width.
\<close>

theorem format_number_parses:
  assumes "- (2 ^ 63) < sint n"
  shows "atoi (format_number n pad) = Some (sint n)
    \<and> (0 < pad \<longrightarrow> pad \<le> int (length (format_number n pad)))"
proof (cases "0 < pad")
  case False
  then show ?thesis
    using atoi_int_dec [of "sint n"] sint_range64 [of n] by (simp add: format_number_def)
next
  case True
  have neg: "sint (- n) = - sint n" if "sint n < 0"
    using sint_of_int64 [of "- sint n"] assms that by simp
  show ?thesis
  proof (cases "sint n < 0")
    case True
    have "nat (- sint n) < 2 ^ 63" using assms by simp
    from atoi_padded [OF this, of pad] show ?thesis
      using True \<open>0 < pad\<close> neg pad_left_length [of pad "nat_dec (nat (- sint n))"]
      by (simp add: format_number_def sless_sint int_dec_def Let_def)
  next
    case False
    have "nat (sint n) < 2 ^ 63" using sint_range64(2) [of n] by simp
    from atoi_padded [OF this, of pad] show ?thesis
      using False \<open>0 < pad\<close> pad_left_length [of pad "nat_dec (nat (sint n))"]
      by (simp add: format_number_def sless_sint int_dec_def Let_def)
  qed
qed

theorem format_number_parses_witness:
  "format_number (- 42) 5 = ''-00042'' \<and> atoi (format_number (- 42) 5) = Some (- 42)"
proof -
  have "format_number (- 42) 5 = ''-00042''" by code_simp
  moreover have "sint (- 42 :: int64) = - 42" by simp
  ultimately show ?thesis using format_number_parses [of "- 42" 5] by simp
qed

text \<open>The smallest \<open>int64\<close> has no positive counterpart: with padding it gets two signs.\<close>

lemma format_minimum_two_signs:
  "format_number (- 9223372036854775808) 4 = ''--9223372036854775808''
   \<and> atoi (format_number (- 9223372036854775808) 4) = None"
proof -
  have "format_number (- 9223372036854775808) 4 = ''--9223372036854775808''"
    by (simp add: format_number_def int_dec_def nat_dec.simps digit_chars sless_sint
        pad_left.simps Let_def)
  then show ?thesis by (simp add: atoi_def is_digit_def byte_val_def Let_def)
qed

section \<open>Random draws stay in range\<close>

lemma rng_perm_facts:
  assumes "rng_ok r"
  shows "distinct (rng_perm r m)" "length (rng_perm r m) = m" "set (rng_perm r m) = {..<m}"
proof -
  show d: "distinct (rng_perm r m)" and s: "set (rng_perm r m) = {..<m}"
    using assms by (auto simp: rng_ok_def)
  show "length (rng_perm r m) = m" using distinct_card [OF d] by (simp add: s)
qed

lemma perm_pick: "n \<le> length p \<Longrightarrow> map (\<lambda>i. f (p ! i)) [0..<n] = map f (take n p)"
  by (intro nth_equalityI) auto

text \<open>A sample without replacement: different positions of a list of different values.\<close>

lemma perm_sample:
  assumes "rng_ok r" "inj_on f {..<m}" "n \<le> m"
  shows "distinct (map (\<lambda>i. f (rng_perm r m ! i)) [0..<n])"
    "set (map (\<lambda>i. f (rng_perm r m ! i)) [0..<n]) \<subseteq> f ` {..<m}"
proof -
  note p = rng_perm_facts [OF assms(1), of m]
  have eq: "map (\<lambda>i. f (rng_perm r m ! i)) [0..<n] = map f (take n (rng_perm r m))"
    using perm_pick [of n "rng_perm r m" f] p(2) assms(3) by simp
  have sub: "set (take n (rng_perm r m)) \<subseteq> {..<m}" using set_take_subset p(3) by fastforce
  show "distinct (map (\<lambda>i. f (rng_perm r m ! i)) [0..<n])"
    unfolding eq distinct_map using inj_on_subset [OF assms(2) sub] p(1) by simp
  show "set (map (\<lambda>i. f (rng_perm r m ! i)) [0..<n]) \<subseteq> f ` {..<m}"
    unfolding eq using sub by (simp only: set_map image_mono)
qed

definition in_grid :: "int \<Rightarrow> int \<Rightarrow> int \<Rightarrow> int64 \<Rightarrow> bool" where
  "in_grid lo hi d v \<longleftrightarrow> lo \<le> sint v \<and> sint v \<le> hi \<and> d dvd sint v - lo"

lemma lattice_loop_grid:
  assumes "0 < sint step" "sint hi + sint step < 2 ^ 63" "sint step dvd sint n - lo" "lo \<le> sint n"
    and "distinct l" "\<forall>v\<in>set l. in_grid lo (sint hi) (sint step) v \<and> sint v < sint n"
  shows "distinct (lattice_loop step hi n l)
    \<and> (\<forall>v\<in>set (lattice_loop step hi n l). in_grid lo (sint hi) (sint step) v)
    \<and> (l \<noteq> [] \<or> sint n \<le> sint hi \<longrightarrow> lattice_loop step hi n l \<noteq> [])"
  using assms
proof (induction step hi n l rule: lattice_loop.induct)
  case (1 step hi n l)
  show ?case
  proof (cases "length l < max_requests \<and> n \<le>s hi")
    case True
    then have le: "sint n \<le> sint hi" by (simp add: sle_sint)
    have next_sint: "sint (n + step) = sint n + sint step"
      using sint_plus64 [of n step] "1.prems"(1,2) le sint_range64(1) [of n] by simp
    have "sint step dvd sint (n + step) - lo"
    proof -
      have "sint step dvd (sint n - lo) + sint step" using "1.prems"(3) by simp
      then show ?thesis by (simp add: next_sint algebra_simps)
    qed
    moreover have "\<forall>v\<in>set (l @ [n]). in_grid lo (sint hi) (sint step) v \<and> sint v < sint (n + step)"
      using "1.prems" le next_sint by (auto simp: in_grid_def)
    moreover have "distinct (l @ [n])" using "1.prems"(5,6) by auto
    moreover have "lo \<le> sint (n + step)" using "1.prems"(1,4) next_sint by simp
    ultimately have "distinct (lattice_loop step hi (n + step) (l @ [n]))
      \<and> (\<forall>v\<in>set (lattice_loop step hi (n + step) (l @ [n])). in_grid lo (sint hi) (sint step) v)
      \<and> lattice_loop step hi (n + step) (l @ [n]) \<noteq> []"
      using "1.IH" [OF True] "1.prems"(1,2) by blast
    moreover have "lattice_loop step hi n l = lattice_loop step hi (n + step) (l @ [n])"
      using True by (subst lattice_loop.simps) simp
    ultimately show ?thesis by simp
  next
    case False
    have "lattice_loop step hi n l = l" by (subst lattice_loop.simps) (simp only: False if_False)
    moreover have "sint n \<le> sint hi \<Longrightarrow> l \<noteq> []"
      using False by (auto simp: sle_sint max_requests_def)
    ultimately show ?thesis using "1.prems" by auto
  qed
qed

lemma mod_below_twice:
  fixes x m :: int
  assumes "0 \<le> x" "x < 2 * m"
  shows "x mod m = (if x < m then x else x - m)"
proof (cases "x < m")
  case False
  have "x mod m = (x - m) mod m" by simp
  also have "\<dots> = x - m" using False assms by (intro mod_pos_pos_trivial) auto
  finally show ?thesis using False by simp
qed (use assms in simp)

lemma span_exact:
  fixes lo hi :: int64
  assumes "sint lo \<le> sint hi" "0 < sint (hi - lo + 1)"
  shows "sint (hi - lo + 1) = sint hi - sint lo + 1"
proof -
  have w: "hi - lo + 1 = (word_of_int (sint hi - sint lo + 1) :: int64)" by simp
  have s: "sint (hi - lo + 1) = (sint hi - sint lo + 1 + 2 ^ 63) mod 2 ^ 64 - 2 ^ 63"
    unfolding w int_word_sint by simp
  show ?thesis
    using mod_below_twice [of "sint hi - sint lo + 1 + 2 ^ 63" "2 ^ 64"] s assms
      sint_range64 [of lo] sint_range64 [of hi]
    by (simp split: if_splits)
qed

lemma offset_sint:
  fixes lo hi :: int64
  assumes "sint lo \<le> sint hi" "int k \<le> sint hi - sint lo"
  shows "sint (lo + of_nat k :: int64) = sint lo + int k"
proof -
  note r = sint_range64 [of lo] sint_range64 [of hi]
  have "lo + of_nat k = word_of_int (sint lo + int k)" by simp
  then show ?thesis using sint_of_int64 [of "sint lo + int k"] assms r by simp
qed

lemma draw_unique_sound:
  "draw_unique r lo span n i out = Some vs \<Longrightarrow> distinct out \<Longrightarrow> length out \<le> n
    \<Longrightarrow> \<forall>v\<in>set out. P v \<Longrightarrow> \<forall>j. P (lo + of_nat (rng_below r j span))
    \<Longrightarrow> distinct vs \<and> length vs = n \<and> (\<forall>v\<in>set vs. P v)"
proof (induction r lo span n i out vs rule: draw_unique.raw_induct [rotated, consumes 1, case_names draw])
  case (draw f r lo span n i out vs)
  show ?case
  proof (cases "length out < n")
    case True
    define out' where "out' = (if lo + of_nat (rng_below r i span) \<in> set out then out
      else out @ [lo + of_nat (rng_below r i span)])"
    have "f r lo span n (Suc i) out' = Some vs"
      using draw(2) True by (simp add: out'_def Let_def)
    moreover have "distinct out'" "length out' \<le> n" "\<forall>v\<in>set out'. P v"
      using draw(3-6) True by (auto simp: out'_def)
    ultimately show ?thesis by (rule draw(1)) (rule draw(6))
  next
    case False
    then have "vs = out" using draw(2) by simp
    then show ?thesis using draw(3-5) False by simp
  qed
qed

lemma offsets_grid:
  fixes lo hi :: int64
  assumes "sint lo \<le> sint hi" "int k \<le> sint hi - sint lo"
  shows "in_grid (sint lo) (sint hi) 1 (lo + of_nat k)"
  using offset_sint [OF assms] assms by (simp add: in_grid_def)

lemma offsets_inj:
  fixes lo hi :: int64
  assumes "sint lo \<le> sint hi" "int m \<le> sint hi - sint lo + 1"
  shows "inj_on (\<lambda>k. lo + of_nat k) {..<m}"
proof (rule inj_onI)
  fix j k assume jk: "j \<in> {..<m}" "k \<in> {..<m}" "lo + of_nat j = lo + of_nat k"
  then have "int j \<le> sint hi - sint lo" "int k \<le> sint hi - sint lo" using assms(2) by auto
  then have "sint lo + int j = sint lo + int k"
    using offset_sint [OF assms(1)] jk(3) by metis
  then show "j = k" by simp
qed

lemma random_values_sound:
  assumes "rng_ok r" "sint lo \<le> sint hi"
    and eq: "random_values r lo hi lattice n unique = Some (Inr vs)"
    and lattice: "distinct lattice" "\<forall>v\<in>set lattice. in_grid (sint lo) (sint hi) d v" "lattice = [] \<Longrightarrow> d = 1"
  shows "length vs \<le> n \<and> (\<forall>v\<in>set vs. in_grid (sint lo) (sint hi) d v)
    \<and> (unique \<longrightarrow> distinct vs) \<and> (\<not> unique \<longrightarrow> length vs = n)"
proof (cases "lattice = []")
  case False
  have nth: "in_grid (sint lo) (sint hi) d (lattice ! i)" if "i < length lattice" for i
    using lattice(2) that by simp
  have inj: "inj_on ((!) lattice) {..<length lattice}"
    using lattice(1) by (simp add: inj_on_def nth_eq_iff_index_eq)
  have below: "rng_below r i (length lattice) < length lattice" for i
    using assms(1) False by (simp add: rng_ok_def)
  show ?thesis
  proof (cases unique)
    case True
    then have vs: "vs = map (\<lambda>i. lattice ! (rng_perm r (length lattice) ! i)) [0..<min n (length lattice)]"
      using eq False by (simp add: random_values_def Let_def)
    have "set vs \<subseteq> (!) lattice ` {..<length lattice}" "distinct vs"
      using perm_sample [OF assms(1) inj, of "min n (length lattice)"] by (simp_all add: vs)
    then show ?thesis using True nth by (fastforce simp: vs)
  next
    case nu: False
    then show ?thesis using eq False nth below by (auto simp: random_values_def Let_def)
  qed
next
  case True
  define span where "span = hi - lo + 1"
  have pos: "0 < sint span"
    using eq True by (auto simp: random_values_def span_def [symmetric] sle_sint Let_def
        split: if_splits)
  have span: "sint span = sint hi - sint lo + 1"
    using span_exact [OF assms(2)] pos by (simp add: span_def)
  have grid: "in_grid (sint lo) (sint hi) d (lo + of_nat k)" if "k < nat (sint span)" for k
  proof -
    have "int k \<le> sint hi - sint lo" using that span by linarith
    then show ?thesis using offsets_grid [OF assms(2)] lattice(3) True by simp
  qed
  have inj: "inj_on (\<lambda>k. lo + of_nat k) {..<nat (sint span)}"
    by (rule offsets_inj [OF assms(2)]) (use span pos in simp)
  have below: "rng_below r i (nat (sint span)) < nat (sint span)" for i
    using assms(1) pos by (simp add: rng_ok_def)
  define n' where "n' = (if sint span < int n then nat (sint span) else n)"
  have n': "n' \<le> n" "n' \<le> nat (sint span)" using pos by (auto simp: n'_def)
  consider (repl) "\<not> unique" | (pool) "unique" "sint span \<le> int max_requests"
    | (draw) "unique" "\<not> sint span \<le> int max_requests" by blast
  then show ?thesis
  proof cases
    case repl
    then show ?thesis
      using eq True grid below pos
      by (auto simp: random_values_def span_def [symmetric] sle_sint Let_def)
  next
    case pool
    then have vs: "vs = map (\<lambda>i. lo + of_nat (rng_perm r (nat (sint span)) ! i)) [0..<n']"
      using eq True pos
      by (simp add: random_values_def span_def [symmetric] n'_def [symmetric] sle_sint Let_def)
    have "set vs \<subseteq> (\<lambda>k. lo + of_nat k) ` {..<nat (sint span)}" "distinct vs"
      using perm_sample [OF assms(1) inj n'(2)] by (simp_all only: vs)
    then show ?thesis using pool grid n'(1) by (fastforce simp: vs)
  next
    case draw
    then have vs: "draw_unique r lo (nat (sint span)) n' 0 [] = Some vs"
      using eq True pos
      by (simp add: random_values_def span_def [symmetric] n'_def [symmetric] sle_sint Let_def)
    show ?thesis
      using draw_unique_sound [OF vs, of "in_grid (sint lo) (sint hi) d"] grid below n'(1) draw by simp
  qed
qed

text \<open>The ends in order, the size of the step and the grid of a random draw.\<close>

definition rs_lo :: "numbers_spec \<Rightarrow> int64" where
  "rs_lo spec = (if ns_end spec <s ns_start spec then ns_end spec else ns_start spec)"

definition rs_hi :: "numbers_spec \<Rightarrow> int64" where
  "rs_hi spec = (if ns_end spec <s ns_start spec then ns_start spec else ns_end spec)"

definition rs_step :: "numbers_spec \<Rightarrow> int64" where
  "rs_step spec = (if ns_step spec <s 0 then - ns_step spec else ns_step spec)"

definition rs_lattice :: "numbers_spec \<Rightarrow> int64 list" where
  "rs_lattice spec =
     (if rs_step spec \<noteq> 0 then lattice_loop (rs_step spec) (rs_hi spec) (rs_lo spec) [] else [])"

lemma expand_random_ends:
  "expand_random r spec =
     (if ns_count spec \<le> 0 then Some (Inl NoCount)
      else if rs_step spec = 0 \<and> rs_hi spec - rs_lo spec + 1 \<le>s 0 then Some (Inl EmptyRange)
      else map_option (map_sum id (map (\<lambda>v. format_number v (ns_pad spec))))
             (random_values r (rs_lo spec) (rs_hi spec) (rs_lattice spec)
               (min (nat (ns_count spec)) max_requests) (ns_unique spec)))"
  by (simp add: expand_random_def rs_lo_def rs_hi_def rs_step_def rs_lattice_def Let_def)

lemma rs_ends:
  "sint (rs_lo spec) = min (sint (ns_start spec)) (sint (ns_end spec))"
  "sint (rs_hi spec) = max (sint (ns_start spec)) (sint (ns_end spec))"
  "sint (rs_lo spec) \<le> sint (rs_hi spec)"
  by (simp_all add: rs_lo_def rs_hi_def sless_sint)

lemma rs_step_abs:
  assumes "- (2 ^ 63) < sint (ns_step spec)"
  shows "sint (rs_step spec) = \<bar>sint (ns_step spec)\<bar>"
proof -
  have "sint (- ns_step spec) = - sint (ns_step spec)" if "sint (ns_step spec) < 0"
    using sint_of_int64 [of "- sint (ns_step spec)"] assms that by simp
  then show ?thesis by (simp add: rs_step_def sless_sint)
qed

lemma rs_step_zero: "rs_step spec = 0 \<longleftrightarrow> ns_step spec = 0"
  by (simp add: rs_step_def)

lemma rs_lattice_grid:
  assumes "- (2 ^ 63) < sint (ns_step spec)" "sint (rs_hi spec) + \<bar>sint (ns_step spec)\<bar> < 2 ^ 63"
  shows "distinct (rs_lattice spec)
    \<and> (\<forall>v\<in>set (rs_lattice spec). in_grid (sint (rs_lo spec)) (sint (rs_hi spec)) \<bar>sint (ns_step spec)\<bar> v)
    \<and> (rs_lattice spec = [] \<longleftrightarrow> ns_step spec = 0)"
proof (cases "ns_step spec = 0")
  case True
  then show ?thesis by (simp add: rs_lattice_def rs_step_zero)
next
  case False
  then have "0 < sint (rs_step spec)"
    unfolding rs_step_abs [OF assms(1)] by (simp add: signed_eq_0_iff)
  from lattice_loop_grid [OF this, of "rs_hi spec" "rs_lo spec" "sint (rs_lo spec)" "[]"]
  show ?thesis
    using False rs_step_zero [of spec] rs_step_abs [OF assms(1)] assms(2) rs_ends(3) [of spec]
    by (simp add: rs_lattice_def)
qed

text \<open>
  Random numbers respect their bounds: when the draw succeeds, every payload is the text of
  a number between the two ends (in either order), a multiple of the step away from the lower one
  when a step is given; there are as many as asked for up to the request limit, or fewer but all
  different when they are to be unique. One step past the upper end must still be an \<open>int64\<close>.
\<close>

theorem random_draws:
  assumes "rng_ok r" "expand_random r spec = Some (Inr out)"
    and "- (2 ^ 63) < sint (ns_step spec)"
    and "max (sint (ns_start spec)) (sint (ns_end spec)) + \<bar>sint (ns_step spec)\<bar> < 2 ^ 63"
  shows "\<exists>vs. out = map (\<lambda>v. format_number v (ns_pad spec)) vs
    \<and> (\<forall>v\<in>set vs. in_grid (min (sint (ns_start spec)) (sint (ns_end spec)))
          (max (sint (ns_start spec)) (sint (ns_end spec)))
          (if ns_step spec = 0 then 1 else \<bar>sint (ns_step spec)\<bar>) v)
    \<and> length vs \<le> min (nat (ns_count spec)) max_requests
    \<and> (if ns_unique spec then distinct vs
       else length vs = min (nat (ns_count spec)) max_requests)"
proof -
  define d where "d = (if ns_step spec = 0 then 1 else \<bar>sint (ns_step spec)\<bar>)"
  have "sint (rs_hi spec) + \<bar>sint (ns_step spec)\<bar> < 2 ^ 63" using assms(4) rs_ends by simp
  note l = rs_lattice_grid [OF assms(3) this]
  have grid: "distinct (rs_lattice spec)"
    "\<forall>v\<in>set (rs_lattice spec). in_grid (sint (rs_lo spec)) (sint (rs_hi spec)) d v"
    "rs_lattice spec = [] \<Longrightarrow> d = 1"
    using l by (auto simp: d_def)
  obtain z where z: "random_values r (rs_lo spec) (rs_hi spec) (rs_lattice spec)
        (min (nat (ns_count spec)) max_requests) (ns_unique spec) = Some z"
      "map_sum id (map (\<lambda>v. format_number v (ns_pad spec))) z = Inr out"
    using assms(2) by (auto simp: expand_random_ends split: if_splits)
  then obtain vs where vs: "z = Inr vs" "out = map (\<lambda>v. format_number v (ns_pad spec)) vs"
    by (cases z) auto
  show ?thesis
    using random_values_sound [OF assms(1) rs_ends(3) z(1) [unfolded vs(1)] grid] vs(2)
    unfolding rs_ends(1,2) d_def by auto
qed

definition demo_rng :: rng where
  "demo_rng = \<lparr>rng_perm = (\<lambda>n. rev [0..<n]), rng_below = (\<lambda>i n. i mod n)\<rparr>"

definition demo_random :: numbers_spec where
  "demo_random = \<lparr>ns_start = 20, ns_end = 5, ns_step = - 5, ns_mode = ''random'', ns_count = 3,
     ns_pad = 0, ns_unique = True\<rparr>"

theorem random_draws_witness:
  "expand_numbers demo_rng demo_random = Some (Inr [''20'', ''15'', ''10''])
   \<and> (\<exists>vs. [''20'', ''15'', ''10''] = map (\<lambda>v. format_number v 0) vs \<and> distinct vs \<and> length vs \<le> 3)"
proof -
  have ok: "rng_ok demo_rng" by (auto simp: rng_ok_def demo_rng_def)
  have "rs_lattice demo_random = [5, 10, 15, 20]"
    by (simp add: rs_lattice_def rs_step_def rs_hi_def rs_lo_def demo_random_def lattice_loop.simps
        max_requests_def sle_sint sless_sint)
  moreover have "rs_step demo_random \<noteq> 0"
    by (simp add: rs_step_def demo_random_def)
  moreover have "rng_perm demo_rng (Suc (Suc (Suc (Suc 0)))) = [3, 2, 1, 0]"
    by (simp add: demo_rng_def upt_conv_Cons eval_nat_numeral)
  moreover have "[0..<3] = [0, Suc 0, 2]" by (simp add: upt_conv_Cons eval_nat_numeral)
  moreover have "min (nat (ns_count demo_random)) max_requests = 3"
    by (simp add: demo_random_def max_requests_def)
  ultimately have "random_values demo_rng (rs_lo demo_random) (rs_hi demo_random)
      (rs_lattice demo_random) 3 True = Some (Inr [20, 15, 10])"
    and "\<not> (rs_step demo_random = 0)" "min (nat (ns_count demo_random)) max_requests = 3"
    by (simp_all add: random_values_def Let_def del: upt_rec_numeral)
  then have "expand_random demo_rng demo_random
      = Some (Inr (map (\<lambda>v. format_number v 0) [20, 15, 10]))"
    by (simp add: expand_random_ends) (simp add: demo_random_def)
  moreover have "map (\<lambda>v. format_number v 0) [20, 15, 10] = [''20'', ''15'', ''10'']" by code_simp
  ultimately have run: "expand_random demo_rng demo_random = Some (Inr [''20'', ''15'', ''10''])"
    by simp
  have "\<exists>vs. [''20'', ''15'', ''10''] = map (\<lambda>v. format_number v 0) vs \<and> distinct vs \<and> length vs \<le> 3"
  proof -
    have "- (2 ^ 63) < sint (ns_step demo_random)"
      "max (sint (ns_start demo_random)) (sint (ns_end demo_random)) + \<bar>sint (ns_step demo_random)\<bar> < 2 ^ 63"
      by (simp_all add: demo_random_def)
    from random_draws [OF ok run this] show ?thesis
      by (elim ex_forward) (simp add: demo_random_def del: map_eq_Cons_conv)
  qed
  moreover have "expand_numbers demo_rng demo_random = Some (Inr [''20'', ''15'', ''10''])"
  proof -
    have "ns_mode demo_random = ''random''" by (simp add: demo_random_def)
    then show ?thesis by (simp add: expand_numbers_def run)
  qed
  ultimately show ?thesis by simp
qed

lemma lattice_loop_keeps: "l \<noteq> [] \<Longrightarrow> lattice_loop step hi n l \<noteq> []"
proof (induction step hi n l rule: lattice_loop.induct)
  case (1 step hi n l)
  then show ?case by (subst lattice_loop.simps) simp
qed

lemma random_returns:
  assumes "\<not> (ns_unique spec \<and> ns_step spec = 0)"
  shows "expand_random r spec \<noteq> None"
proof (cases "ns_unique spec")
  case True
  then have step: "rs_step spec \<noteq> 0" using assms by (simp add: rs_step_zero)
  have "rs_lattice spec \<noteq> []"
    using step rs_ends(3) [of spec]
    by (simp add: rs_lattice_def)
       (subst lattice_loop.simps, simp add: sle_sint max_requests_def lattice_loop_keeps)
  then show ?thesis
    using True step by (simp add: expand_random_ends random_values_def Let_def)
qed (simp add: expand_random_ends random_values_def Let_def)

end
