(* ===== verification/Jobs.thy ===== *)
theory Jobs
  imports Payload Numbers
begin

text \<open>
  The job list of an attack (\<open>internal/intruder/intruder.go\<close>): \<open>Spec\<close>, \<open>job\<close>,
  \<open>normalizeAttackType\<close> and \<open>buildJobs\<close> with its closure \<open>add\<close>, which refuses a job once the request
  limit is reached. The pair of the named results (\<open>jobs\<close>, \<open>capped\<close>) is the state of the loops;
  each loop stops at the first refusal. The loops that count are \<open>count_loop\<close>, the
  odometer of the cluster bomb is \<open>odometer\<close> inside \<open>cluster_loop\<close>. An index out of range is the
  value \<open>None\<close> of \<open>build_jobs\<close>.

  \<open>attack_jobs\<close> is the reference: what each attack type enumerates, without a limit.
\<close>

section \<open>Data\<close>

record attack_spec =
  as_target :: string
  as_template :: string
  as_attack :: string
  as_payloads :: "string list list"
  as_repeat :: int
  as_threads :: int
  as_delay_ms :: int
  as_max_backoff_ms :: int
  as_grep_match :: string
  as_grep_extract :: string
  as_match_rules :: "string list"
  as_extract_rules :: "string list"
  as_process_rules :: "string list"
  as_extra_flags :: int
  as_barrier :: bool

record job =
  job_label :: string
  job_payloads :: "string list"

type_synonym jobs_state = "job list \<times> bool"

definition normalize_attack_type :: "string \<Rightarrow> string" where
  "normalize_attack_type t =
     (let t = to_lower (trim_space t)
      in if t = ''null'' \<or> t = ''repeat'' then ''repeat''
         else if t = ''sniper'' then ''sniper''
         else if t = ''pitchfork'' then ''pitchfork''
         else if t = ''battering'' \<or> t = ''batteringram'' then ''battering''
         else if t = ''cluster'' \<or> t = ''clusterbomb'' then ''cluster''
         else [])"

section \<open>The loops\<close>

text \<open>\<open>add\<close>: the new state and whether the job was taken.\<close>

definition add_job :: "job \<Rightarrow> jobs_state \<Rightarrow> jobs_state \<times> bool" where
  "add_job j st =
     (let (jobs, capped) = st
      in if length jobs \<ge> max_requests then ((jobs, True), False)
         else ((jobs @ [j], capped), True))"

text \<open>\<open>for _, x := range xs { if !add(...) { break } }\<close>\<close>

fun add_each :: "job list \<Rightarrow> jobs_state \<Rightarrow> jobs_state \<times> bool" where
  "add_each [] st = (st, True)"
| "add_each (j # js) st = (let (st', ok) = add_job j st in if ok then add_each js st' else (st', False))"

definition label_sep :: string where
  "label_sep = [CHR '' '', CHR 0xC2, CHR 0xB7, CHR '' '']"

definition repeat_job :: "string list \<Rightarrow> nat \<Rightarrow> job" where
  "repeat_job baselines k = \<lparr>job_label = CHR ''#'' # nat_dec (k + 1), job_payloads = baselines\<rparr>"

text \<open>The counting loops of the repeat and the pitchfork attack.\<close>

function count_loop :: "(nat \<Rightarrow> job) \<Rightarrow> nat \<Rightarrow> nat \<Rightarrow> jobs_state \<Rightarrow> jobs_state" where
  "count_loop f n k st =
     (if k < n
      then (let (st', ok) = add_job (f k) st in if ok then count_loop f n (Suc k) st' else st')
      else st)"
  by pat_completeness auto

termination
  by (relation "measure (\<lambda>(_, n, k, _). n - k)") auto

declare count_loop.simps [simp del]

definition pitch_job ::
  "digests \<Rightarrow> string list \<Rightarrow> string list list \<Rightarrow> nat \<Rightarrow> string list \<Rightarrow> nat \<Rightarrow> job" where
  "pitch_job dg rules ls n_pos baselines k =
     (let orig = (\<lambda>i. if i < length ls then ls ! i ! k else baselines ! i)
      in \<lparr>job_label = str_join label_sep (map orig [0..<n_pos]),
          job_payloads = map (\<lambda>i. if i < length ls then process_payload dg (orig i) rules
                                  else orig i) [0..<n_pos]\<rparr>)"

definition battering_job :: "digests \<Rightarrow> string list \<Rightarrow> nat \<Rightarrow> string \<Rightarrow> job" where
  "battering_job dg rules n_pos pl =
     \<lparr>job_label = pl, job_payloads = replicate n_pos (process_payload dg pl rules)\<rparr>"

definition cluster_job :: "digests \<Rightarrow> string list \<Rightarrow> string list \<Rightarrow> job" where
  "cluster_job dg rules origs =
     \<lparr>job_label = str_join label_sep origs, job_payloads = map (\<lambda>pl. process_payload dg pl rules) origs\<rparr>"

text \<open>Advance the odometer: the digits \<open>i - 1, ..., 0\<close> are still to be looked at.\<close>

fun odometer :: "nat list \<Rightarrow> nat \<Rightarrow> nat list \<Rightarrow> nat list \<times> bool" where
  "odometer lens 0 idx = (idx, True)"
| "odometer lens (Suc i) idx =
     (let idx = idx[i := idx ! i + 1]
      in if idx ! i < lens ! i then (idx, False) else odometer lens i (idx[i := 0]))"

function cluster_loop ::
  "(nat list \<Rightarrow> job) \<Rightarrow> nat list \<Rightarrow> nat list \<Rightarrow> jobs_state \<Rightarrow> jobs_state" where
  "cluster_loop f lens idx st =
     (let (st', ok) = add_job (f idx) st
      in if ok
         then (let (idx', carried) = odometer lens (length idx) idx
               in if carried then st' else cluster_loop f lens idx' st')
         else st')"
  by pat_completeness auto

termination
  by (relation "measure (\<lambda>(_, _, _, st). max_requests - length (fst st))")
     (auto simp: add_job_def split: prod.splits if_splits)

declare cluster_loop.simps [simp del]

definition sniper_job :: "digests \<Rightarrow> string list \<Rightarrow> string list \<Rightarrow> nat \<Rightarrow> string \<Rightarrow> job" where
  "sniper_job dg rules baselines pos pl =
     \<lparr>job_label = pl, job_payloads = baselines[pos := process_payload dg pl rules]\<rparr>"

function sniper_loop ::
  "(nat \<Rightarrow> job list) \<Rightarrow> nat \<Rightarrow> nat \<Rightarrow> jobs_state \<Rightarrow> jobs_state" where
  "sniper_loop f n_pos pos st =
     (if pos < n_pos
      then (let (st', ok) = add_each (f pos) st
            in if ok then sniper_loop f n_pos (Suc pos) st' else st')
      else st)"
  by pat_completeness auto

termination
  by (relation "measure (\<lambda>(_, n, pos, _). n - pos)") auto

declare sniper_loop.simps [simp del]

section \<open>Building the list\<close>

text \<open>The lists a cluster bomb combines: missing ones stand still at the baseline.\<close>

definition cluster_lists :: "string list list \<Rightarrow> nat \<Rightarrow> string list \<Rightarrow> string list list" where
  "cluster_lists ls n_pos baselines =
     (if length ls < n_pos
      then ls @ map (\<lambda>i. [baselines ! i]) [length ls..<n_pos]
      else if length ls > n_pos then take n_pos ls else ls)"

definition build_jobs :: "digests \<Rightarrow> attack_spec \<Rightarrow> nat \<Rightarrow> string list \<Rightarrow> jobs_state option" where
  "build_jobs dg spec n_pos baselines =
     (let rules = as_process_rules spec; st = ([], False)
      in if as_attack spec = ''repeat''
         then Some (count_loop (repeat_job baselines) (nat (as_repeat spec)) 0 st)
         else if as_attack spec = ''pitchfork''
         then (let ls = (if length (as_payloads spec) > n_pos then take n_pos (as_payloads spec)
                            else as_payloads spec)
               in if ls = [] then None
                  else (let n = foldl (\<lambda>n list. if length list < n then length list else n)
                                  (length (hd ls)) ls
                        in Some (count_loop (pitch_job dg rules ls n_pos baselines) n 0 st)))
         else if as_attack spec = ''battering'' \<or> as_attack spec = ''batteringram''
         then (if as_payloads spec = [] then None
               else Some (fst (add_each
                      (map (battering_job dg rules n_pos) (hd (as_payloads spec))) st)))
         else if as_attack spec = ''cluster'' \<or> as_attack spec = ''clusterbomb''
         then (let ls = cluster_lists (as_payloads spec) n_pos baselines
               in if list_ex (\<lambda>l. l = []) ls then None
                  else Some (cluster_loop
                         (\<lambda>idx. cluster_job dg rules (map (\<lambda>i. ls ! i ! (idx ! i)) [0..<n_pos]))
                         (map length ls) (replicate (length ls) 0) st))
         else (if n_pos > 0 \<and> as_payloads spec = [] then None
               else Some (sniper_loop
                      (\<lambda>pos. map (sniper_job dg rules baselines pos) (hd (as_payloads spec)))
                      n_pos 0 st)))"

section \<open>The reference enumeration\<close>

definition attack_jobs :: "digests \<Rightarrow> attack_spec \<Rightarrow> nat \<Rightarrow> string list \<Rightarrow> job list" where
  "attack_jobs dg spec n_pos baselines =
     (let rules = as_process_rules spec; ls = as_payloads spec
      in if as_attack spec = ''repeat'' then map (repeat_job baselines) [0..<nat (as_repeat spec)]
         else if as_attack spec = ''pitchfork''
         then map (pitch_job dg rules (take n_pos ls) n_pos baselines)
                [0..<Min (set (map length (take n_pos ls)))]
         else if as_attack spec = ''battering'' then map (battering_job dg rules n_pos) (hd ls)
         else if as_attack spec = ''cluster''
         then map (cluster_job dg rules) (product_lists (cluster_lists ls n_pos baselines))
         else concat (map (\<lambda>pos. map (sniper_job dg rules baselines pos) (hd ls)) [0..<n_pos]))"

text \<open>The attack types and the payload lists that \<open>Start\<close> lets through.\<close>

definition payloads_ok :: "attack_spec \<Rightarrow> nat \<Rightarrow> bool" where
  "payloads_ok spec n_pos \<longleftrightarrow>
     as_attack spec \<in> {''repeat'', ''sniper'', ''pitchfork'', ''battering'', ''cluster''}
     \<and> (as_attack spec = ''repeat'' \<or>
          0 < n_pos \<and> as_payloads spec \<noteq> [] \<and> hd (as_payloads spec) \<noteq> []
          \<and> (as_attack spec \<in> {''pitchfork'', ''cluster''} \<longrightarrow>
               (\<forall>l\<in>set (take n_pos (as_payloads spec)). l \<noteq> [])))"

section \<open>Loops and the limit\<close>

definition limit_jobs :: "job list \<Rightarrow> jobs_state" where
  "limit_jobs js = (take max_requests js, max_requests < length js)"

lemma add_each_append:
  "add_each (xs @ ys) st = (let (st', ok) = add_each xs st in if ok then add_each ys st' else (st', False))"
  by (induction xs arbitrary: st) (auto simp: Let_def split: prod.splits)

lemma add_each_room:
  "length (fst st) + length js \<le> max_requests \<Longrightarrow> add_each js st = ((fst st @ js, snd st), True)"
  by (induction js arbitrary: st) (auto simp: add_job_def split: prod.splits)

lemma add_each_limit: "fst (add_each js ([], False)) = limit_jobs js"
proof (cases "length js \<le> max_requests")
  case True
  then show ?thesis by (simp add: add_each_room limit_jobs_def)
next
  case False
  obtain x rest where rest: "drop max_requests js = x # rest"
    using False by (cases "drop max_requests js") auto
  have js: "js = take max_requests js @ x # rest" by (metis append_take_drop_id rest)
  have "add_each js ([], False) = ((take max_requests js, True), False)"
    using False by (subst js, subst add_each_append) (simp add: add_each_room add_job_def)
  then show ?thesis using False by (simp add: limit_jobs_def)
qed

lemma count_loop_each: "count_loop f n k st = fst (add_each (map f [k..<n]) st)"
proof (induction f n k st rule: count_loop.induct)
  case (1 f n k st)
  then show ?case
    by (subst count_loop.simps) (auto simp: upt_conv_Cons Let_def split: prod.splits)
qed

lemma sniper_loop_each: "sniper_loop f n pos st = fst (add_each (concat (map f [pos..<n])) st)"
proof (induction f n pos st rule: sniper_loop.induct)
  case (1 f n pos st)
  then show ?case
    by (subst sniper_loop.simps) (auto simp: upt_conv_Cons add_each_append Let_def split: prod.splits)
qed

section \<open>The odometer enumerates the product\<close>

definition all_idx :: "nat list \<Rightarrow> nat list list" where
  "all_idx lens = product_lists (map (\<lambda>l. [0..<l]) lens)"

text \<open>The index vectors from \<open>idx\<close> on, in the order of the product.\<close>

fun rest_from :: "nat list \<Rightarrow> nat list \<Rightarrow> nat list list" where
  "rest_from (l # lens) (x # xs) =
     map ((#) x) (rest_from lens xs) @ concat (map (\<lambda>y. map ((#) y) (all_idx lens)) [Suc x..<l])"
| "rest_from _ _ = [[]]"

lemma all_idx_Cons: "all_idx (l # lens) = concat (map (\<lambda>y. map ((#) y) (all_idx lens)) [0..<l])"
  by (simp add: all_idx_def)

lemma rest_from_zero: "0 \<notin> set lens \<Longrightarrow> rest_from lens (replicate (length lens) 0) = all_idx lens"
  by (induction lens) (auto simp: all_idx_Cons upt_conv_Cons, simp add: all_idx_def)

lemma odometer_Cons:
  "k \<le> length xs \<Longrightarrow> odometer (l # lens) (Suc k) (x # xs) =
     (let (xs', carried) = odometer lens k xs
      in if carried then (if Suc x < l then (Suc x # xs', False) else (0 # xs', True))
         else (x # xs', False))"
proof (induction k arbitrary: xs)
  case (Suc k)
  have "odometer (l # lens) (Suc (Suc k)) (x # xs)
      = (if xs ! k + 1 < lens ! k then (x # xs[k := xs ! k + 1], False)
         else odometer (l # lens) (Suc k) (x # xs[k := 0]))"
    using Suc.prems by (subst odometer.simps) (simp add: Let_def)
  then show ?case using Suc by (simp add: Let_def)
qed simp

lemma odometer_step:
  assumes "list_all2 (<) idx lens" "odometer lens (length idx) idx = (idx', carried)"
  shows "rest_from lens idx = idx # (if carried then [] else rest_from lens idx')
    \<and> (carried \<longrightarrow> idx' = replicate (length idx) 0) \<and> (\<not> carried \<longrightarrow> list_all2 (<) idx' lens)"
  using assms
proof (induction idx lens arbitrary: idx' carried rule: list_all2_induct)
  case (Cons x xs l lens)
  obtain xs' c where inner: "odometer lens (length xs) xs = (xs', c)" by fastforce
  note IH = Cons.IH [OF inner]
  have pos: "0 \<notin> set lens" "length xs = length lens"
    using Cons.hyps(2) by (auto simp: list_all2_conv_all_nth in_set_conv_nth)
  have step: "odometer (l # lens) (length (x # xs)) (x # xs)
      = (if c then (if Suc x < l then (Suc x # xs', False) else (0 # xs', True)) else (x # xs', False))"
    using odometer_Cons [of "length xs" xs l lens x] inner by simp
  have zeros: "list_all2 (<) (replicate (length lens) 0) lens"
    using pos(1) by (auto simp: list_all2_conv_all_nth in_set_conv_nth intro!: gr0I)
  consider (go) "\<not> c" | (up) "c" "Suc x < l" | (over) "c" "\<not> Suc x < l" by blast
  then show ?case
  proof cases
    case go
    then show ?thesis using IH step Cons.prems Cons.hyps by auto
  next
    case up
    then show ?thesis
      using IH step Cons.prems pos zeros rest_from_zero [OF pos(1)] by (auto simp: upt_conv_Cons)
  next
    case over
    then show ?thesis using IH step Cons.prems by auto
  qed
qed simp

lemma cluster_loop_each:
  "list_all2 (<) idx lens \<Longrightarrow> cluster_loop f lens idx st = fst (add_each (map f (rest_from lens idx)) st)"
proof (induction f lens idx st rule: cluster_loop.induct)
  case (1 f lens idx st)
  obtain st' ok where add: "add_job (f idx) st = (st', ok)" by fastforce
  obtain idx' carried where adv: "odometer lens (length idx) idx = (idx', carried)" by fastforce
  note step = odometer_step [OF "1.prems" adv]
  show ?case
    using step "1.IH" [OF add [symmetric] _ adv [symmetric]]
    by (subst cluster_loop.simps) (simp add: add adv)
qed

lemma map2_nth_products:
  "map (\<lambda>idx. map2 (!) ls idx) (all_idx (map length ls)) = product_lists ls"
proof (induction ls)
  case (Cons l ls)
  have "map (\<lambda>idx. map2 (!) (l # ls) idx) (all_idx (map length (l # ls)))
      = concat (map (\<lambda>y. map ((#) (l ! y)) (map (\<lambda>idx. map2 (!) ls idx) (all_idx (map length ls)))) [0..<length l])"
    by (simp add: all_idx_Cons map_concat comp_def)
  also have "\<dots> = concat (map (\<lambda>z. map ((#) z) (product_lists ls)) (map ((!) l) [0..<length l]))"
    by (simp add: Cons comp_def)
  finally show ?case by (simp add: map_nth)
qed (simp add: all_idx_def)

lemma cluster_enumerates:
  assumes "[] \<notin> set ls" "length ls = n"
  shows "cluster_loop (\<lambda>idx. f (map (\<lambda>i. ls ! i ! (idx ! i)) [0..<n])) (map length ls)
      (replicate (length ls) 0) ([], False) = limit_jobs (map f (product_lists ls))"
proof -
  have len: "length idx = n" if "idx \<in> set (all_idx (map length ls))" for idx
    using in_set_product_lists_length [of idx] that assms(2) by (fastforce simp: all_idx_def)
  have pick: "map (\<lambda>i. ls ! i ! (idx ! i)) [0..<n] = map2 (!) ls idx" if "length idx = n" for idx
    using that assms(2) by (intro nth_equalityI) auto
  have "list_all2 (<) (replicate (length ls) 0) (map length ls)"
    using assms(1) by (auto simp: list_all2_conv_all_nth in_set_conv_nth)
  moreover have "0 \<notin> set (map length ls)" using assms(1) by auto
  ultimately have "cluster_loop (\<lambda>idx. f (map (\<lambda>i. ls ! i ! (idx ! i)) [0..<n])) (map length ls)
      (replicate (length ls) 0) ([], False)
      = limit_jobs (map (\<lambda>idx. f (map (\<lambda>i. ls ! i ! (idx ! i)) [0..<n])) (all_idx (map length ls)))"
    using rest_from_zero [of "map length ls"]
    by (simp add: cluster_loop_each add_each_limit)
  also have "map (\<lambda>idx. f (map (\<lambda>i. ls ! i ! (idx ! i)) [0..<n])) (all_idx (map length ls))
      = map (\<lambda>idx. f (map2 (!) ls idx)) (all_idx (map length ls))"
    using len pick by (intro map_cong) auto
  also have "\<dots> = map f (map (\<lambda>idx. map2 (!) ls idx) (all_idx (map length ls)))"
    by (simp add: comp_def)
  finally show ?thesis by (simp add: map2_nth_products)
qed

section \<open>Claims\<close>

lemma shortest_list:
  "foldl (\<lambda>n l. if length l < n then length l else n) m ls = Min (insert m (length ` set ls))"
proof (induction ls arbitrary: m)
  case (Cons l ls)
  have "Min (insert m (length ` set (l # ls))) = Min (insert (min m (length l)) (length ` set ls))"
    by (cases "set ls = {}") (simp_all add: Min_insert2 insert_commute min.assoc)
  then show ?case by (simp add: Cons min_def)
qed simp

lemma cluster_lists_ok:
  assumes "\<forall>l\<in>set (take n ls). l \<noteq> []"
  shows "[] \<notin> set (cluster_lists ls n bs)" "length (cluster_lists ls n bs) = n"
  using assms by (auto simp: cluster_lists_def)

lemma build_jobs_limit:
  assumes "payloads_ok spec n_pos"
  shows "build_jobs dg spec n_pos baselines = Some (limit_jobs (attack_jobs dg spec n_pos baselines))"
proof -
  define ls where "ls = as_payloads spec"
  consider (repeat) "as_attack spec = ''repeat''" | (pitchfork) "as_attack spec = ''pitchfork''"
    | (battering) "as_attack spec = ''battering''" | (cluster) "as_attack spec = ''cluster''"
    | (sniper) "as_attack spec = ''sniper''"
    using assms by (auto simp: payloads_ok_def)
  then show ?thesis
  proof cases
    case repeat
    then show ?thesis
      by (simp add: build_jobs_def attack_jobs_def count_loop_each add_each_limit Let_def)
  next
    case pitchfork
    have eq: "(if length ls > n_pos then take n_pos ls else ls) = take n_pos ls" by simp
    have ne: "take n_pos ls \<noteq> []"
      using assms pitchfork by (simp add: payloads_ok_def ls_def)
    then have "length (hd (take n_pos ls)) \<in> length ` set (take n_pos ls)"
      by (intro imageI hd_in_set)
    then have "insert (length (hd (take n_pos ls))) (length ` set (take n_pos ls))
        = length ` set (take n_pos ls)" by (rule insert_absorb)
    then show ?thesis
      using pitchfork ne
      by (simp add: build_jobs_def attack_jobs_def ls_def [symmetric] eq shortest_list
          count_loop_each add_each_limit Let_def)
  next
    case battering
    then show ?thesis
      using assms by (simp add: build_jobs_def attack_jobs_def payloads_ok_def add_each_limit Let_def)
  next
    case cluster
    have nonempty: "\<forall>l\<in>set (take n_pos ls). l \<noteq> []"
      using assms cluster by (simp add: payloads_ok_def ls_def)
    note c = cluster_lists_ok [OF nonempty, of baselines]
    have "\<not> list_ex (\<lambda>l. l = []) (cluster_lists ls n_pos baselines)"
      using c(1) by (auto simp: list_ex_iff)
    then show ?thesis
      using cluster cluster_enumerates [OF c]
      by (simp add: build_jobs_def attack_jobs_def ls_def [symmetric] Let_def)
  next
    case sniper
    then show ?thesis
      using assms
      by (simp add: build_jobs_def attack_jobs_def payloads_ok_def sniper_loop_each add_each_limit Let_def)
  qed
qed

text \<open>
  (C16) Every attack sends exactly what its type enumerates, cut at the request limit: the job list
  is the first 20000 jobs of the reference enumeration (all repetitions; the k-th payloads of
  every list; each payload at every point; the full product of the lists; each point in turn) and
  the attack is marked capped exactly when the enumeration is longer. For what \<open>Start\<close> lets through no
  index is out of range.
\<close>

theorem build_jobs_enumerates:
  assumes "payloads_ok spec n_pos"
  shows "build_jobs dg spec n_pos baselines =
    Some (take max_requests (attack_jobs dg spec n_pos baselines),
          max_requests < length (attack_jobs dg spec n_pos baselines))"
  using build_jobs_limit [OF assms] by (simp add: limit_jobs_def)

definition demo_digests :: digests where
  "demo_digests = \<lparr>dg_md5 = id, dg_sha1 = id, dg_sha256 = id\<rparr>"

definition demo_attack :: attack_spec where
  "demo_attack = \<lparr>as_target = ''http://t'',
     as_template = ''GET /'' @ marker @ ''a'' @ marker @ ''/'' @ marker @ ''b'' @ marker,
     as_attack = ''cluster'', as_payloads = [[''1'', ''2'']], as_repeat = 0, as_threads = 2,
     as_delay_ms = 0, as_max_backoff_ms = 0, as_grep_match = [], as_grep_extract = [],
     as_match_rules = [], as_extract_rules = [], as_process_rules = [''prefix:x''],
     as_extra_flags = 0, as_barrier = False\<rparr>"

theorem build_jobs_enumerates_witness:
  "map_option (\<lambda>(js, capped). (map job_payloads js, capped))
     (build_jobs demo_digests demo_attack 2 [''a'', ''b''])
   = Some ([[''x1'', ''xb''], [''x2'', ''xb'']], False)"
proof -
  have "payloads_ok demo_attack 2" by (simp add: payloads_ok_def demo_attack_def)
  note eq = build_jobs_enumerates [OF this, of demo_digests "[''a'', ''b'']"]
  have "map job_payloads (attack_jobs demo_digests demo_attack 2 [''a'', ''b''])
      = [[''x1'', ''xb''], [''x2'', ''xb'']]"
    by (simp add: attack_jobs_def demo_attack_def cluster_lists_def cluster_job_def
        process_payload_def process_rule_def upt_rec Let_def)
  moreover from this have "length (attack_jobs demo_digests demo_attack 2 [''a'', ''b'']) = 2"
    by (metis length_map list.size(3,4) Suc_1 One_nat_def plus_1_eq_Suc add.commute)
  ultimately show ?thesis by (simp add: eq max_requests_def flip: take_map)
qed

text \<open>
  In a cluster bomb the point without a list stands still at its baseline, but the baseline goes
  through the payload transforms (above it is sent as \<open>xb\<close>); in a pitchfork it is sent as it is.
\<close>

lemma cluster_transforms_baseline:
  "map job_payloads (attack_jobs demo_digests demo_attack 2 [''a'', ''b'']) = [[''x1'', ''xb''], [''x2'', ''xb'']]
   \<and> map job_payloads (attack_jobs demo_digests (demo_attack\<lparr>as_attack := ''pitchfork''\<rparr>) 2 [''a'', ''b''])
     = [[''x1'', ''b''], [''x2'', ''b'']]"
  by (simp add: attack_jobs_def demo_attack_def cluster_lists_def cluster_job_def pitch_job_def
      process_payload_def process_rule_def upt_rec Let_def)

lemma product_lists_count: "length (product_lists ls) = prod_list (map length ls)"
  by (induction ls) (auto simp: length_concat comp_def sum_list_triv)

text \<open>
  Every request of an attack fills every fuzz point: each job has exactly one value per
  marked position, and there are never more than 20000 jobs.
\<close>

theorem build_jobs_width:
  assumes "payloads_ok spec n_pos" "length baselines = n_pos"
  shows "\<exists>js capped. build_jobs dg spec n_pos baselines = Some (js, capped)
    \<and> length js \<le> 20000 \<and> (\<forall>j\<in>set js. length (job_payloads j) = n_pos)"
proof -
  have width: "\<forall>j\<in>set (attack_jobs dg spec n_pos baselines). length (job_payloads j) = n_pos"
  proof (cases "as_attack spec = ''cluster''")
    case True
    then have "length (cluster_lists (as_payloads spec) n_pos baselines) = n_pos"
      using assms(1) cluster_lists_ok(2) by (simp add: payloads_ok_def)
    then show ?thesis
      using True in_set_product_lists_length by (fastforce simp: attack_jobs_def cluster_job_def Let_def)
  next
    case False
    then show ?thesis
      using assms(2)
      by (auto simp: attack_jobs_def repeat_job_def pitch_job_def battering_job_def sniper_job_def
          Let_def split: if_splits)
  qed
  have "\<forall>j\<in>set (take max_requests (attack_jobs dg spec n_pos baselines)). length (job_payloads j) = n_pos"
    using width by (meson in_set_takeD)
  then show ?thesis
    using build_jobs_limit [OF assms(1), of dg] by (simp add: limit_jobs_def max_requests_def)
qed

theorem build_jobs_width_witness:
  "\<exists>js capped. build_jobs demo_digests demo_attack 2 [''a'', ''b''] = Some (js, capped)
    \<and> length js \<le> 20000 \<and> (\<forall>j\<in>set js. length (job_payloads j) = 2)"
proof -
  have "payloads_ok demo_attack 2" "length [''a'', ''b''] = 2"
    by (simp_all add: payloads_ok_def demo_attack_def)
  from build_jobs_width [OF this, of demo_digests] show ?thesis .
qed

end
