(* ===== verification/ResultLog.thy ===== *)
theory ResultLog
  imports GoBase "HOL-Library.Signed_Division" "HOL-Library.Multiset"
begin

text \<open>
  The chunked result store of an intruder run (\<open>internal/intruder/resultlog.go\<close>) and the
  median of \<open>intruder.go\<close>: \<open>append\<close>, \<open>flushLocked\<close>, \<open>chunkData\<close>, \<open>readRange\<close>, \<open>all\<close>,
  \<open>snapshotHead\<close>, \<open>finalize\<close>, and the statistics \<open>anomalyAcc.add\<close>, \<open>stat\<close>,
  \<open>flagStat.apply\<close>, \<open>flagResults\<close>.

  The directory of chunk files is the field \<open>l_disk\<close>, a map from chunk numbers to the results
  written. The environment answers each write (an argument of \<open>append_result\<close>: did
  \<open>json.Marshal\<close> and \<open>os.WriteFile\<close> succeed) and each read (an argument of \<open>read_range\<close>);
  \<open>jrt\<close> is what one trip through \<open>encoding/json\<close> makes of a result. The outer loop of \<open>readRange\<close> is a
  \<open>partial_function\<close> whose value \<open>None\<close> means that the loop does not end.

  Lengths are \<open>int\<close>: they are sizes of stored bodies, far below the range of \<open>int64\<close>.
\<close>

section \<open>Data\<close>

record result =
  res_id :: int
  res_payload :: string
  res_status :: int
  res_length :: int
  res_time_ms :: int
  res_error :: string
  res_flow_id :: int
  res_flagged :: bool
  res_anomaly :: bool
  res_matched :: bool
  res_extracted :: string
  res_binary :: bool
  res_matches :: "bool list"
  res_extracts :: "string list"
  res_seq :: int
  res_worker :: int
  res_start_us :: int
  res_end_us :: int
  res_body_hash :: string
  res_rl_headers :: "(string \<times> string) list"

record anomaly_acc =
  status_count :: "int \<rightharpoonup> nat"
  acc_lengths :: "int list"
  acc_matched :: nat
  acc_valid :: nat

definition acc_empty :: anomaly_acc where
  "acc_empty = \<lparr>status_count = Map.empty, acc_lengths = [], acc_matched = 0, acc_valid = 0\<rparr>"

record flag_stat =
  mode_status :: int
  median_len :: int
  tolerance :: int
  majority_matched :: bool
  grep_signal_active :: bool
  valids :: nat

definition stat_zero :: flag_stat where
  "stat_zero = \<lparr>mode_status = 0, median_len = 0, tolerance = 0, majority_matched = False,
     grep_signal_active = False, valids = 0\<rparr>"

record result_log =
  l_dir :: string
  l_chunk_size :: nat
  l_head_cap :: nat
  l_n :: nat
  l_flushed :: nat
  l_buf :: "result list"
  l_head :: "result list"
  l_acc :: anomaly_acc
  l_finalized :: bool
  l_stat :: flag_stat
  l_disk :: "nat \<rightharpoonup> result list"

section \<open>Anomaly statistics\<close>

definition acc_add :: "anomaly_acc \<Rightarrow> result \<Rightarrow> anomaly_acc" where
  "acc_add a r =
     (if res_status r \<le> 0 \<or> res_error r \<noteq> [] then a
      else a\<lparr>status_count := (status_count a)(res_status r \<mapsto>
               (case status_count a (res_status r) of None \<Rightarrow> 1 | Some c \<Rightarrow> c + 1)),
             acc_lengths := acc_lengths a @ [res_length r],
             acc_matched := (if res_matched r then acc_matched a + 1 else acc_matched a),
             acc_valid := acc_valid a + 1\<rparr>)"

text \<open>The insertion sort of \<open>median\<close>, in place: the inner loop shifts, the outer one places.\<close>

fun shift_loop :: "int list \<Rightarrow> int \<Rightarrow> nat \<Rightarrow> int list \<times> nat" where
  "shift_loop l x 0 = (l, 0)"
| "shift_loop l x (Suc j) =
     (if l ! j > x then shift_loop (l[Suc j := l ! j]) x j else (l, Suc j))"

definition place :: "int list \<Rightarrow> int \<Rightarrow> nat \<Rightarrow> int list" where
  "place l x i = (let (l', j) = shift_loop l x i in l'[j := x])"

definition insertion_sort :: "int list \<Rightarrow> int list" where
  "insertion_sort vals = foldl (\<lambda>l i. place l (l ! i) i) vals [1..<length vals]"

definition median :: "int list \<Rightarrow> int" where
  "median vals =
     (if vals = [] then 0
      else (let sorted = insertion_sort vals; n = length sorted
            in if n mod 2 = 1 then sorted ! (n div 2)
               else (sorted ! (n div 2 - 1) + sorted ! (n div 2)) sdiv 2))"

text \<open>\<open>stat\<close>: \<open>order\<close> is the order in which Go happens to iterate over the map of counts.\<close>

definition mode_loop :: "(int \<rightharpoonup> nat) \<Rightarrow> int list \<Rightarrow> int \<times> int" where
  "mode_loop counts order =
     foldl (\<lambda>(mode, best) st. case counts st of
        None \<Rightarrow> (mode, best)
      | Some c \<Rightarrow> if int c > best then (st, int c) else (mode, best)) (0, -1) order"

definition acc_stat :: "int list \<Rightarrow> anomaly_acc \<Rightarrow> flag_stat" where
  "acc_stat order a =
     (if acc_valid a = 0 then stat_zero
      else (let med = median (acc_lengths a); tol = med sdiv 5
            in \<lparr>mode_status = fst (mode_loop (status_count a) order),
                median_len = med,
                tolerance = (if tol < 50 then 50 else tol),
                majority_matched = acc_matched a * 2 > acc_valid a,
                grep_signal_active = acc_matched a > 0 \<and> acc_matched a < acc_valid a,
                valids = acc_valid a\<rparr>))"

definition apply_flags :: "flag_stat \<Rightarrow> result \<Rightarrow> result" where
  "apply_flags fs r =
     (if valids fs = 0 \<or> res_status r \<le> 0 \<or> res_error r \<noteq> [] then r
      else (let status_anomaly = res_status r \<noteq> mode_status fs \<or> res_status r \<ge> 500;
                diff = res_length r - median_len fs;
                diff = (if diff < 0 then - diff else diff);
                length_anomaly = diff > tolerance fs;
                grep_anomaly = grep_signal_active fs \<and> res_matched r \<noteq> majority_matched fs;
                r = (if length_anomaly then r\<lparr>res_anomaly := True\<rparr> else r)
            in if status_anomaly \<or> length_anomaly \<or> grep_anomaly
               then r\<lparr>res_flagged := True\<rparr> else r))"

definition flag_results :: "int list \<Rightarrow> result list \<Rightarrow> result list" where
  "flag_results order rs =
     (if rs = [] then []
      else (let fs = acc_stat order (foldl acc_add acc_empty rs) in map (apply_flags fs) rs))"

section \<open>The log\<close>

definition new_result_log :: "string \<Rightarrow> int \<Rightarrow> int \<Rightarrow> result_log" where
  "new_result_log dir chunk_size head_cap =
     \<lparr>l_dir = dir, l_chunk_size = nat (if chunk_size < 1 then 1000 else chunk_size),
      l_head_cap = nat (if head_cap < 1 then 1 else head_cap),
      l_n = 0, l_flushed = 0, l_buf = [], l_head = [], l_acc = acc_empty,
      l_finalized = False, l_stat = stat_zero, l_disk = Map.empty\<rparr>"

definition flush_locked :: "bool \<Rightarrow> result_log \<Rightarrow> result_log" where
  "flush_locked ok l =
     (if l_buf l = [] then l
      else if ok then l\<lparr>l_disk := (l_disk l)(l_flushed l \<mapsto> l_buf l),
                        l_flushed := l_flushed l + 1, l_buf := []\<rparr>
      else l)"

definition append_result :: "bool \<Rightarrow> result \<Rightarrow> result_log \<Rightarrow> result_log" where
  "append_result ok r l =
     (let l = l\<lparr>l_n := l_n l + 1\<rparr>;
          l = (if length (l_head l) < l_head_cap l then l\<lparr>l_head := l_head l @ [r]\<rparr> else l);
          l = l\<lparr>l_acc := acc_add (l_acc l) r\<rparr>;
          l = l\<lparr>l_buf := l_buf l @ [r]\<rparr>
      in if l_dir l \<noteq> [] \<and> length (l_buf l) \<ge> l_chunk_size l then flush_locked ok l else l)"

definition finalize :: "int list \<Rightarrow> result_log \<Rightarrow> result_log" where
  "finalize order l = l\<lparr>l_stat := acc_stat order (l_acc l), l_finalized := True\<rparr>"

definition log_count :: "result_log \<Rightarrow> nat" where
  "log_count l = l_n l"

definition snapshot_head :: "result_log \<Rightarrow> result list" where
  "snapshot_head l = l_head l"

text \<open>\<open>rd i\<close> tells whether reading chunk file \<open>i\<close> succeeds.\<close>

definition chunk_data :: "(result \<Rightarrow> result) \<Rightarrow> (nat \<Rightarrow> bool) \<Rightarrow> result_log \<Rightarrow> nat \<Rightarrow> result list" where
  "chunk_data jrt rd l i =
     (if i \<ge> l_flushed l then l_buf l
      else if rd i then (case l_disk l i of None \<Rightarrow> [] | Some rs \<Rightarrow> map jrt rs)
      else [])"

definition shown :: "result_log \<Rightarrow> result \<Rightarrow> result" where
  "shown l r = (if l_finalized l then apply_flags (l_stat l) r else r)"

text \<open>The inner loop of \<open>readRange\<close>: returns \<open>within\<close>, \<open>idx\<close> and \<open>out\<close>.\<close>

function read_chunk ::
  "result_log \<Rightarrow> result list \<Rightarrow> nat \<Rightarrow> nat \<Rightarrow> nat \<Rightarrow> result list \<Rightarrow> nat \<times> nat \<times> result list" where
  "read_chunk l data stop within idx out =
     (if within < length data \<and> idx < stop
      then read_chunk l data stop (Suc within) (Suc idx) (out @ [shown l (data ! within)])
      else (within, idx, out))"
  by pat_completeness auto

termination
  by (relation "measure (\<lambda>(_, data, _, within, _, _). length data - within)") auto

declare read_chunk.simps [simp del]

partial_function (option) read_loop ::
  "(result \<Rightarrow> result) \<Rightarrow> (nat \<Rightarrow> bool) \<Rightarrow> result_log \<Rightarrow> nat \<Rightarrow> nat \<Rightarrow> result list
     \<Rightarrow> result list option" where
  "read_loop jrt rd l stop idx out =
     (if \<not> idx < stop then Some out
      else (let data = chunk_data jrt rd l (idx div l_chunk_size l);
                (within, idx, out) = read_chunk l data stop (idx mod l_chunk_size l) idx out
            in if within < length data \<and> idx \<ge> stop then Some out
               else if data = [] then Some out
               else read_loop jrt rd l stop idx out))"

declare read_loop.simps [code]

definition read_range ::
  "(result \<Rightarrow> result) \<Rightarrow> (nat \<Rightarrow> bool) \<Rightarrow> result_log \<Rightarrow> int \<Rightarrow> int \<Rightarrow> result list option" where
  "read_range jrt rd l off limit =
     (let off = (if off < 0 then 0 else off);
          stop = (if limit > 0 \<and> off + limit < int (l_n l) then off + limit else int (l_n l))
      in read_loop jrt rd l (nat stop) (nat off) [])"

definition log_all :: "(result \<Rightarrow> result) \<Rightarrow> (nat \<Rightarrow> bool) \<Rightarrow> result_log \<Rightarrow> result list option" where
  "log_all jrt rd l = read_range jrt rd l 0 0"

text \<open>The log after a run: each result with the environment's answer to a write it triggers.\<close>

definition append_all :: "(bool \<times> result) list \<Rightarrow> result_log \<Rightarrow> result_log" where
  "append_all rs l = foldl (\<lambda>l (ok, r). append_result ok r l) l rs"

text \<open>What a window of a run promises.\<close>

definition window :: "int \<Rightarrow> int \<Rightarrow> 'a list \<Rightarrow> 'a list" where
  "window off limit rs =
     (let tail = drop (nat off) rs in if limit > 0 then take (nat limit) tail else tail)"

section \<open>Lemmas on the statistics\<close>

lemma shift_loop_spec:
  assumes "sorted as"
  shows "(let (l', j) = shift_loop (as @ z # rest) x (length as) in l'[j := x]) = insort x as @ rest"
  using assms
proof (induction as arbitrary: z rest rule: rev_induct)
  case (snoc y as)
  show ?case
  proof (cases "y > x")
    case True
    have "shift_loop ((as @ [y]) @ z # rest) x (length (as @ [y]))
        = shift_loop (as @ y # y # rest) x (length as)"
      using True by (simp add: nth_append list_update_append)
    moreover have "insort x (as @ [y]) = insort x as @ [y]"
      using True by (induction as) auto
    ultimately show ?thesis
      using snoc.IH [of y "y # rest"] snoc.prems by (simp add: sorted_append)
  next
    case False
    have "insort x (as @ [y]) = as @ [y] @ [x]"
      using False snoc.prems by (subst sorted_insort_is_snoc) (auto simp: sorted_append)
    then show ?thesis
      using False by (simp add: nth_append list_update_append)
  qed
qed simp

lemma place_insort: "sorted as \<Longrightarrow> place (as @ x # rest) x (length as) = insort x as @ rest"
  using shift_loop_spec [of as x rest x] by (simp add: place_def)

lemma insort_sort_snoc: "insort x (sort xs) = sort (xs @ [x])" for x :: "'a::linorder"
  by (rule sym, rule properties_for_sort) (simp_all add: sorted_insort)

lemma insertion_loop:
  assumes "i \<le> length vals"
  shows "foldl (\<lambda>l i. place l (l ! i) i) vals [1..<i] = sort (take i vals) @ drop i vals"
  using assms
proof (induction i)
  case (Suc i)
  show ?case
  proof (cases "i = 0")
    case True
    then show ?thesis using Suc.prems by (cases vals) auto
  next
    case False
    have d: "drop i vals = vals ! i # drop (Suc i) vals"
      using Suc.prems by (simp add: Cons_nth_drop_Suc)
    have len: "length (sort (take i vals)) = i" using Suc.prems by simp
    have "foldl (\<lambda>l i. place l (l ! i) i) vals [1..<Suc i]
        = place (sort (take i vals) @ drop i vals) (vals ! i) i"
      using False Suc by (simp add: nth_append)
    also have "\<dots> = insort (vals ! i) (sort (take i vals)) @ drop (Suc i) vals"
      using place_insort [of "sort (take i vals)" "vals ! i" "drop (Suc i) vals"] len by (simp add: d)
    also have "insort (vals ! i) (sort (take i vals)) = sort (take (Suc i) vals)"
      using Suc.prems by (simp add: insort_sort_snoc take_Suc_conv_app_nth)
    finally show ?thesis .
  qed
qed simp

lemma insertion_sort_sort: "insertion_sort vals = sort vals"
  using insertion_loop [of "length vals" vals] by (simp add: insertion_sort_def)

definition valid_results :: "result list \<Rightarrow> result list" where
  "valid_results rs = filter (\<lambda>r. res_status r > 0 \<and> res_error r = []) rs"

definition acc_of :: "result list \<Rightarrow> anomaly_acc" where
  "acc_of rs = foldl acc_add acc_empty rs"

lemma acc_of_snoc: "acc_of (rs @ [r]) = acc_add (acc_of rs) r"
  by (simp add: acc_of_def)

lemma acc_of_fields:
  "acc_lengths (acc_of rs) = map res_length (valid_results rs)
   \<and> acc_matched (acc_of rs) = length (filter res_matched (valid_results rs))
   \<and> acc_valid (acc_of rs) = length (valid_results rs)
   \<and> status_count (acc_of rs) st =
       (let c = count_list (map res_status (valid_results rs)) st in if c = 0 then None else Some c)"
proof (induction rs rule: rev_induct)
  case Nil
  show ?case by (simp add: acc_of_def acc_empty_def valid_results_def)
next
  case (snoc r rs)
  then show ?case
    by (auto simp: acc_of_snoc acc_add_def valid_results_def Let_def split: if_splits)
qed

lemma mode_loop_max:
  assumes "foldl (\<lambda>(mode, best) st. case counts st of None \<Rightarrow> (mode, best)
      | Some c \<Rightarrow> if int c > best then (st, int c) else (mode, best)) (m0, b0) order = (m, b)"
  shows "b0 \<le> b \<and> (\<forall>st\<in>set order. \<forall>c. counts st = Some c \<longrightarrow> int c \<le> b)
    \<and> ((m, b) = (m0, b0) \<or> (\<exists>c. counts m = Some c \<and> b = int c))"
  using assms
proof (induction order arbitrary: m0 b0)
  case (Cons st order)
  obtain m1 b1 where s: "(case counts st of None \<Rightarrow> (m0, b0)
      | Some c \<Rightarrow> if int c > b0 then (st, int c) else (m0, b0)) = (m1, b1)" by fastforce
  have IH: "b1 \<le> b \<and> (\<forall>st\<in>set order. \<forall>c. counts st = Some c \<longrightarrow> int c \<le> b)
    \<and> ((m, b) = (m1, b1) \<or> (\<exists>c. counts m = Some c \<and> b = int c))"
    using Cons s by simp
  show ?case using s IH by (auto split: option.splits if_splits)
qed simp

text \<open>
  The thresholds of a run: whatever order Go iterates over the map of status counts in, the
  modal status is carried by the most results among those that count (a status, no error),
  the median is the middle of the sorted lengths of those results, and the tolerance is at
  least 50 bytes.
\<close>

theorem run_thresholds:
  assumes "valid_results rs \<noteq> []"
    and "\<forall>r\<in>set (valid_results rs). res_status r \<in> set order"
  shows "(\<forall>st. count_list (map res_status (valid_results rs)) st
              \<le> count_list (map res_status (valid_results rs))
                   (mode_status (acc_stat order (foldl acc_add acc_empty rs))))
    \<and> median_len (acc_stat order (foldl acc_add acc_empty rs)) =
        (let s = sort (map res_length (valid_results rs)); n = length s
         in if n mod 2 = 1 then s ! (n div 2) else (s ! (n div 2 - 1) + s ! (n div 2)) sdiv 2)
    \<and> 50 \<le> tolerance (acc_stat order (foldl acc_add acc_empty rs))"
proof -
  define counts where "counts = status_count (acc_of rs)"
  define cnt where "cnt = count_list (map res_status (valid_results rs))"
  note f = acc_of_fields [of rs]
  have counts: "counts st = (if cnt st = 0 then None else Some (cnt st))" for st
    using f [of st] by (simp add: counts_def cnt_def Let_def)
  obtain m b where mb: "mode_loop counts order = (m, b)" by fastforce
  note max = mode_loop_max [OF mb [unfolded mode_loop_def]]
  have in_order: "st \<in> set order" if "cnt st \<noteq> 0" for st
    using that assms(2) by (auto simp: cnt_def count_list_0_iff)
  obtain r where r: "r \<in> set (valid_results rs)" using assms(1) by (cases "valid_results rs") auto
  then have "cnt (res_status r) \<noteq> 0" by (auto simp: cnt_def count_list_0_iff)
  have bound: "int (cnt st) \<le> b" if "cnt st \<noteq> 0" for st
  proof -
    have "counts st = Some (cnt st)" using counts that by simp
    with max in_order [OF that] show ?thesis by blast
  qed
  with \<open>cnt (res_status r) \<noteq> 0\<close> have "int (cnt (res_status r)) \<le> b" by blast
  then have "b \<noteq> - 1" by linarith
  with max counts have b: "b = int (cnt m)" by (auto split: if_splits)
  have "cnt st \<le> cnt m" for st
  proof (cases "cnt st = 0")
    case False
    with bound [OF False] b show ?thesis by simp
  qed simp
  moreover have "mode_status (acc_stat order (acc_of rs)) = m"
    using assms(1) f mb by (simp add: acc_stat_def counts_def [symmetric] Let_def)
  moreover have "median_len (acc_stat order (acc_of rs)) = median (map res_length (valid_results rs))"
    using assms(1) f by (simp add: acc_stat_def Let_def)
  moreover have "50 \<le> tolerance (acc_stat order (acc_of rs))"
    using assms(1) f by (simp add: acc_stat_def Let_def)
  ultimately show ?thesis
    using assms(1)
    by (simp add: cnt_def [symmetric] acc_of_def [symmetric] median_def insertion_sort_sort Let_def)
qed

definition demo_result :: "int \<Rightarrow> int \<Rightarrow> int \<Rightarrow> result" where
  "demo_result i st len =
     \<lparr>res_id = i, res_payload = ''p'', res_status = st, res_length = len, res_time_ms = 1,
      res_error = [], res_flow_id = i, res_flagged = False, res_anomaly = False,
      res_matched = False, res_extracted = [], res_binary = False, res_matches = [],
      res_extracts = [], res_seq = i, res_worker = 1, res_start_us = 0, res_end_us = 1,
      res_body_hash = [], res_rl_headers = []\<rparr>"

definition demo_run :: "result list" where
  "demo_run = [demo_result 1 200 120, demo_result 2 404 9000, demo_result 3 200 100,
     (demo_result 4 0 0)\<lparr>res_error := ''send failed''\<rparr>]"

theorem run_thresholds_witness:
  "count_list (map res_status (valid_results demo_run)) 404
      \<le> count_list (map res_status (valid_results demo_run))
          (mode_status (acc_stat [404, 200] (foldl acc_add acc_empty demo_run)))
   \<and> map res_anomaly (flag_results [404, 200] demo_run) = [False, True, False, False]
   \<and> map res_flagged (flag_results [404, 200] demo_run) = [False, True, False, False]"
proof -
  have "valid_results demo_run \<noteq> []"
    "\<forall>r\<in>set (valid_results demo_run). res_status r \<in> set [404, 200]"
    by code_simp+
  moreover have "map res_anomaly (flag_results [404, 200] demo_run) = [False, True, False, False]
    \<and> map res_flagged (flag_results [404, 200] demo_run) = [False, True, False, False]"
    by code_simp
  ultimately show ?thesis using run_thresholds [of demo_run "[404, 200]"] by blast
qed

text \<open>
  With two statuses equally frequent, the order of the iteration decides which one is modal, and
  with it which results are flagged: two runs with the same results may be flagged differently.
\<close>

lemma mode_tie_depends_on_order:
  "map res_flagged (flag_results [200, 404] [demo_result 1 200 10, demo_result 2 404 10])
     = [False, True]
   \<and> map res_flagged (flag_results [404, 200] [demo_result 1 200 10, demo_result 2 404 10])
     = [True, False]"
  by code_simp

lemma apply_flags_keeps:
  "res_id (apply_flags fs r) = res_id r \<and> res_status (apply_flags fs r) = res_status r
   \<and> res_length (apply_flags fs r) = res_length r \<and> res_error (apply_flags fs r) = res_error r
   \<and> (res_flagged r \<longrightarrow> res_flagged (apply_flags fs r))
   \<and> (res_error r \<noteq> [] \<longrightarrow> apply_flags fs r = r)"
  by (simp add: apply_flags_def Let_def)

section \<open>Lemmas on the log\<close>

text \<open>The state of a log on a disk that works, after the results \<open>rs\<close>.\<close>

definition log_ok :: "result list \<Rightarrow> result_log \<Rightarrow> bool" where
  "log_ok rs l \<longleftrightarrow>
     l_dir l \<noteq> [] \<and> 0 < l_chunk_size l \<and> l_n l = length rs
     \<and> l_flushed l = length rs div l_chunk_size l
     \<and> l_buf l = drop (l_chunk_size l * l_flushed l) rs
     \<and> (\<forall>i<l_flushed l. l_disk l i = Some (take (l_chunk_size l) (drop (l_chunk_size l * i) rs)))
     \<and> l_head l = take (l_head_cap l) rs
     \<and> l_acc l = acc_of rs"

lemma log_ok_new: "dir \<noteq> [] \<Longrightarrow> log_ok [] (new_result_log dir c h)"
  by (simp add: log_ok_def new_result_log_def acc_of_def)

lemma append_result_common:
  "l_n (append_result ok r l) = Suc (l_n l)" "l_dir (append_result ok r l) = l_dir l"
  "l_chunk_size (append_result ok r l) = l_chunk_size l"
  "l_head_cap (append_result ok r l) = l_head_cap l"
  "l_acc (append_result ok r l) = acc_add (l_acc l) r"
  "l_head (append_result ok r l)
     = (if length (l_head l) < l_head_cap l then l_head l @ [r] else l_head l)"
  "l_finalized (append_result ok r l) = l_finalized l"
  "l_stat (append_result ok r l) = l_stat l"
  by (simp_all add: append_result_def flush_locked_def Let_def)

lemma append_result_full:
  assumes "l_dir l \<noteq> []" "Suc (length (l_buf l)) \<ge> l_chunk_size l"
  shows "l_buf (append_result True r l) = []"
    "l_flushed (append_result True r l) = Suc (l_flushed l)"
    "l_disk (append_result True r l) = (l_disk l)(l_flushed l \<mapsto> l_buf l @ [r])"
  using assms by (simp_all add: append_result_def flush_locked_def Let_def)

lemma append_result_kept:
  assumes "l_dir l = [] \<or> Suc (length (l_buf l)) < l_chunk_size l \<or> \<not> ok"
  shows "l_buf (append_result ok r l) = l_buf l @ [r]"
    "l_flushed (append_result ok r l) = l_flushed l"
    "l_disk (append_result ok r l) = l_disk l"
  using assms by (auto simp: append_result_def flush_locked_def Let_def)

lemma take_snoc_if: "(if length (take h rs) < h then take h rs @ [r] else take h rs) = take h (rs @ [r])"
  by auto

lemma log_ok_append:
  assumes "log_ok rs l"
  shows "log_ok (rs @ [r]) (append_result True r l)"
proof -
  define c where "c = l_chunk_size l"
  define k where "k = length rs div c"
  have ok: "l_dir l \<noteq> []" "0 < c" "l_n l = length rs" "l_flushed l = k" "l_buf l = drop (c * k) rs"
    "\<forall>i<k. l_disk l i = Some (take c (drop (c * i) rs))"
    "l_head l = take (l_head_cap l) rs" "l_acc l = acc_of rs"
    using assms unfolding log_ok_def c_def [symmetric] k_def by simp_all
  have k: "c * k \<le> length rs" "length rs < c * Suc k"
    using ok(2) dividend_less_times_div [of c "length rs"] by (simp_all add: k_def)
  have old: "take c (drop (c * i) (rs @ [r])) = take c (drop (c * i) rs)" if "i < k" for i
  proof -
    have "c * Suc i \<le> c * k" using that by (simp only: mult_le_mono2 Suc_leI)
    with k show ?thesis by simp
  qed
  note common = append_result_common [of True r l, folded c_def]
  have head: "l_head (append_result True r l) = take (l_head_cap l) (rs @ [r])"
    using take_snoc_if [of "l_head_cap l" rs r] unfolding common(6) ok(7) .
  show ?thesis
  proof (cases "Suc (length rs) = c * Suc k")
    case True
    have div: "Suc (length rs) div c = Suc k"
      unfolding True using ok(2) by (simp only: nonzero_mult_div_cancel_left neq0_conv)
    have full: "Suc (length (l_buf l)) \<ge> l_chunk_size l"
      using True k(1) by (simp add: ok(5) c_def [symmetric])
    note new = append_result_full [OF ok(1) full, of r]
    have "take c (drop (c * k) (rs @ [r])) = drop (c * k) rs @ [r]"
      using True k(1) by simp
    then have "\<forall>i<Suc k. l_disk (append_result True r l) i = Some (take c (drop (c * i) (rs @ [r])))"
      using ok(4-6) old by (simp add: new(3) less_Suc_eq)
    moreover have "drop (c * Suc k) (rs @ [r]) = []" using True by simp
    ultimately show ?thesis
      unfolding log_ok_def common head new(1,2)
      using ok by (simp add: div acc_of_snoc del: drop_append mult_Suc_right)
  next
    case False
    then have less: "Suc (length rs) < c * Suc k" using k by linarith
    have div: "Suc (length rs) div c = k"
      using k(1) less by (intro div_nat_eqI) (simp_all add: mult.commute)
    have "Suc (length (l_buf l)) < l_chunk_size l"
      using less k(1) by (simp add: ok(5) c_def [symmetric])
    then have "l_dir l = [] \<or> Suc (length (l_buf l)) < l_chunk_size l \<or> \<not> True" by simp
    note new = append_result_kept [OF this, of r]
    have "\<forall>i<k. l_disk (append_result True r l) i = Some (take c (drop (c * i) (rs @ [r])))"
      using ok(6) old by (simp add: new(3))
    moreover have "drop (c * k) (rs @ [r]) = drop (c * k) rs @ [r]" using k(1) by simp
    ultimately show ?thesis
      unfolding log_ok_def common head new(1,2)
      using ok by (simp add: div acc_of_snoc del: drop_append)
  qed
qed

lemma log_ok_append_all:
  "\<forall>p\<in>set ps. fst p \<Longrightarrow> log_ok rs l \<Longrightarrow> log_ok (rs @ map snd ps) (append_all ps l)"
proof (induction ps arbitrary: rs l)
  case (Cons p ps)
  obtain r where p: "p = (True, r)" using Cons.prems by (cases p) auto
  have "log_ok (rs @ [r]) (append_result True r l)" using Cons.prems log_ok_append by blast
  then have "log_ok ((rs @ [r]) @ map snd ps) (append_all ps (append_result True r l))"
    by (rule Cons.IH [rotated]) (use Cons.prems in simp)
  then show ?case by (simp add: p append_all_def)
qed (simp add: append_all_def)

lemma log_ok_finalize: "log_ok rs l \<Longrightarrow> log_ok rs (finalize order l)"
  by (simp add: log_ok_def finalize_def)

section \<open>Lemmas on reading\<close>

lemma read_chunk_spec:
  assumes "within \<le> length data" "idx \<le> stop"
  shows "read_chunk l data stop within idx out =
     (let k = min (length data - within) (stop - idx)
      in (within + k, idx + k, out @ map (shown l) (take k (drop within data))))"
  using assms
proof (induction l data stop within idx out rule: read_chunk.induct)
  case (1 l data stop within idx out)
  show ?case
  proof (cases "within < length data \<and> idx < stop")
    case True
    define k where "k = min (length data - Suc within) (stop - Suc idx)"
    have "min (length data - within) (stop - idx) = Suc k" using True by (auto simp: k_def)
    moreover have "take (Suc k) (drop within data) = data ! within # take k (drop (Suc within) data)"
      using True by (simp add: Cons_nth_drop_Suc [symmetric])
    ultimately show ?thesis
      using 1 True by (subst read_chunk.simps) (simp add: k_def [symmetric] Let_def)
  next
    case False
    then have "min (length data - within) (stop - idx) = 0" using 1 by auto
    then show ?thesis using False by (subst read_chunk.simps) (auto simp: Let_def)
  qed
qed

lemma chunk_data_ok:
  assumes "log_ok rs l" "\<forall>i. rd i" "\<forall>r\<in>set rs. jrt r = r" "i \<le> l_flushed l"
  shows "chunk_data jrt rd l i = take (l_chunk_size l) (drop (l_chunk_size l * i) rs)"
proof (cases "i = l_flushed l")
  case True
  have "length (drop (l_chunk_size l * i) rs) < l_chunk_size l"
    using assms(1) True by (simp add: log_ok_def minus_mult_div_eq_mod)
  then show ?thesis using assms(1) True by (simp add: chunk_data_def log_ok_def)
next
  case False
  have "map jrt (take c (drop k rs)) = take c (drop k rs)" for c k
    using assms(3) by (intro map_idI) (meson in_set_dropD in_set_takeD)
  then show ?thesis
    using assms False by (simp add: chunk_data_def log_ok_def)
qed

lemma take_take_drop: "m \<le> n \<Longrightarrow> take m xs @ take (n - m) (drop m xs) = take n xs"
  by (metis le_add_diff_inverse take_add)

text \<open>One round of the outer loop: the pieces of the chunks join to a window of the run.\<close>

lemma read_loop_round:
  assumes "idx < stop" "data = chunk_data jrt rd l (idx div l_chunk_size l)"
    and "w = idx mod l_chunk_size l" "w < length data" "k = min (length data - w) (stop - idx)"
  shows "read_loop jrt rd l stop idx out
    = read_loop jrt rd l stop (idx + k) (out @ map (shown l) (take k (drop w data)))"
proof -
  have chunk: "read_chunk l data stop w idx out
      = (w + k, idx + k, out @ map (shown l) (take k (drop w data)))"
    using read_chunk_spec [of w data idx stop l out] assms by (simp add: Let_def)
  have "data \<noteq> []" using assms(4) by auto
  then show ?thesis
    using assms(1) chunk
    by (subst read_loop.simps) (auto simp: assms(2) [symmetric] assms(3) [symmetric] Let_def
        read_loop.simps [of jrt rd l stop "idx + k"])
qed

lemma read_loop_ok:
  assumes ok: "log_ok rs l" "\<forall>i. rd i" "\<forall>r\<in>set rs. jrt r = r" and stop: "stop \<le> length rs"
  shows "read_loop jrt rd l stop idx out = Some (out @ map (shown l) (take (stop - idx) (drop idx rs)))"
proof (induction "stop - idx" arbitrary: idx out rule: less_induct)
  case less
  show ?case
  proof (cases "idx < stop")
    case False
    then show ?thesis by (subst read_loop.simps) simp
  next
    case True
    define c where "c = l_chunk_size l"
    define w where "w = idx mod c"
    define data where "data = chunk_data jrt rd l (idx div c)"
    define k where "k = min (length data - w) (stop - idx)"
    have c: "0 < c" "l_flushed l = length rs div c" using ok(1) by (simp_all add: log_ok_def c_def)
    have "idx div c \<le> l_flushed l" using True stop by (simp add: c(2) div_le_mono)
    then have data: "data = take c (drop (c * (idx div c)) rs)"
      using chunk_data_ok [OF ok] by (simp add: data_def c_def)
    have idx: "c * (idx div c) + w = idx" by (simp add: w_def)
    have w: "w < c" using c by (simp add: w_def)
    have wl: "w < length data"
      using True stop w idx unfolding data length_take length_drop by linarith
    have k: "0 < k" "k \<le> stop - idx" "k \<le> length data - w" using wl True by (auto simp: k_def)
    have "drop w data = take (c - w) (drop idx rs)"
      by (simp add: data drop_take add.commute [of w] idx)
    moreover have "k \<le> c - w" using k(3) unfolding data length_take by linarith
    ultimately have part: "take k (drop w data) = take k (drop idx rs)" by (simp add: min_def)
    have "read_loop jrt rd l stop idx out
        = read_loop jrt rd l stop (idx + k) (out @ map (shown l) (take k (drop idx rs)))"
      using read_loop_round [OF True data_def [unfolded c_def] w_def [unfolded c_def] wl k_def]
      by (simp only: part)
    also have "\<dots> = Some ((out @ map (shown l) (take k (drop idx rs)))
        @ map (shown l) (take (stop - (idx + k)) (drop (idx + k) rs)))"
      by (rule less) (use k True in linarith)
    also have "take (stop - (idx + k)) (drop (idx + k) rs)
        = take (stop - idx - k) (drop k (drop idx rs))"
      by (simp add: add.commute)
    also have "(out @ map (shown l) (take k (drop idx rs)))
        @ map (shown l) (take (stop - idx - k) (drop k (drop idx rs)))
        = out @ map (shown l) (take (stop - idx) (drop idx rs))"
      by (simp only: append_assoc map_append [symmetric] take_take_drop [OF k(2)])
    finally show ?thesis .
  qed
qed

lemma read_window:
  assumes "l_n l = length rs"
    and "\<And>stop idx. stop \<le> length rs \<Longrightarrow>
      read_loop jrt rd l stop idx [] = Some (map (shown l) (take (stop - idx) (drop idx rs)))"
  shows "read_range jrt rd l off limit = Some (map (shown l) (window off limit rs))"
proof (cases "0 < limit \<and> max 0 off + limit < int (length rs)")
  case True
  then have "nat (max 0 off + limit) \<le> length rs" "nat (max 0 off + limit) - nat off = nat limit"
    by (auto simp: max_def)
  then show ?thesis
    using True assms by (auto simp: read_range_def window_def Let_def max_def split: if_splits)
next
  case False
  have "take (nat limit) (drop (nat off) rs) = drop (nat off) rs" if "0 < limit"
    using False that by (intro take_all) (auto simp: max_def split: if_splits)
  then show ?thesis
    using False assms by (auto simp: read_range_def window_def Let_def max_def split: if_splits)
qed

lemma log_ok_reads:
  assumes "log_ok rs l" "\<forall>i. rd i" "\<forall>r\<in>set rs. jrt r = r"
  shows "read_range jrt rd l off limit = Some (map (shown l) (window off limit rs))"
proof (rule read_window)
  show "l_n l = length rs" using assms(1) by (simp add: log_ok_def)
qed (simp add: read_loop_ok [OF assms])

section \<open>Claims on the log\<close>

lemma shown_append_all:
  "l_finalized (append_all ps l) = l_finalized l \<and> l_stat (append_all ps l) = l_stat l"
  unfolding append_all_def
  by (induction ps arbitrary: l) (auto simp: append_result_common split: prod.splits)

lemma shown_run: "shown (append_all ps (new_result_log dir c h)) = (\<lambda>r. r)"
  using shown_append_all [of ps "new_result_log dir c h"]
  by (simp add: shown_def new_result_log_def fun_eq_iff)

lemma shown_finalized:
  "shown (finalize order l) = apply_flags (acc_stat order (l_acc l))"
  by (simp add: shown_def finalize_def fun_eq_iff)

lemma window_flags:
  "map (apply_flags (acc_stat order (acc_of rs))) (window off limit rs)
     = window off limit (flag_results order rs)"
proof -
  have "flag_results order rs = map (apply_flags (acc_stat order (acc_of rs))) rs"
    by (simp add: flag_results_def acc_of_def Let_def)
  then show ?thesis by (simp add: window_def Let_def take_map drop_map)
qed

text \<open>
  (C17) The chunked log is a faithful list of the run: on a disk that works, whatever the chunk
  size and the number of results, every window read while the run is in flight is that window of
  the results in order of arrival, and every window read after the end is that window of the
  flagged results. In particular reading always ends.
\<close>

theorem log_reads_back:
  assumes "dir \<noteq> []" "\<forall>i. rd i" "\<forall>r\<in>set rs. jrt r = r"
  shows "read_range jrt rd (append_all (map (Pair True) rs) (new_result_log dir c h)) off limit
           = Some (window off limit rs)
    \<and> read_range jrt rd (finalize order (append_all (map (Pair True) rs) (new_result_log dir c h)))
           off limit
         = Some (window off limit (flag_results order rs))"
proof -
  define l where "l = append_all (map (Pair True) rs) (new_result_log dir c h)"
  have ok: "log_ok rs l"
    using log_ok_append_all [OF _ log_ok_new [OF assms(1)], of "map (Pair True) rs" c h]
    by (simp add: l_def comp_def)
  have n: "l_acc l = acc_of rs" using ok by (simp add: log_ok_def)
  have "read_range jrt rd l off limit = Some (map (shown l) (window off limit rs))"
    by (rule log_ok_reads [OF ok assms(2,3)])
  moreover have "read_range jrt rd (finalize order l) off limit
      = Some (map (shown (finalize order l)) (window off limit rs))"
    by (rule log_ok_reads [OF log_ok_finalize [OF ok] assms(2,3)])
  ultimately show ?thesis
    by (simp add: l_def [symmetric] shown_run [of _ dir c h, folded l_def] shown_finalized n
        window_flags) (simp add: l_def shown_run)
qed

theorem log_reads_back_witness:
  "read_range (\<lambda>r. r) (\<lambda>i. True)
      (append_all (map (Pair True) demo_run) (new_result_log ''/tmp/run'' 3 2)) 1 2
     = Some [demo_result 2 404 9000, demo_result 3 200 100]"
proof -
  have "window 1 2 demo_run = [demo_result 2 404 9000, demo_result 3 200 100]" by code_simp
  moreover have "''/tmp/run'' \<noteq> []" by simp
  ultimately show ?thesis
    using log_reads_back [of "''/tmp/run''" "\<lambda>i. True" demo_run "\<lambda>r. r" 3 2 1 2] by simp
qed

text \<open>A loop of \<open>readRange\<close> that makes no progress: the position lies past the chunk it looks in.\<close>

definition read_stuck ::
  "(result \<Rightarrow> result) \<Rightarrow> (nat \<Rightarrow> bool) \<Rightarrow> result_log \<Rightarrow> nat \<Rightarrow> nat \<Rightarrow> bool" where
  "read_stuck jrt rd l stop idx \<longleftrightarrow>
     idx < stop \<and> chunk_data jrt rd l (idx div l_chunk_size l) \<noteq> []
     \<and> length (chunk_data jrt rd l (idx div l_chunk_size l)) \<le> idx mod l_chunk_size l"

lemma read_stuck_None:
  "read_stuck jrt rd l stop idx \<Longrightarrow> read_loop jrt rd l stop idx out = None"
proof (rule ccontr)
  assume stuck: "read_stuck jrt rd l stop idx" and "read_loop jrt rd l stop idx out \<noteq> None"
  then obtain rs where "read_loop jrt rd l stop idx out = Some rs" by blast
  then have "\<not> read_stuck jrt rd l stop idx"
  proof (induction rule: read_loop.raw_induct [rotated, consumes 1, case_names round])
    case (round f jrt rd l stop idx out rs)
    show ?case
    proof
      assume s: "read_stuck jrt rd l stop idx"
      then have "read_chunk l (chunk_data jrt rd l (idx div l_chunk_size l)) stop
          (idx mod l_chunk_size l) idx out = (idx mod l_chunk_size l, idx, out)"
        by (subst read_chunk.simps) (simp add: read_stuck_def)
      with round(2) s have "f jrt rd l stop idx out = Some rs"
        by (simp add: read_stuck_def Let_def)
      then show False using round(1) s by blast
    qed
  qed
  with stuck show False by blast
qed

text \<open>The state that a chunk file of \<open>c + 1\<close> results leaves behind makes reading spin.\<close>

lemma merged_chunk_hangs:
  assumes "2 \<le> c" "\<forall>i. rd i" "length xs = c - 1"
    and l: "l_chunk_size l = c" "l_flushed l = 1" "l_buf l = [d]" "l_n l = c + 2"
      "l_disk l 0 = Some (xs @ [a, b])"
  shows "log_all jrt rd l = None"
proof -
  define chunk0 where "chunk0 = map jrt (xs @ [a, b])"
  have len: "length chunk0 = c + 1" using assms(1,3) by (simp add: chunk0_def)
  have "read_loop jrt rd l (c + 2) 0 []
      = read_loop jrt rd l (c + 2) (0 + (c + 1)) ([] @ map (shown l) (take (c + 1) (drop 0 chunk0)))"
    by (rule read_loop_round [of 0 "c + 2" chunk0])
       (use l assms len in \<open>simp_all add: chunk_data_def chunk0_def\<close>)
  moreover have "read_stuck jrt rd l (c + 2) (c + 1)"
  proof -
    have "(c + 1) div c = 1" "(c + 1) mod c = 1"
      using assms(1) by (simp_all add: div_Suc mod_Suc)
    then show ?thesis using l by (simp add: read_stuck_def chunk_data_def)
  qed
  ultimately have "read_loop jrt rd l (c + 2) 0 [] = None" using read_stuck_None by simp
  then show ?thesis using l(4) by (simp add: log_all_def read_range_def nat_add_distrib)
qed

text \<open>
  One write that fails and then succeeds makes reading hang: when the chunk write of the
  \<open>c\<close>-th result fails, the next one succeeds (it writes \<open>c + 1\<close> results into the first chunk file) and
  one more result arrives, then \<open>all\<close>, which \<open>State\<close> calls under the engine's lock once the run
  is finished, never returns, on the unfinished log and on the finished one.
\<close>

theorem transient_write_failure_hangs:
  assumes "dir \<noteq> []" "2 \<le> c" "length rs = c + 2" "\<forall>i. rd i"
  shows "log_all jrt rd (append_all (zip (replicate (c - 1) True @ [False, True, True]) rs)
            (new_result_log dir (int c) h)) = None
    \<and> log_all jrt rd (finalize order
          (append_all (zip (replicate (c - 1) True @ [False, True, True]) rs)
            (new_result_log dir (int c) h))) = None"
proof -
  obtain xs a b d where rs: "rs = xs @ [a, b, d]" "length xs = c - 1"
  proof -
    have len: "length (drop (c - 1) rs) = 3" "length (take (c - 1) rs) = c - 1"
      using assms(2,3) by simp_all
    then obtain a b d where abd: "drop (c - 1) rs = [a, b, d]"
      unfolding numeral_3_eq_3 length_Suc_conv by auto
    have "rs = take (c - 1) rs @ [a, b, d]"
      by (simp only: abd [symmetric] append_take_drop_id)
    then show ?thesis using that len(2) by blast
  qed
  define l0 where "l0 = new_result_log dir (int c) h"
  define l1 where "l1 = append_all (zip (replicate (c - 1) True) xs) l0"
  have l0: "log_ok [] l0" by (simp add: l0_def log_ok_new [OF assms(1)])
  have l0_size: "l_chunk_size l0 = c" using assms(2) by (simp add: l0_def new_result_log_def)
  have size: "l_chunk_size (append_all ps l) = l_chunk_size l" for ps l
    unfolding append_all_def
    by (induction ps arbitrary: l) (auto simp: append_result_common split: prod.splits)
  have "map snd (zip (replicate (c - 1) True) xs) = xs" using rs(2) by simp
  moreover have "\<forall>p\<in>set (zip (replicate (c - 1) True) xs). fst p"
    by (auto dest: set_zip_leftD)
  ultimately have ok: "log_ok xs l1"
    using log_ok_append_all [OF _ l0, of "zip (replicate (c - 1) True) xs"] by (simp add: l1_def)
  have l1: "l_chunk_size l1 = c" "l_flushed l1 = 0" "l_buf l1 = xs" "l_dir l1 \<noteq> []" "l_n l1 = c - 1"
    using ok rs(2) assms(2) l0_size size [of _ l0] by (simp_all add: log_ok_def l1_def)
  define l2 where "l2 = append_result False a l1"
  define l3 where "l3 = append_result True b l2"
  define l4 where "l4 = append_result True d l3"
  have l2: "l_chunk_size l2 = c" "l_flushed l2 = 0" "l_buf l2 = xs @ [a]" "l_dir l2 \<noteq> []" "l_n l2 = c"
    using l1 assms(2) by (simp_all add: l2_def append_result_common append_result_kept)
  have l3: "l_chunk_size l3 = c" "l_flushed l3 = 1" "l_buf l3 = []" "l_dir l3 \<noteq> []" "l_n l3 = c + 1"
      "l_disk l3 0 = Some (xs @ [a, b])"
    using l2 rs(2) assms(2) by (simp_all add: l3_def append_result_common append_result_full)
  have l4: "l_chunk_size l4 = c" "l_flushed l4 = 1" "l_buf l4 = [d]" "l_n l4 = c + 2"
      "l_disk l4 0 = Some (xs @ [a, b])"
    using l3 assms(2) by (simp_all add: l4_def append_result_common append_result_kept)
  have run: "append_all (zip (replicate (c - 1) True @ [False, True, True]) rs) l0 = l4"
    using rs by (simp add: append_all_def l1_def l2_def l3_def l4_def)
  note hang = merged_chunk_hangs [OF assms(2,4) rs(2)]
  have "log_all jrt rd l4 = None" "log_all jrt rd (finalize order l4) = None"
    by (rule hang [of _ d a b]; use l4 in \<open>simp add: finalize_def\<close>)+
  then show ?thesis unfolding l0_def [symmetric] run by blast
qed

theorem transient_write_failure_hangs_witness:
  "log_all (\<lambda>r. r) (\<lambda>i. True)
     (append_all (zip (replicate (2 - 1) True @ [False, True, True]) demo_run)
       (new_result_log ''/tmp/run'' (int 2) 5)) = None"
proof -
  have "''/tmp/run'' \<noteq> []" "(2::nat) \<le> 2" "length demo_run = 2 + 2" by (simp_all add: demo_run_def)
  then show ?thesis
    using transient_write_failure_hangs [of "''/tmp/run''" 2 demo_run "\<lambda>i. True"] by blast
qed

text \<open>
  Without a directory the log keeps everything in memory, where \<open>chunkData\<close> answers the whole
  buffer for every chunk: reading from the start is right, a window that starts past the first
  chunk is the wrong one.
\<close>

lemma memory_mode_all:
  assumes "l_flushed l = 0" "l_buf l = rs" "l_n l = length rs" "0 < l_chunk_size l"
  shows "log_all jrt rd l = Some (map (shown l) rs)"
proof (cases "rs = []")
  case True
  then show ?thesis using assms by (simp add: log_all_def read_range_def read_loop.simps)
next
  case False
  have "read_loop jrt rd l (length rs) 0 []
      = read_loop jrt rd l (length rs) (0 + length rs) ([] @ map (shown l) (take (length rs) (drop 0 rs)))"
    by (rule read_loop_round [of 0 "length rs" rs])
       (use assms False in \<open>simp_all add: chunk_data_def\<close>)
  also have "\<dots> = Some (map (shown l) rs)" by (subst read_loop.simps) simp
  finally show ?thesis using assms by (simp add: log_all_def read_range_def)
qed

lemma memory_mode_second_page_wrong:
  "map_option (map res_id) (read_range (\<lambda>r. r) (\<lambda>i. True)
     (append_all (map (Pair True) demo_run) (new_result_log [] 2 5)) 2 2) = Some [1, 2]
   \<and> map res_id (window 2 2 demo_run) = [3, 4]"
  by code_simp

end
