(* ===== verification/Engine.thy ===== *)
theory Engine
  imports Jobs ResultLog Http
begin

text \<open>
  The intruder engine (\<open>internal/intruder/intruder.go\<close>, \<open>recording.go\<close>, \<open>backoff.go\<close>): the checks
  of \<open>Start\<close> and its commit under the lock, the summary of a run, grep rules, the result a
  worker builds, adaptive backoff, and the run itself as a step relation.

  \<open>Start\<close> reads \<open>closed\<close> under the lock, releases it, checks the spec and takes the lock again:
  \<open>start_check\<close> and \<open>start_commit\<close> are these two parts, so that other calls may come between. A run is
  the dispatch loop with its workers: \<open>Dispatch\<close> takes a slot and launches the next job, \<open>Append\<close> and
  \<open>Note\<close> are the two halves of \<open>appendResult\<close> (the log under its own lock, then \<open>done\<close>), \<open>Finish\<close> is
  the end of \<open>run\<close>. Outcomes of sends, clocks and file writes are the choice of the environment.
\<close>

section \<open>Small functions\<close>

definition clamp_threads :: "int \<Rightarrow> nat" where
  "clamp_threads n = (if n < 1 then 1 else if n > 64 then 64 else nat n)"

text \<open>\<open>url_host\<close> is \<open>url.Parse(s).Host\<close>, \<open>None\<close> on a parse error.\<close>

definition host_fallback :: "string \<Rightarrow> string" where
  "host_fallback target =
     (let s = (case str_index target ''://'' of Some i \<Rightarrow> drop (i + 3) target | None \<Rightarrow> target);
          s = takeWhile (\<lambda>c. c \<notin> set ''/?#'') s
      in case last_byte_index (CHR ''@'') s of Some i \<Rightarrow> drop (i + 1) s | None \<Rightarrow> s)"

definition host_only :: "(string \<Rightarrow> string option) \<Rightarrow> string \<Rightarrow> string" where
  "host_only url_host target =
     (case url_host (trim_space target) of
        Some h \<Rightarrow> if h \<noteq> [] then h else host_fallback target
      | None \<Rightarrow> host_fallback target)"

text \<open>\<open>strings.Fields\<close>\<close>

fun fields_walk :: "string \<Rightarrow> string \<Rightarrow> string list" where
  "fields_walk acc [] = (if acc = [] then [] else [acc])"
| "fields_walk acc (c # s) =
     (if is_space c then (if acc = [] then fields_walk [] s else acc # fields_walk [] s)
      else fields_walk (acc @ [c]) s)"

definition endpoint_of :: "string \<Rightarrow> string \<times> string" where
  "endpoint_of template =
     (let line = takeWhile (\<lambda>c. c \<noteq> CHR 0x0A) template;
          f = fields_walk [] line
      in if length f < 2 then ([], [])
         else (to_upper (f ! 0), takeWhile (\<lambda>c. c \<noteq> CHR ''?'') (f ! 1)))"

definition is_rl_header :: "string \<Rightarrow> bool" where
  "is_rl_header name \<longleftrightarrow>
     name = ''retry-after'' \<or> name = ''x-retry-after'' \<or> name = ''ratelimit''
     \<or> has_prefix name ''x-ratelimit-'' \<or> has_prefix name ''ratelimit-''"

definition max_rl_header_value :: nat where
  "max_rl_header_value = 128"

definition rl_headers :: "header \<Rightarrow> (string \<times> string) list" where
  "rl_headers h =
     foldl (\<lambda>out (k, v).
        let name = to_lower k in
        if \<not> is_rl_header name \<or> v = [] then out
        else (let val = take max_rl_header_value (str_join '', '' v)
              in (name, val) # filter (\<lambda>(k', _). k' \<noteq> name) out)) [] h"

text \<open>\<open>headerVal\<close>: the first key that folds to \<open>key\<close> and has a value.\<close>

definition header_val :: "header \<Rightarrow> string \<Rightarrow> string" where
  "header_val h key =
     (case find (\<lambda>(k, v). equal_fold k key \<and> v \<noteq> []) h of Some (_, v) \<Rightarrow> hd v | None \<Rightarrow> [])"

section \<open>Backoff\<close>

text \<open>Durations in nanoseconds, as \<open>time.Duration\<close>; products wrap at 64 bits.\<close>

definition wrap64 :: "int \<Rightarrow> int" where
  "wrap64 i = sint (word_of_int i :: int64)"

definition default_max_backoff :: int where "default_max_backoff = 120 * 10 ^ 9"
definition hard_max_backoff :: int where "hard_max_backoff = 600 * 10 ^ 9"

definition backoff_cap :: "int \<Rightarrow> int" where
  "backoff_cap ms =
     (if ms = 0 then default_max_backoff
      else (let d = wrap64 (ms * 10 ^ 6) in if d > hard_max_backoff then hard_max_backoff else d))"

definition clamp_backoff :: "int \<Rightarrow> int \<Rightarrow> int" where
  "clamp_backoff d cap = (if d < 0 then 0 else if d > cap then cap else d)"

definition parse_seconds :: "string \<Rightarrow> int option" where
  "parse_seconds v =
     (let v = trim_space v
      in if v = [] then None
         else case atoi v of None \<Rightarrow> None | Some n \<Rightarrow> if n < 0 then None else Some n)"

text \<open>\<open>until v\<close> is \<open>time.Until\<close> of the HTTP date \<open>v\<close>, \<open>None\<close> when it does not parse.\<close>

definition parse_retry_after :: "(string \<Rightarrow> int option) \<Rightarrow> string \<Rightarrow> int option" where
  "parse_retry_after until v =
     (let v = trim_space v
      in if v = [] then None
         else case parse_seconds v of
                Some secs \<Rightarrow> Some (wrap64 (secs * 10 ^ 9))
              | None \<Rightarrow> (case until v of
                           Some d \<Rightarrow> Some (if d < 0 then 0 else d)
                         | None \<Rightarrow> None))"

definition parse_backoff :: "(string \<Rightarrow> int option) \<Rightarrow> header \<Rightarrow> int \<Rightarrow> int \<times> bool" where
  "parse_backoff until h cap =
     (case parse_retry_after until (header_val h ''Retry-After'') of
        Some d \<Rightarrow> (clamp_backoff d cap, d > 0)
      | None \<Rightarrow>
          (case parse_seconds (header_val h ''RateLimit-Reset'') of
             Some secs \<Rightarrow> (let d = wrap64 (secs * 10 ^ 9) in (clamp_backoff d cap, d > 0))
           | None \<Rightarrow>
               (case parse_seconds (header_val h ''X-RateLimit-Reset'') of
                  Some secs \<Rightarrow> (let d = wrap64 (secs * 10 ^ 9) in (clamp_backoff d cap, d > 0))
                | None \<Rightarrow> (0, False))))"

text \<open>\<open>noteRateLimit\<close> and \<open>extendPause\<close>: the new \<open>pauseUntil\<close>, with \<open>now\<close> as the clock reads it.\<close>

definition extend_pause :: "int \<Rightarrow> int \<Rightarrow> int" where
  "extend_pause pause until = (if until > pause then until else pause)"

definition note_rate_limit ::
  "(string \<Rightarrow> int option) \<Rightarrow> int \<Rightarrow> int \<Rightarrow> header \<Rightarrow> int \<Rightarrow> int \<Rightarrow> int" where
  "note_rate_limit until now status h cap pause =
     (if cap < 0 \<or> (status \<noteq> 429 \<and> status \<noteq> 503) then pause
      else (let (d, ok) = parse_backoff until h cap
            in if ok \<and> d > 0 then extend_pause pause (now + d) else pause))"

section \<open>Grep rules\<close>

datatype grep_rule = GrepRegex regex | GrepLit string

fun grep_match :: "grep_rule \<Rightarrow> string \<Rightarrow> bool" where
  "grep_match (GrepRegex re) body = rx_match re body"
| "grep_match (GrepLit lit) body = (lit \<noteq> [] \<and> str_contains body lit)"

definition prepend_non_empty :: "string \<Rightarrow> string list \<Rightarrow> string list" where
  "prepend_non_empty first rest = (if first = [] then rest else first # rest)"

definition compile_match_rules :: "rx_compiler \<Rightarrow> string list \<Rightarrow> grep_rule list" where
  "compile_match_rules rx pats =
     concat (map (\<lambda>p. if p = [] then []
                      else case rx p of Some re \<Rightarrow> [GrepRegex re] | None \<Rightarrow> [GrepLit p]) pats)"

definition compile_extract_rules :: "rx_compiler \<Rightarrow> string list \<Rightarrow> regex list" where
  "compile_extract_rules rx pats =
     concat (map (\<lambda>p. if p = [] then [] else case rx p of Some re \<Rightarrow> [re] | None \<Rightarrow> []) pats)"

text \<open>\<open>codec.IsBinaryContentType\<close>\<close>

definition is_binary_content_type :: "string \<Rightarrow> bool" where
  "is_binary_content_type content_type =
     (let ct = to_lower (trim_space content_type);
          ct = (case byte_index (CHR '';'') ct of Some i \<Rightarrow> trim_space (take i ct) | None \<Rightarrow> ct)
      in has_prefix ct ''image/'' \<or> has_prefix ct ''audio/'' \<or> has_prefix ct ''video/''
         \<or> has_prefix ct ''font/'' \<or> ct = ''application/octet-stream'' \<or> ct = ''application/zip''
         \<or> ct = ''application/x-zip-compressed'' \<or> ct = ''application/gzip''
         \<or> ct = ''application/x-gzip'' \<or> ct = ''application/wasm'' \<or> ct = ''application/pdf'')"

record grep_env =
  ge_body :: "(string \<Rightarrow> string option) option"
  ge_decompress :: "string \<Rightarrow> string \<Rightarrow> string option"

text \<open>
  The closure \<open>doGrep\<close>. \<open>ge_body\<close> is the body reader (\<open>None\<close> inside: a read error),
  \<open>ge_decompress ce raw\<close> is \<open>codec.DecompressBody\<close>. A submatch of \<open>Some v\<close> is a match with group 1.
\<close>

definition do_grep :: "grep_env \<Rightarrow> grep_rule list \<Rightarrow> regex list \<Rightarrow> string \<Rightarrow> header \<Rightarrow> result \<Rightarrow> result" where
  "do_grep ge matches extracts hash h res =
     (if matches = [] \<and> extracts = [] \<or> hash = [] then res
      else case ge_body ge of None \<Rightarrow> res
      | Some read \<Rightarrow>
        (case read hash of None \<Rightarrow> res\<lparr>res_error := ''response body unavailable''\<rparr>
         | Some raw \<Rightarrow>
           if is_binary_content_type (header_val h ''Content-Type'') then res\<lparr>res_binary := True\<rparr>
           else
             (let ce = header_val h ''Content-Encoding'';
                  body = (if ce \<noteq> [] \<and> ce \<noteq> ''identity''
                          then (case ge_decompress ge ce raw of Some dec \<Rightarrow> dec | None \<Rightarrow> raw)
                          else raw);
                  hits = map (\<lambda>g. grep_match g body) matches;
                  res = (if matches \<noteq> []
                         then res\<lparr>res_matches := hits,
                                  res_matched := res_matched res \<or> list_ex (\<lambda>b. b) hits\<rparr>
                         else res);
                  caps = map (\<lambda>re. case rx_submatch re body of Some v \<Rightarrow> v | None \<Rightarrow> []) extracts
              in if extracts \<noteq> []
                 then res\<lparr>res_extracts := caps,
                          res_extracted := (if res_extracted res = []
                            then (case find (\<lambda>v. v \<noteq> []) caps of Some v \<Rightarrow> v | None \<Rightarrow> [])
                            else res_extracted res)\<rparr>
                 else res)))"

section \<open>The result of one job\<close>

text \<open>What \<open>sender.Send\<close> returned: the error flag and the flow, if any.\<close>

record sent_flow =
  sf_id :: int
  sf_status :: int
  sf_res_len :: int
  sf_error :: string
  sf_capture_error :: bool
  sf_body_hash :: string
  sf_headers :: header

record send_outcome =
  so_time_ms :: int
  so_start_us :: int
  so_end_us :: int
  so_failed :: bool
  so_flow :: "sent_flow option"

definition fresh_result :: "nat \<Rightarrow> nat \<Rightarrow> string \<Rightarrow> result" where
  "fresh_result idx slot label =
     \<lparr>res_id = int idx + 1, res_payload = label, res_status = 0, res_length = 0, res_time_ms = 0,
      res_error = [], res_flow_id = 0, res_flagged = False, res_anomaly = False,
      res_matched = False, res_extracted = [], res_binary = False, res_matches = [],
      res_extracts = [], res_seq = int idx + 1, res_worker = int slot, res_start_us = 0,
      res_end_us = 0, res_body_hash = [], res_rl_headers = []\<rparr>"

text \<open>
  The worker's body: \<open>Inl\<close> is the text of a parse error of the substituted request, \<open>Inr\<close> the
  outcome of the send.
\<close>

definition job_result ::
  "(result \<Rightarrow> string \<Rightarrow> header \<Rightarrow> result) \<Rightarrow> nat \<Rightarrow> nat \<Rightarrow> string \<Rightarrow> string + send_outcome \<Rightarrow> result" where
  "job_result grep idx slot label outcome =
     (let res = fresh_result idx slot label
      in case outcome of
           Inl perr \<Rightarrow> res\<lparr>res_error := ''parse: '' @ perr\<rparr>
         | Inr out \<Rightarrow>
           (let res = res\<lparr>res_start_us := so_start_us out, res_time_ms := so_time_ms out,
                          res_end_us := (if so_end_us out < 1 then 1 else so_end_us out),
                          res_error := (if so_failed out then ''send failed'' else [])\<rparr>
            in case so_flow out of None \<Rightarrow> res
               | Some f \<Rightarrow>
                 (let err = (if sf_error f \<noteq> [] then sf_error f else res_error res);
                      err = (if err = [] \<and> sf_capture_error f then ''response capture incomplete'' else err);
                      res = res\<lparr>res_status := sf_status f, res_length := sf_res_len f,
                                res_error := err, res_flow_id := sf_id f,
                                res_body_hash := sf_body_hash f,
                                res_rl_headers := rl_headers (sf_headers f)\<rparr>
                  in if err = [] then grep res (sf_body_hash f) (sf_headers f) else res)))"

section \<open>Lemmas\<close>

lemma clamp_threads_range: "1 \<le> clamp_threads n \<and> clamp_threads n \<le> 64"
  by (auto simp: clamp_threads_def nat_le_iff)

lemma takeWhile_avoids: "c \<in> set (takeWhile P s) \<Longrightarrow> P c"
  by (induction s) (auto split: if_splits)

lemma last_byte_index_None: "last_byte_index b s = None \<longleftrightarrow> b \<notin> set s"
  by (induction s) (auto split: option.splits)

lemma last_byte_index_Some: "last_byte_index b s = Some i \<Longrightarrow> b \<notin> set (drop (Suc i) s)"
  by (induction s arbitrary: i) (auto simp: last_byte_index_None split: option.splits if_splits)

text \<open>Neither user information nor a path nor a query of the target is recorded.\<close>

lemma host_fallback_clean:
  "set (host_fallback target) \<inter> set ''@/?#'' = {}"
proof -
  define s where "s = takeWhile (\<lambda>c. c \<notin> set ''/?#'')
    (case str_index target ''://'' of Some i \<Rightarrow> drop (i + 3) target | None \<Rightarrow> target)"
  have no: "c \<notin> set ''/?#''" if "c \<in> set s" for c
    using takeWhile_avoids that by (fastforce simp: s_def)
  have at: "CHR ''@'' \<notin> set (case last_byte_index (CHR ''@'') s of Some i \<Rightarrow> drop (i + 1) s | None \<Rightarrow> s)"
    by (auto simp: last_byte_index_None dest: last_byte_index_Some split: option.splits)
  have sub: "set (case last_byte_index (CHR ''@'') s of Some i \<Rightarrow> drop (i + 1) s | None \<Rightarrow> s) \<subseteq> set s"
    by (auto dest: in_set_dropD split: option.splits)
  have "host_fallback target = (case last_byte_index (CHR ''@'') s of Some i \<Rightarrow> drop (i + 1) s | None \<Rightarrow> s)"
    unfolding host_fallback_def Let_def s_def by (rule refl)
  then show ?thesis using no at sub by auto
qed

lemma endpoint_no_query: "CHR ''?'' \<notin> set (snd (endpoint_of t))"
  by (auto simp: endpoint_of_def Let_def dest: takeWhile_avoids)

text \<open>A pause is only ever moved out, and never by more than the cap.\<close>

lemma note_rate_limit_bounds:
  "pause \<le> note_rate_limit until now status h cap pause
   \<and> note_rate_limit until now status h cap pause \<le> max pause (now + max 0 cap)"
proof -
  have "fst (parse_backoff until h cap) \<le> max 0 cap"
    by (auto simp: parse_backoff_def clamp_backoff_def Let_def split: option.splits)
  then show ?thesis
    by (auto simp: note_rate_limit_def extend_pause_def split: prod.splits)
qed

lemma backoff_cap_bound: "backoff_cap ms \<le> hard_max_backoff"
  by (simp add: backoff_cap_def default_max_backoff_def hard_max_backoff_def Let_def)

text \<open>Whatever the environment answers, a result names its job and its worker.\<close>

lemma do_grep_keeps:
  "res_id (do_grep ge ms xs hash h res) = res_id res \<and> res_payload (do_grep ge ms xs hash h res) = res_payload res
   \<and> res_seq (do_grep ge ms xs hash h res) = res_seq res \<and> res_worker (do_grep ge ms xs hash h res) = res_worker res"
  by (auto simp: do_grep_def Let_def split: option.splits)

lemma job_result_names:
  assumes "\<And>r hash h. res_id (grep r hash h) = res_id r \<and> res_payload (grep r hash h) = res_payload r"
  shows "res_id (job_result grep idx slot label out) = int idx + 1
    \<and> res_payload (job_result grep idx slot label out) = label"
  using assms by (simp add: job_result_def fresh_result_def Let_def split: sum.splits option.splits)

text \<open>The matched flag is the disjunction of the per-rule hits, for every rule and body.\<close>

lemma do_grep_matched:
  assumes "res_matches res = []" "\<not> res_matched res" "ms \<noteq> []"
  shows "res_matched (do_grep ge ms xs hash h res) \<longleftrightarrow> True \<in> set (res_matches (do_grep ge ms xs hash h res))"
  using assms
  by (auto simp: do_grep_def list_ex_iff Let_def split: option.splits)

end
