(* ===== verification/IntruderSystem.thy ===== *)
theory IntruderSystem
  imports Engine
begin

text \<open>
  The life of the intruder engine: \<open>Start\<close>, \<open>run\<close>, \<open>Stop\<close> and \<open>Close\<close> of
  \<open>internal/intruder/intruder.go\<close> as operations on the engine's fields (\<open>intr_engine\<close>), and the
  interleavings of the callers, the dispatch loop and the workers as the step relation \<open>intr_step\<close>.
  A \<open>run\<close> holds what the goroutine of \<open>run\<close> keeps on its stack; the field \<open>run_results\<close> lists the
  results handed to the log, for the statements only.

  The model lets any number of runs exist; that there is at most one is proved. A dispatch may
  still happen after a cancellation: the select between a free slot and the cancelled context is
  decided by the scheduler. What parsing and sending the text of a request gives is any
  function \<open>world\<close> of the text.
\<close>

section \<open>Start\<close>

datatype start_error =
  EngineClosed | UnsupportedType string | NoRepeat | NoMarkers | NoPayloads | EmptyList nat
| NoTarget | BadDelay | UnknownTransform string | NoRequests | AlreadyRunning | IndexPanic

definition max_dispatch_delay_ms :: int where
  "max_dispatch_delay_ms = (2 ^ 63 - 1) div 10 ^ 6"

text \<open>The first of the lists a pitchfork or cluster bomb reads that is empty.\<close>

fun empty_list_at :: "nat \<Rightarrow> string list list \<Rightarrow> nat option" where
  "empty_list_at i [] = None"
| "empty_list_at i (l # ls) = (if l = [] then Some i else empty_list_at (i + 1) ls)"

definition check_mode :: "attack_spec \<Rightarrow> nat \<Rightarrow> start_error option" where
  "check_mode spec n_pos =
     (if as_attack spec = ''repeat''
      then (if as_repeat spec < 1 then Some NoRepeat else None)
      else if n_pos = 0 then Some NoMarkers
      else if as_payloads spec = [] \<or> hd (as_payloads spec) = [] then Some NoPayloads
      else if as_attack spec = ''pitchfork'' \<or> as_attack spec = ''cluster''
      then map_option EmptyList (empty_list_at 1 (take n_pos (as_payloads spec)))
      else None)"

definition start_check :: "digests \<Rightarrow> bool \<Rightarrow> attack_spec \<Rightarrow> start_error + (attack_spec \<times> job list \<times> bool)" where
  "start_check dg closed spec =
     (if closed then Inl EngineClosed
      else (let raw = as_attack spec;
                spec = spec\<lparr>as_attack := normalize_attack_type raw\<rparr>;
                n_pos = length (find_markers (as_template spec))
            in if as_attack spec = [] then Inl (UnsupportedType (trim_space raw))
               else case check_mode spec n_pos of Some e \<Rightarrow> Inl e | None \<Rightarrow>
                 if as_target spec = [] then Inl NoTarget
                 else if as_delay_ms spec < 0 \<or> as_delay_ms spec > max_dispatch_delay_ms then Inl BadDelay
                 else case validate_process_rules (as_process_rules spec) of
                   Some ru \<Rightarrow> Inl (UnknownTransform ru)
                 | None \<Rightarrow>
                   (case build_jobs dg spec n_pos (baselines_of (as_template spec)) of
                      None \<Rightarrow> Inl IndexPanic
                    | Some (jobs, capped) \<Rightarrow>
                        if jobs = [] then Inl NoRequests else Inr (spec, jobs, capped))))"

record spec_summary =
  ss_attack :: string
  ss_target :: string
  ss_threads :: nat
  ss_delay_ms :: int
  ss_repeat :: int
  ss_barrier :: bool
  ss_method :: string
  ss_path :: string
  ss_grep_match :: string
  ss_grep_extract :: string
  ss_match_rules :: "string list"
  ss_extract_rules :: "string list"
  ss_process_rules :: "string list"

record intr_engine =
  ie_running :: bool
  ie_closed :: bool
  ie_log :: "result_log option"
  ie_total :: nat
  ie_done :: nat
  ie_err :: string
  ie_capped :: bool
  ie_cancel :: bool
  ie_run_id :: string
  ie_started_ts :: int
  ie_attack :: string
  ie_threads :: nat
  ie_delay_ms :: int
  ie_repeat :: int
  ie_target_host :: string
  ie_barrier :: bool
  ie_spec :: spec_summary
  ie_pause_until :: int

definition empty_summary :: spec_summary where
  "empty_summary = \<lparr>ss_attack = [], ss_target = [], ss_threads = 0, ss_delay_ms = 0, ss_repeat = 0,
     ss_barrier = False, ss_method = [], ss_path = [], ss_grep_match = [], ss_grep_extract = [],
     ss_match_rules = [], ss_extract_rules = [], ss_process_rules = []\<rparr>"

definition new_intr_engine :: intr_engine where
  "new_intr_engine = \<lparr>ie_running = False, ie_closed = False, ie_log = None, ie_total = 0, ie_done = 0,
     ie_err = [], ie_capped = False, ie_cancel = False, ie_run_id = [], ie_started_ts = 0,
     ie_attack = [], ie_threads = 0, ie_delay_ms = 0, ie_repeat = 0, ie_target_host = [],
     ie_barrier = False, ie_spec = empty_summary, ie_pause_until = 0\<rparr>"

definition result_chunk_size :: int where "result_chunk_size = 1000"
definition live_head_cap :: int where "live_head_cap = 2000"

text \<open>What \<open>Start\<close> gets from the world: the fresh directory (empty if none), id, clock, URL parser.\<close>

record start_env =
  se_dir :: string
  se_run_id :: string
  se_now_ms :: int
  se_url_host :: "string \<Rightarrow> string option"

definition start_commit ::
  "start_env \<Rightarrow> attack_spec \<times> job list \<times> bool \<Rightarrow> intr_engine \<Rightarrow> start_error + intr_engine" where
  "start_commit env p e =
     (let (spec, jobs, capped) = p in
      if ie_closed e then Inl EngineClosed
      else if ie_running e then Inl AlreadyRunning
      else (let threads = clamp_threads (as_threads spec);
                rep = (if as_attack spec = ''repeat'' then as_repeat spec else 0);
                host = host_only (se_url_host env) (as_target spec);
                bar = (as_barrier spec \<and> as_attack spec = ''repeat'' \<and> threads > 1 \<and> length jobs > 1);
                (method, path) = endpoint_of (as_template spec)
            in Inr (e\<lparr>ie_running := True,
                      ie_log := Some (new_result_log (se_dir env) result_chunk_size live_head_cap),
                      ie_total := length jobs, ie_done := 0, ie_err := [], ie_capped := capped,
                      ie_pause_until := 0, ie_run_id := se_run_id env,
                      ie_started_ts := se_now_ms env, ie_attack := as_attack spec,
                      ie_threads := threads, ie_delay_ms := as_delay_ms spec, ie_repeat := rep,
                      ie_target_host := host, ie_barrier := bar,
                      ie_spec := \<lparr>ss_attack = as_attack spec, ss_target = host,
                        ss_threads = threads, ss_delay_ms = as_delay_ms spec, ss_repeat = rep,
                        ss_barrier = bar, ss_method = method, ss_path = path,
                        ss_grep_match = as_grep_match spec, ss_grep_extract = as_grep_extract spec,
                        ss_match_rules = as_match_rules spec,
                        ss_extract_rules = as_extract_rules spec,
                        ss_process_rules = as_process_rules spec\<rparr>,
                      ie_cancel := True\<rparr>)))"

section \<open>What Start lets through\<close>

lemma normalize_attack_types:
  "normalize_attack_type t \<noteq> [] \<Longrightarrow>
    normalize_attack_type t \<in> {''repeat'', ''sniper'', ''pitchfork'', ''battering'', ''cluster''}"
  by (auto simp: normalize_attack_type_def Let_def split: if_splits)

lemma empty_list_at_None: "empty_list_at i ls = None \<longleftrightarrow> [] \<notin> set ls"
  by (induction ls arbitrary: i) auto

lemma check_mode_ok:
  assumes "check_mode spec n_pos = None"
    and "as_attack spec \<in> {''repeat'', ''sniper'', ''pitchfork'', ''battering'', ''cluster''}"
  shows "payloads_ok spec n_pos"
  using assms
  by (auto simp: check_mode_def payloads_ok_def empty_list_at_None split: if_splits)




lemma start_check_accepts:
  assumes "start_check dg closed spec = Inr (spec', jobs, capped)"
  shows "\<not> closed \<and> spec' = spec\<lparr>as_attack := normalize_attack_type (as_attack spec)\<rparr>
    \<and> payloads_ok spec' (length (find_markers (as_template spec')))
    \<and> (jobs, capped) = limit_jobs (attack_jobs dg spec' (length (find_markers (as_template spec')))
                          (baselines_of (as_template spec')))
    \<and> jobs \<noteq> [] \<and> as_target spec' \<noteq> [] \<and> validate_process_rules (as_process_rules spec') = None"
proof -
  define s where "s = spec\<lparr>as_attack := normalize_attack_type (as_attack spec)\<rparr>"
  have c: "\<not> closed" "as_attack s \<noteq> []" "check_mode s (length (find_markers (as_template s))) = None"
    "spec' = s" "as_target s \<noteq> []" "validate_process_rules (as_process_rules s) = None" "jobs \<noteq> []"
    "build_jobs dg s (length (find_markers (as_template s))) (baselines_of (as_template s)) = Some (jobs, capped)"
    using assms by (auto simp: start_check_def s_def Let_def split: if_splits option.splits prod.splits)
  have "payloads_ok s (length (find_markers (as_template s)))"
    using check_mode_ok [OF c(3)] normalize_attack_types [of "as_attack spec"] c(2) by (simp add: s_def)
  then show ?thesis using c build_jobs_limit by (simp add: s_def [symmetric])
qed


section \<open>The run\<close>

record attack_run =
  run_spec :: attack_spec
  run_jobs :: "job list"
  run_next :: nat
  run_free :: "nat list"
  run_inflight :: "(nat \<times> nat) list"
  run_noting :: "nat list"
  run_cancelled :: bool
  run_results :: "result list"
  run_oks :: "bool list"
  run_dir :: string

record intr_sys =
  is_engine :: intr_engine
  is_runs :: "attack_run list"

definition new_run :: "start_env \<Rightarrow> attack_spec \<times> job list \<times> bool \<Rightarrow> attack_run" where
  "new_run env p =
     (let (spec, jobs, capped) = p
      in \<lparr>run_spec = spec, run_jobs = jobs, run_next = 0,
          run_free = [1..<clamp_threads (as_threads spec) + 1], run_inflight = [], run_noting = [],
          run_cancelled = False, run_results = [], run_oks = [], run_dir = se_dir env\<rparr>)"

definition run_grep ::
  "rx_compiler \<Rightarrow> grep_env \<Rightarrow> attack_spec \<Rightarrow> result \<Rightarrow> string \<Rightarrow> header \<Rightarrow> result" where
  "run_grep rx ge spec res hash h =
     do_grep ge (compile_match_rules rx (prepend_non_empty (as_grep_match spec) (as_match_rules spec)))
       (compile_extract_rules rx (prepend_non_empty (as_grep_extract spec) (as_extract_rules spec)))
       hash h res"

text \<open>The raw request a worker parses and sends.\<close>

definition request_text :: "attack_spec \<Rightarrow> job \<Rightarrow> string" where
  "request_text spec j = substitute (as_template spec) (job_payloads j)"

definition dispatch :: "nat \<Rightarrow> nat list \<Rightarrow> attack_run \<Rightarrow> attack_run" where
  "dispatch slot free r =
     r\<lparr>run_next := run_next r + 1, run_free := free,
       run_inflight := run_inflight r @ [(run_next r, slot)]\<rparr>"

text \<open>The first half of \<open>appendResult\<close>, and with it the end of the worker's body.\<close>

definition append_run :: "bool \<Rightarrow> result \<Rightarrow> nat \<times> nat \<Rightarrow> attack_run \<Rightarrow> attack_run" where
  "append_run ok res w r =
     r\<lparr>run_inflight := remove1 w (run_inflight r), run_noting := run_noting r @ [snd w],
       run_results := run_results r @ [res], run_oks := run_oks r @ [ok]\<rparr>"

definition note_done :: "intr_engine \<Rightarrow> intr_engine" where
  "note_done e = e\<lparr>ie_done := (case ie_log e of Some l \<Rightarrow> log_count l | None \<Rightarrow> 0)\<rparr>"

definition note_run :: "nat \<Rightarrow> attack_run \<Rightarrow> attack_run" where
  "note_run slot r = r\<lparr>run_noting := remove1 slot (run_noting r), run_free := run_free r @ [slot]\<rparr>"

definition cancel_runs :: "intr_engine \<Rightarrow> attack_run list \<Rightarrow> attack_run list" where
  "cancel_runs e rs = (if ie_cancel e then map (\<lambda>r. r\<lparr>run_cancelled := True\<rparr>) rs else rs)"

definition finish_engine :: "int list \<Rightarrow> bool \<Rightarrow> intr_engine \<Rightarrow> intr_engine" where
  "finish_engine order bar_failed e =
     (let e = e\<lparr>ie_log := map_option (finalize order) (ie_log e)\<rparr>;
          e = (if ie_barrier e \<and> bar_failed
               then e\<lparr>ie_barrier := False, ie_spec := (ie_spec e)\<lparr>ss_barrier := False\<rparr>\<rparr> else e)
      in e\<lparr>ie_running := False, ie_cancel := False\<rparr>)"

inductive intr_step :: "digests \<Rightarrow> rx_compiler \<Rightarrow> intr_sys \<Rightarrow> intr_sys \<Rightarrow> bool"
  for dg rx where
  Start: "start_check dg False spec = Inr p \<Longrightarrow> start_commit env p (is_engine s) = Inr e \<Longrightarrow>
     intr_step dg rx s \<lparr>is_engine = e, is_runs = is_runs s @ [new_run env p]\<rparr>"
| Dispatch: "is_runs s = rs1 @ r # rs2 \<Longrightarrow> run_next r < length (run_jobs r) \<Longrightarrow>
     run_free r = slot # free \<Longrightarrow>
     intr_step dg rx s (s\<lparr>is_runs := rs1 @ dispatch slot free r # rs2\<rparr>)"
| Append: "is_runs s = rs1 @ r # rs2 \<Longrightarrow> w \<in> set (run_inflight r) \<Longrightarrow>
     res = job_result (run_grep rx ge (run_spec r)) (fst w) (snd w) (job_label (run_jobs r ! fst w))
       (world (request_text (run_spec r) (run_jobs r ! fst w))) \<Longrightarrow>
     intr_step dg rx s
       \<lparr>is_engine = (is_engine s)\<lparr>ie_log := map_option (append_result ok res) (ie_log (is_engine s))\<rparr>,
        is_runs = rs1 @ append_run ok res w r # rs2\<rparr>"
| Note: "is_runs s = rs1 @ r # rs2 \<Longrightarrow> slot \<in> set (run_noting r) \<Longrightarrow>
     intr_step dg rx s
       \<lparr>is_engine = note_done (is_engine s), is_runs = rs1 @ note_run slot r # rs2\<rparr>"
| Pause: "intr_step dg rx s (s\<lparr>is_engine := (is_engine s)\<lparr>ie_pause_until :=
       note_rate_limit until now status h cap (ie_pause_until (is_engine s))\<rparr>\<rparr>)"
| Stop: "intr_step dg rx s (s\<lparr>is_runs := cancel_runs (is_engine s) (is_runs s)\<rparr>)"
| Close: "intr_step dg rx s
       \<lparr>is_engine = (is_engine s)\<lparr>ie_closed := True\<rparr>,
        is_runs = cancel_runs (is_engine s) (is_runs s)\<rparr>"
| Finish: "is_runs s = rs1 @ r # rs2 \<Longrightarrow> run_inflight r = [] \<Longrightarrow> run_noting r = [] \<Longrightarrow>
     run_next r = length (run_jobs r) \<or> run_cancelled r \<Longrightarrow>
     intr_step dg rx s
       \<lparr>is_engine = finish_engine order bar_failed (is_engine s), is_runs = rs1 @ rs2\<rparr>"

inductive intr_reachable :: "digests \<Rightarrow> rx_compiler \<Rightarrow> intr_sys \<Rightarrow> bool" for dg rx where
  init: "intr_reachable dg rx \<lparr>is_engine = new_intr_engine, is_runs = []\<rparr>"
| step: "intr_reachable dg rx s \<Longrightarrow> intr_step dg rx s s' \<Longrightarrow> intr_reachable dg rx s'"

text \<open>
  The results that \<open>State\<close> and \<open>Results\<close> answer; \<open>None\<close> is a read that does not return. \<open>State\<close>
  reads under the engine's lock.
\<close>

definition state_results ::
  "(result \<Rightarrow> result) \<Rightarrow> (nat \<Rightarrow> bool) \<Rightarrow> intr_engine \<Rightarrow> result list option" where
  "state_results jrt rd e =
     (case ie_log e of None \<Rightarrow> Some []
      | Some l \<Rightarrow> if ie_running e then Some (snapshot_head l) else log_all jrt rd l)"

definition results_page ::
  "(result \<Rightarrow> result) \<Rightarrow> (nat \<Rightarrow> bool) \<Rightarrow> intr_engine \<Rightarrow> int \<Rightarrow> int \<Rightarrow> (result list option \<times> nat)" where
  "results_page jrt rd e offset limit =
     (case ie_log e of None \<Rightarrow> (Some [], 0)
      | Some l \<Rightarrow> (read_range jrt rd l offset limit, log_count l))"

section \<open>The invariant of a run\<close>

text \<open>Every dispatched job is in flight or has its result, never both; every slot is in one place.\<close>

definition run_job_ids :: "attack_run \<Rightarrow> nat multiset" where
  "run_job_ids r =
     mset (map fst (run_inflight r)) + mset (map (\<lambda>x. nat (res_id x - 1)) (run_results r))"

definition run_slots :: "attack_run \<Rightarrow> nat multiset" where
  "run_slots r = mset (map snd (run_inflight r)) + mset (run_noting r) + mset (run_free r)"

definition run_inv :: "intr_engine \<Rightarrow> attack_run \<Rightarrow> bool" where
  "run_inv e r \<longleftrightarrow>
     ie_running e \<and> ie_cancel e
     \<and> ie_total e = length (run_jobs r) \<and> length (run_jobs r) \<le> max_requests
     \<and> run_next r \<le> length (run_jobs r)
     \<and> run_job_ids r = mset [0..<run_next r]
     \<and> run_slots r = mset [1..<clamp_threads (as_threads (run_spec r)) + 1]
     \<and> length (run_oks r) = length (run_results r)
     \<and> ie_log e = Some (append_all (zip (run_oks r) (run_results r))
                          (new_result_log (run_dir r) result_chunk_size live_head_cap))
     \<and> ie_done e \<le> length (run_results r)
     \<and> (run_noting r = [] \<longrightarrow> ie_done e = length (run_results r))
     \<and> (\<forall>x\<in>set (run_results r). 1 \<le> res_id x \<and>
          res_payload x = job_label (run_jobs r ! nat (res_id x - 1)))"

definition intr_inv :: "intr_sys \<Rightarrow> bool" where
  "intr_inv s \<longleftrightarrow>
     (case is_runs s of
        [] \<Rightarrow> \<not> ie_running (is_engine s) \<and> ie_done (is_engine s) \<le> ie_total (is_engine s)
              \<and> ie_total (is_engine s) \<le> max_requests
      | [r] \<Rightarrow> run_inv (is_engine s) r
      | _ \<Rightarrow> False)"

lemma intr_inv_one: "intr_inv s \<Longrightarrow> is_runs s = rs1 @ r # rs2 \<Longrightarrow> rs1 = [] \<and> rs2 = [] \<and> run_inv (is_engine s) r"
  by (cases rs1) (auto simp: intr_inv_def split: list.splits)

lemma append_all_snoc:
  "append_all (ps @ [(ok, r)]) l = append_result ok r (append_all ps l)"
  by (simp add: append_all_def)

lemma append_all_count: "l_n (append_all ps l) = l_n l + length ps"
  unfolding append_all_def
  by (induction ps arbitrary: l) (auto simp: append_result_common split: prod.splits)

lemma run_grep_names:
  "res_id (run_grep rx ge spec r hash h) = res_id r \<and> res_payload (run_grep rx ge spec r hash h) = res_payload r"
  by (simp add: run_grep_def do_grep_keeps)

lemma done_le_total:
  assumes "run_inv e r"
  shows "length (run_results r) \<le> ie_total e"
proof -
  have "size (run_job_ids r) = run_next r" using assms by (simp add: run_inv_def)
  then have "length (run_results r) \<le> run_next r" by (simp add: run_job_ids_def)
  then show ?thesis using assms by (simp add: run_inv_def)
qed

lemma run_inv_start:
  assumes "start_check dg False spec = Inr p" "start_commit env p e0 = Inr e"
  shows "run_inv e (new_run env p)" "\<not> ie_running e0"
proof -
  obtain spec' jobs capped where p: "p = (spec', jobs, capped)" by (cases p)
  have "length jobs \<le> max_requests"
    using start_check_accepts [OF assms(1) [unfolded p]] by (auto simp: limit_jobs_def)
  then show "run_inv e (new_run env p)" "\<not> ie_running e0"
    using assms(2)
    by (auto simp: p start_commit_def run_inv_def new_run_def append_all_def run_job_ids_def
        run_slots_def Let_def
        split: if_splits prod.splits)
qed

lemma dispatch_splits:
  assumes "run_free r = slot # free"
  shows "run_job_ids (dispatch slot free r) = add_mset (run_next r) (run_job_ids r)"
    "run_slots (dispatch slot free r) = run_slots r"
  using assms by (simp_all add: dispatch_def run_job_ids_def run_slots_def)

lemma append_splits:
  assumes "w \<in> set (run_inflight r)" "res_id res = int (fst w) + 1"
  shows "run_job_ids (append_run ok res w r) = run_job_ids r"
    "run_slots (append_run ok res w r) = run_slots r"
proof -
  obtain xs ys where "run_inflight r = xs @ w # ys" "w \<notin> set xs"
    using split_list_first [OF assms(1)] by blast
  then show "run_job_ids (append_run ok res w r) = run_job_ids r"
    "run_slots (append_run ok res w r) = run_slots r"
    using assms(2) by (simp_all add: append_run_def run_job_ids_def run_slots_def remove1_append)
qed

lemma note_splits:
  assumes "slot \<in> set (run_noting r)"
  shows "run_job_ids (note_run slot r) = run_job_ids r" "run_slots (note_run slot r) = run_slots r"
proof -
  obtain xs ys where "run_noting r = xs @ slot # ys" "slot \<notin> set xs"
    using split_list_first [OF assms] by blast
  then show "run_job_ids (note_run slot r) = run_job_ids r" "run_slots (note_run slot r) = run_slots r"
    by (simp_all add: note_run_def run_job_ids_def run_slots_def remove1_append)
qed

lemma run_inv_dispatch:
  assumes "run_inv e r" "run_next r < length (run_jobs r)" "run_free r = slot # free"
  shows "run_inv e (dispatch slot free r)"
  unfolding run_inv_def dispatch_splits [OF assms(3)]
  using assms by (simp add: run_inv_def dispatch_def)

lemma run_inv_append:
  assumes "run_inv e r" "w \<in> set (run_inflight r)"
    and res: "res_id res = int (fst w) + 1" "res_payload res = job_label (run_jobs r ! fst w)"
  shows "run_inv (e\<lparr>ie_log := map_option (append_result ok res) (ie_log e)\<rparr>) (append_run ok res w r)"
  unfolding run_inv_def append_splits [OF assms(2) res(1)]
  using assms by (auto simp: run_inv_def append_run_def append_all_snoc)

lemma run_inv_note:
  assumes "run_inv e r" "slot \<in> set (run_noting r)"
  shows "run_inv (note_done e) (note_run slot r)"
  unfolding run_inv_def note_splits [OF assms(2)]
  using assms
  by (auto simp: run_inv_def note_run_def note_done_def log_count_def append_all_count new_result_log_def)

lemma run_inv_cancel: "run_inv e r \<Longrightarrow> run_inv e (r\<lparr>run_cancelled := c\<rparr>)"
  by (simp add: run_inv_def run_job_ids_def run_slots_def)

lemma run_inv_cong:
  "run_inv e r \<Longrightarrow> run_inv (e\<lparr>ie_pause_until := t\<rparr>) r \<and> run_inv (e\<lparr>ie_closed := c\<rparr>) r"
  by (simp add: run_inv_def)

lemma intr_step_inv:
  assumes "intr_step dg rx s s'" "intr_inv s"
  shows "intr_inv s'"
  using assms
proof (induction rule: intr_step.induct)
  case (Start spec p env s e)
  then have "is_runs s = []"
    using run_inv_start(2) by (auto simp: intr_inv_def run_inv_def split: list.splits)
  then show ?case using run_inv_start(1) [OF Start(1,2)] by (simp add: intr_inv_def)
next
  case (Dispatch s rs1 r rs2 slot free)
  from intr_inv_one [OF Dispatch(4,1)] show ?case
    using run_inv_dispatch [OF _ Dispatch(2,3)] by (simp add: intr_inv_def)
next
  case (Append s rs1 r rs2 w res ge world ok)
  have "res_id res = int (fst w) + 1 \<and> res_payload res = job_label (run_jobs r ! fst w)"
    unfolding Append(3) using job_result_names run_grep_names by blast
  with intr_inv_one [OF Append(4,1)] show ?case
    using run_inv_append [OF _ Append(2)] by (simp add: intr_inv_def)
next
  case (Note s rs1 r rs2 slot)
  from intr_inv_one [OF Note(3,1)] show ?case
    using run_inv_note [OF _ Note(2)] by (simp add: intr_inv_def)
next
  case (Finish s rs1 r rs2 order bar_failed)
  from intr_inv_one [OF Finish(5,1)] have one: "rs1 = []" "rs2 = []" and inv: "run_inv (is_engine s) r"
    by blast+
  have "ie_done (is_engine s) \<le> ie_total (is_engine s)" "ie_total (is_engine s) \<le> max_requests"
    using inv done_le_total [OF inv] by (auto simp: run_inv_def)
  then show ?case by (simp add: one intr_inv_def finish_engine_def Let_def)
qed (auto simp: intr_inv_def cancel_runs_def run_inv_cancel run_inv_cong split: list.splits)

lemma intr_reachable_inv: "intr_reachable dg rx s \<Longrightarrow> intr_inv s"
proof (induction rule: intr_reachable.induct)
  case init
  show ?case by (simp add: intr_inv_def new_intr_engine_def)
qed (rule intr_step_inv)

section \<open>Claims\<close>

lemma slots_bound:
  assumes "run_inv e r"
  shows "distinct (map snd (run_inflight r)) \<and> length (run_inflight r) \<le> clamp_threads (as_threads (run_spec r))
    \<and> set (map snd (run_inflight r)) \<subseteq> {1..clamp_threads (as_threads (run_spec r))}"
proof -
  define n where "n = clamp_threads (as_threads (run_spec r))"
  have split: "mset (map snd (run_inflight r) @ run_noting r @ run_free r) = mset [1..<n + 1]"
    using assms unfolding run_inv_def run_slots_def n_def
    by (simp add: add.assoc del: upt_Suc)
  then have "distinct (map snd (run_inflight r) @ run_noting r @ run_free r)"
    by (metis distinct_upt mset_eq_imp_distinct_iff)
  moreover have "length (map snd (run_inflight r) @ run_noting r @ run_free r) = length [1..<n + 1]"
    using mset_eq_length [OF split] .
  moreover have "set (map snd (run_inflight r)) \<subseteq> {1..n}"
  proof -
    have "set (map snd (run_inflight r)) \<subseteq> set (map snd (run_inflight r) @ run_noting r @ run_free r)"
      by (simp only: set_append Un_upper1)
    also have "\<dots> = set [1..<n + 1]" using mset_eq_setD [OF split] .
    finally show ?thesis by (auto simp del: upt_Suc)
  qed
  ultimately have "distinct (map snd (run_inflight r))" "length (run_inflight r) \<le> n"
    "set (map snd (run_inflight r)) \<subseteq> {1..n}"
    by (simp_all del: upt_Suc)
  then show ?thesis by (simp add: n_def)
qed

definition demo_repeat :: attack_spec where
  "demo_repeat = demo_attack\<lparr>as_attack := ''null'', as_repeat := 1, as_payloads := []\<rparr>"

definition demo_jobs :: "job list" where
  "demo_jobs = [\<lparr>job_label = ''#1'', job_payloads = [''a'', ''b'']\<rparr>]"

definition demo_prep :: "attack_spec \<times> job list \<times> bool" where
  "demo_prep = (demo_repeat\<lparr>as_attack := ''repeat''\<rparr>, demo_jobs, False)"

definition demo_start_env :: start_env where
  "demo_start_env = \<lparr>se_dir = ''/tmp/r'', se_run_id = ''id'', se_now_ms = 1, se_url_host = (\<lambda>_. Some ''t'')\<rparr>"

definition demo_engine :: intr_engine where
  "demo_engine = (case start_commit demo_start_env demo_prep new_intr_engine of Inr e \<Rightarrow> e | Inl _ \<Rightarrow> new_intr_engine)"

definition demo_sent :: result where
  "demo_sent = job_result (run_grep literal_compiler \<lparr>ge_body = None, ge_decompress = (\<lambda>_ _. None)\<rparr>
     (fst demo_prep)) 0 1 ''#1'' (Inl ''bad request line'')"

definition demo_run_done :: attack_run where
  "demo_run_done = note_run 1 (append_run True demo_sent (0, 1) (dispatch 1 [2] (new_run demo_start_env demo_prep)))"

definition demo_sys :: intr_sys where
  "demo_sys = \<lparr>is_engine = note_done (demo_engine\<lparr>ie_log := map_option (append_result True demo_sent) (ie_log demo_engine)\<rparr>),
     is_runs = [demo_run_done]\<rparr>"

lemma demo_start: "start_check demo_digests False demo_repeat = Inr demo_prep"
proof -
  have "normalize_attack_type ''null'' = ''repeat''" by code_simp
  moreover have "find_markers (as_template demo_attack) = [marker @ ''a'' @ marker, marker @ ''b'' @ marker]"
    "baselines_of (as_template demo_attack) = [''a'', ''b'']"
    by code_simp+
  moreover have "build_jobs dg (demo_repeat\<lparr>as_attack := ''repeat''\<rparr>) n [''a'', ''b''] = Some (demo_jobs, False)" for dg n
    by (simp add: build_jobs_def demo_repeat_def count_loop.simps add_job_def max_requests_def
        repeat_job_def nat_dec.simps digit_chars demo_jobs_def Let_def)
  moreover have "validate_process_rules [''prefix:x''] = None" by code_simp
  ultimately show ?thesis
    by (simp add: start_check_def check_mode_def demo_repeat_def demo_prep_def Let_def
        max_dispatch_delay_ms_def demo_jobs_def)
       (simp add: demo_attack_def)
qed

text \<open>
  (C14) However \<open>Start\<close>, \<open>Stop\<close>, \<open>Close\<close>, the dispatcher and the workers interleave, there is
  at most one attack at a time and the engine says so; its requests in flight hold different
  worker slots, never more than the requested threads and never more than 64; the progress
  counter never exceeds the total, nor the total the request limit.
\<close>

theorem one_attack_at_a_time:
  assumes "intr_reachable dg rx s"
  shows "length (is_runs s) = (if ie_running (is_engine s) then 1 else 0)
    \<and> ie_done (is_engine s) \<le> ie_total (is_engine s) \<and> ie_total (is_engine s) \<le> 20000
    \<and> (\<forall>r\<in>set (is_runs s). distinct (map snd (run_inflight r))
         \<and> length (run_inflight r) \<le> clamp_threads (as_threads (run_spec r))
         \<and> length (run_inflight r) \<le> 64)"
proof -
  have inv: "intr_inv s" using intr_reachable_inv [OF assms] .
  show ?thesis
  proof (cases "is_runs s")
    case Nil
    then show ?thesis using inv by (simp add: intr_inv_def max_requests_def)
  next
    case (Cons r rs)
    then have r: "is_runs s = [r]" "run_inv (is_engine s) r"
      using inv by (auto simp: intr_inv_def split: list.splits)
    have "length (run_inflight r) \<le> 64"
      using slots_bound [OF r(2)] clamp_threads_range [of "as_threads (run_spec r)"] by linarith
    moreover have "ie_done (is_engine s) \<le> ie_total (is_engine s)"
      using r(2) done_le_total [OF r(2)] by (simp add: run_inv_def)
    ultimately show ?thesis
      using r slots_bound [OF r(2)] by (simp add: run_inv_def max_requests_def)
  qed
qed

text \<open>
  (C15) A run that is not stopped early is complete: when all its jobs were dispatched and all its
  workers are back, there is exactly one result for each job, under the label of its job, the
  progress counter equals the total, and on a disk that works the result log reads back as this
  list, in order of arrival.
\<close>

theorem finished_run_complete:
  assumes "intr_reachable dg rx s" "r \<in> set (is_runs s)"
    and "run_next r = length (run_jobs r)" "run_inflight r = []" "run_noting r = []"
  shows "mset (map res_id (run_results r)) = mset (map (\<lambda>i. int i + 1) [0..<length (run_jobs r)])
    \<and> (\<forall>x\<in>set (run_results r). res_payload x = job_label (run_jobs r ! nat (res_id x - 1)))
    \<and> ie_done (is_engine s) = ie_total (is_engine s)
    \<and> (run_dir r \<noteq> [] \<and> (\<forall>i. rd i) \<and> (\<forall>ok\<in>set (run_oks r). ok) \<and> (\<forall>x\<in>set (run_results r). jrt x = x)
        \<longrightarrow> map_option (log_all jrt rd) (ie_log (is_engine s)) = Some (Some (run_results r)))"
proof -
  have inv: "run_inv (is_engine s) r"
    using intr_reachable_inv [OF assms(1)] assms(2) by (auto simp: intr_inv_def split: list.splits)
  have ids: "mset (map (\<lambda>x. nat (res_id x - 1)) (run_results r)) = mset [0..<length (run_jobs r)]"
    using inv assms(3,4) by (simp add: run_inv_def run_job_ids_def)
  have pos: "\<forall>x\<in>set (run_results r). 1 \<le> res_id x" using inv by (simp add: run_inv_def)
  have "map res_id (run_results r) = map (\<lambda>i. int i + 1) (map (\<lambda>x. nat (res_id x - 1)) (run_results r))"
    using pos by (simp, fastforce)
  then have "mset (map res_id (run_results r))
      = image_mset (\<lambda>i. int i + 1) (mset (map (\<lambda>x. nat (res_id x - 1)) (run_results r)))"
    by (simp only: mset_map)
  then have "mset (map res_id (run_results r)) = mset (map (\<lambda>i. int i + 1) [0..<length (run_jobs r)])"
    unfolding ids by (simp only: mset_map)
  moreover have "length (run_results r) = length (run_jobs r)"
    using arg_cong [OF ids, of size] by simp
  moreover have "log_all jrt rd (append_all (zip (run_oks r) (run_results r))
      (new_result_log (run_dir r) result_chunk_size live_head_cap)) = Some (run_results r)"
    if env: "run_dir r \<noteq> []" "\<forall>i. rd i" "\<forall>ok\<in>set (run_oks r). ok" "\<forall>x\<in>set (run_results r). jrt x = x"
  proof -
    have len: "length (run_oks r) = length (run_results r)" using inv by (simp add: run_inv_def)
    have "\<forall>p\<in>set (zip (run_oks r) (run_results r)). fst p"
      using env(3) by (auto dest: set_zip_leftD)
    from log_ok_append_all [OF this log_ok_new [OF env(1)]] len
    have "log_ok (run_results r) (append_all (zip (run_oks r) (run_results r))
        (new_result_log (run_dir r) result_chunk_size live_head_cap))" by simp
    from log_ok_reads [OF this env(2,4), of 0 0] show ?thesis
      by (simp add: log_all_def shown_run window_def)
  qed
  ultimately show ?thesis using inv assms(5) by (auto simp: run_inv_def)
qed

lemma intr_demo_reachable: "intr_reachable demo_digests literal_compiler demo_sys"
proof -
  define e where "e = demo_engine"
  have commit: "start_commit demo_start_env demo_prep new_intr_engine = Inr e"
    by (simp add: e_def demo_engine_def demo_prep_def start_commit_def new_intr_engine_def Let_def
        split: prod.splits)
  define r0 where "r0 = new_run demo_start_env demo_prep"
  have free: "run_free r0 = [1, 2]" "run_jobs r0 = demo_jobs" "run_next r0 = 0" "run_inflight r0 = []"
      "run_spec r0 = fst demo_prep" "run_noting r0 = []"
    by (simp_all add: r0_def new_run_def demo_prep_def demo_repeat_def demo_attack_def clamp_threads_def
        upt_conv_Cons eval_nat_numeral)
  have jobs: "length demo_jobs = 1" "job_label (demo_jobs ! 0) = ''#1''" by (simp_all add: demo_jobs_def)
  let ?rx = literal_compiler and ?dg = demo_digests
  have 1: "intr_reachable ?dg ?rx \<lparr>is_engine = e, is_runs = [r0]\<rparr>"
    using intr_reachable.step [OF intr_reachable.init intr_step.Start [OF demo_start, of demo_start_env]]
      commit by (simp add: r0_def)
  have 2: "intr_reachable ?dg ?rx \<lparr>is_engine = e, is_runs = [dispatch 1 [2] r0]\<rparr>"
    using intr_reachable.step [OF 1 intr_step.Dispatch [of _ "[]" r0 "[]" 1 "[2]"]] free jobs by simp
  define r1 where "r1 = dispatch 1 [2] r0"
  have r1: "run_inflight r1 = [(0, 1)]" "run_spec r1 = fst demo_prep" "run_jobs r1 = demo_jobs"
    using free by (simp_all add: r1_def dispatch_def)
  have 3: "intr_reachable ?dg ?rx
      \<lparr>is_engine = e\<lparr>ie_log := map_option (append_result True demo_sent) (ie_log e)\<rparr>,
       is_runs = [append_run True demo_sent (0, 1) r1]\<rparr>"
    using intr_reachable.step [OF 2 [folded r1_def] intr_step.Append [of _ "[]" r1 "[]" "(0, 1)" demo_sent
        literal_compiler "\<lparr>ge_body = None, ge_decompress = (\<lambda>_ _. None)\<rparr>" "\<lambda>_. Inl ''bad request line''" ?dg True]]
      r1 jobs by (simp add: demo_sent_def)
  define r2 where "r2 = append_run True demo_sent (0, 1) r1"
  have r2: "run_noting r2 = [1]" using free by (simp add: r2_def append_run_def r1_def dispatch_def)
  show ?thesis
    using intr_reachable.step [OF 3 [folded r2_def] intr_step.Note [of _ "[]" r2 "[]" 1]] r2
    by (simp add: demo_sys_def e_def demo_run_done_def r2_def r1_def r0_def)
qed

lemma demo_run_facts:
  "run_next demo_run_done = 1" "run_jobs demo_run_done = demo_jobs" "run_inflight demo_run_done = []"
  "run_noting demo_run_done = []" "run_results demo_run_done = [demo_sent]"
  "run_oks demo_run_done = [True]" "run_dir demo_run_done = ''/tmp/r''"
  by (simp_all add: demo_run_done_def note_run_def append_run_def dispatch_def new_run_def demo_prep_def
      demo_start_env_def)

theorem one_attack_at_a_time_witness:
  "is_runs demo_sys = [demo_run_done] \<and> ie_running (is_engine demo_sys)
   \<and> ie_done (is_engine demo_sys) \<le> ie_total (is_engine demo_sys)
   \<and> length (run_inflight demo_run_done) \<le> 64"
proof -
  have runs: "is_runs demo_sys = [demo_run_done]" by (simp add: demo_sys_def)
  show ?thesis
    using one_attack_at_a_time [OF intr_demo_reachable] by (auto simp: runs split: if_splits)
qed

theorem finished_run_complete_witness:
  "map res_id (run_results demo_run_done) = [1]
   \<and> ie_done (is_engine demo_sys) = ie_total (is_engine demo_sys)
   \<and> map_option (log_all (\<lambda>r. r) (\<lambda>i. True)) (ie_log (is_engine demo_sys)) = Some (Some [demo_sent])"
proof -
  have runs: "demo_run_done \<in> set (is_runs demo_sys)" by (simp add: demo_sys_def)
  have "run_next demo_run_done = length (run_jobs demo_run_done)"
    by (simp add: demo_run_facts demo_jobs_def)
  from finished_run_complete [OF intr_demo_reachable runs this demo_run_facts(3,4), of "\<lambda>i. True" "\<lambda>r. r"]
  show ?thesis by (simp add: demo_run_facts demo_jobs_def)
qed

end
