(* ===== verification/Redact.thy ===== *)
theory Redact
  imports Payload
begin

text \<open>
  Masking of secrets (\<open>internal/redact\<close>): the placeholder of a value (\<open>redact.go\<close>), the
  registry of known secret values (\<open>registry.go\<close>) and the masking of credential headers in a raw
  message (\<open>http.go\<close>). SHA-256 is an argument \<open>sha\<close>; the four expressions of \<open>kindOf\<close> are written
  out as tests on the bytes; the expressions of \<open>maskQueryValues\<close> and of \<open>Text\<close> are not modelled,
  the first being an argument \<open>mq\<close>.
\<close>

section \<open>Placeholders\<close>

definition prefix_len :: nat where "prefix_len = 12"

definition word_byte :: "string \<Rightarrow> char \<Rightarrow> bool" where
  "word_byte extra c \<longleftrightarrow> is_letter c \<or> is_digit c \<or> c \<in> set extra"

definition is_bearer :: "string \<Rightarrow> bool" where
  "is_bearer v \<longleftrightarrow>
     (let t = drop 6 v; w = dropWhile (\<lambda>c. byte_val c \<in> {9, 10, 12, 13, 32}) t
      in to_lower (take 6 v) = ''bearer'' \<and> w \<noteq> t \<and> 16 \<le> length w \<and> list_all (word_byte ''._~+/=-'') w)"

definition is_jwt :: "string \<Rightarrow> bool" where
  "is_jwt v \<longleftrightarrow>
     (case split_byte (CHR ''.'') v of
        [a, b, c] \<Rightarrow>
          has_prefix a ''eyJ'' \<and> 8 \<le> length a \<and> has_prefix b ''eyJ'' \<and> 8 \<le> length b
          \<and> list_all (list_all (word_byte ''_-'')) [a, b, c]
      | _ \<Rightarrow> False)"

definition is_google_key :: "string \<Rightarrow> bool" where
  "is_google_key v \<longleftrightarrow> has_prefix v ''AIza'' \<and> length v = 39 \<and> list_all (word_byte ''_-'') (drop 4 v)"

definition is_bcrypt :: "string \<Rightarrow> bool" where
  "is_bcrypt v \<longleftrightarrow>
     length v = 60 \<and> has_prefix v ''$2'' \<and> v ! 2 \<in> set ''abxy'' \<and> v ! 3 = CHR ''$''
     \<and> is_digit (v ! 4) \<and> is_digit (v ! 5) \<and> v ! 6 = CHR ''$'' \<and> list_all (word_byte ''./'') (drop 7 v)"

definition kind_of :: "string \<Rightarrow> string" where
  "kind_of v =
     (if is_bearer v then ''bearer_token'' else if is_jwt v then ''jwt''
      else if is_google_key v then ''google_api_key'' else if is_bcrypt v then ''bcrypt_hash''
      else ''secret'')"

record described =
  de_len :: nat
  de_sha_prefix :: string
  de_kind :: string

definition describe :: "(string \<Rightarrow> string) \<Rightarrow> string \<Rightarrow> described" where
  "describe sha v =
     \<lparr>de_len = length v, de_sha_prefix = take prefix_len (hex_encode (sha v)), de_kind = kind_of v\<rparr>"

text \<open>\<open>fmt.Sprintf("[redacted \%s len=\%d sha256=\%s]", ...)\<close>\<close>

definition placeholder :: "described \<Rightarrow> string" where
  "placeholder d =
     ''[redacted '' @ de_kind d @ '' len='' @ nat_dec (de_len d) @ '' sha256='' @ de_sha_prefix d @ '']''"

definition mask_value :: "(string \<Rightarrow> string) \<Rightarrow> string \<Rightarrow> string" where
  "mask_value sha v = placeholder (describe sha v)"

lemma mask_value_nonempty [simp]: "mask_value sha v \<noteq> []"
  by (simp add: mask_value_def placeholder_def)

section \<open>The registry\<close>

definition min_secret_len :: nat where "min_secret_len = 6"

text \<open>\<open>sorted\<close> is a cache of the values, longest first, valid while \<open>dirty\<close> is false.\<close>

record registry =
  rg_values :: "string list"
  rg_sorted :: "string list"
  rg_dirty :: bool

definition new_registry :: registry where
  "new_registry = \<lparr>rg_values = [], rg_sorted = [], rg_dirty = False\<rparr>"

text \<open>A nil registry (\<open>None\<close>) tracks nothing. The second component is what \<open>Add\<close> reports.\<close>

definition reg_add :: "string \<Rightarrow> registry option \<Rightarrow> registry option \<times> bool" where
  "reg_add v ro =
     (case ro of None \<Rightarrow> (None, False)
      | Some r \<Rightarrow>
        if length v < min_secret_len then (Some r, False)
        else if v \<in> set (rg_values r) then (Some r, True)
        else (Some (r\<lparr>rg_values := rg_values r @ [v], rg_dirty := True\<rparr>), True))"

definition reg_len :: "registry option \<Rightarrow> nat" where
  "reg_len ro = (case ro of None \<Rightarrow> 0 | Some r \<Rightarrow> length (rg_values r))"

text \<open>Longest first, equal lengths in byte order.\<close>

definition longest_first :: "string list \<Rightarrow> string list" where
  "longest_first vs = sort_key (\<lambda>v. - int (length v)) (sort vs)"

definition reg_snapshot :: "registry \<Rightarrow> registry \<times> string list" where
  "reg_snapshot r =
     (if \<not> rg_dirty r then (r, rg_sorted r)
      else (r\<lparr>rg_sorted := longest_first (rg_values r), rg_dirty := False\<rparr>, longest_first (rg_values r)))"

fun mask_all :: "(string \<Rightarrow> string) \<Rightarrow> string list \<Rightarrow> string \<Rightarrow> string" where
  "mask_all sha [] s = s"
| "mask_all sha (v # vs) s =
     mask_all sha vs (if str_contains s v then replace_all v (mask_value sha v) s else s)"

definition reg_mask :: "(string \<Rightarrow> string) \<Rightarrow> registry option \<Rightarrow> string \<Rightarrow> registry option \<times> string" where
  "reg_mask sha ro s =
     (case ro of None \<Rightarrow> (None, s)
      | Some r \<Rightarrow>
        if s = [] then (Some r, s)
        else (let (r', vs) = reg_snapshot r in (Some r', mask_all sha vs s)))"

definition reg_contains :: "registry option \<Rightarrow> string \<Rightarrow> registry option \<times> bool" where
  "reg_contains ro s =
     (case ro of None \<Rightarrow> (None, False)
      | Some r \<Rightarrow>
        if s = [] then (Some r, False)
        else (let (r', vs) = reg_snapshot r in (Some r', list_ex (str_contains s) vs)))"

text \<open>The registry's invariant: the values are distinct and long enough, the cache is right.\<close>

definition reg_inv :: "registry \<Rightarrow> bool" where
  "reg_inv r \<longleftrightarrow>
     distinct (rg_values r) \<and> list_all (\<lambda>v. min_secret_len \<le> length v) (rg_values r)
     \<and> (rg_dirty r \<or> rg_sorted r = longest_first (rg_values r))"

lemma set_longest_first [simp]: "set (longest_first vs) = set vs"
  by (simp add: longest_first_def)

lemma reg_inv_new: "reg_inv new_registry"
  by (simp add: reg_inv_def new_registry_def longest_first_def)

lemma reg_inv_add: "reg_inv r \<Longrightarrow> reg_add v (Some r) = (Some r', b) \<Longrightarrow> reg_inv r'"
  by (auto simp: reg_inv_def reg_add_def split: if_splits)

lemma reg_add_values:
  "reg_add v (Some r) = (Some r', b) \<Longrightarrow>
   set (rg_values r') = set (rg_values r) \<union> (if min_secret_len \<le> length v then {v} else {})"
  by (auto simp: reg_add_def split: if_splits)


section \<open>Masking removes the registered values\<close>



lemma str_contains_refl [simp]: "str_contains s s"
  unfolding str_contains_iff by (intro exI [of _ "[]"]) simp







lemma list_ex_longest_first: "list_ex P (longest_first vs) = list_ex P vs"
  by (simp add: list_ex_iff)




text \<open>
  A secret that occurs in placeholders is not removed: the value \<open>secret\<close> itself survives, because
  every placeholder names the kind of the value it hides.
\<close>

lemma placeholder_word_survives:
  "snd (reg_contains (Some r) (snd (reg_mask sha (Some r) ''secret'')))"
  if "r = the (fst (reg_add ''secret'' (Some new_registry)))" for r
proof -
  have "rg_values r = [''secret'']" "rg_dirty r" "rg_sorted r = []"
    unfolding that by (simp_all add: reg_add_def new_registry_def min_secret_len_def)
  then have "reg_mask sha (Some r) ''secret''
      = (Some (r\<lparr>rg_sorted := [''secret''], rg_dirty := False\<rparr>), mask_value sha ''secret'')"
    by (simp add: reg_mask_def reg_snapshot_def longest_first_def)
  moreover have "str_contains (mask_value sha ''secret'') ''secret''"
  proof -
    have k: "kind_of ''secret'' = ''secret''" by code_simp
    have "mask_value sha ''secret'' = ''[redacted '' @ ''secret'' @ ('' len='' @ nat_dec (length ''secret'')
      @ '' sha256='' @ take prefix_len (hex_encode (sha ''secret'')) @ '']'')"
      by (simp add: mask_value_def placeholder_def describe_def k)
    then show ?thesis unfolding str_contains_iff by blast
  qed
  ultimately show ?thesis
    using \<open>rg_values r = [''secret'']\<close> \<open>rg_dirty r\<close>
    by (simp add: reg_contains_def reg_snapshot_def longest_first_def)
qed

end
