(* ===== verification/CredHeaders.thy ===== *)
theory CredHeaders
  imports Redact
begin

text \<open>
  Masking of the credential headers of a raw HTTP message (\<open>internal/redact/http.go\<close>):
  \<open>CredentialHeaders\<close> and what it calls, and the lemmas that it rewrites nothing but the values of
  credential headers and that it is idempotent. \<open>maskQueryValues\<close> (three regular expressions on the
  request line) is the argument \<open>mq\<close>.
\<close>

definition credential_header_names :: "string list" where
  "credential_header_names =
     [''proxy-authorization'', ''authorization'', ''set-cookie'', ''cookie'', ''x-api-key'',
      ''x-auth-token'', ''x-access-token'', ''x-csrf-token'', ''x-xsrf-token'']"

definition credential_header_segments :: "string list" where
  "credential_header_segments =
     [''token'', ''secret'', ''password'', ''passwd'', ''credential'', ''credentials'', ''signature'',
      ''auth'', ''apikey'', ''accesskey'', ''sessionid'', ''sessiontoken'']"

definition credential_header_pairs :: "string list" where
  "credential_header_pairs = [''api key'', ''access key'', ''session id'', ''session key'', ''private key'']"

definition is_evidence_header :: "string \<Rightarrow> bool" where
  "is_evidence_header name \<longleftrightarrow>
     name \<in> set [''www-authenticate'', ''proxy-authenticate'', ''authentication-info'',
                  ''proxy-authentication-info'']
     \<or> has_prefix name ''access-control-''"

fun segment_hit :: "string option \<Rightarrow> string list \<Rightarrow> bool" where
  "segment_hit prev [] = False"
| "segment_hit prev (p # ps) =
     (p \<in> set credential_header_segments
      \<or> (case prev of None \<Rightarrow> False | Some q \<Rightarrow> q @ '' '' @ p \<in> set credential_header_pairs)
      \<or> segment_hit (Some p) ps)"

definition has_credential_segment :: "string \<Rightarrow> bool" where
  "has_credential_segment name = segment_hit None (fields_by (\<lambda>c. c = CHR ''-'' \<or> c = CHR ''_'') [] name)"

definition is_credential_header_name :: "string \<Rightarrow> bool" where
  "is_credential_header_name name0 \<longleftrightarrow>
     (let name = to_lower name0 in
      name \<in> set credential_header_names \<or> \<not> is_evidence_header name \<and> has_credential_segment name)"

definition blank_byte :: "char \<Rightarrow> bool" where
  "blank_byte c \<longleftrightarrow> c = CHR '' '' \<or> c = CHR 0x09"

definition is_header_continuation :: "string \<Rightarrow> bool" where
  "is_header_continuation line \<longleftrightarrow> line \<noteq> [] \<and> blank_byte (hd line)"

definition mask_credential_header_line :: "(string \<Rightarrow> string) \<Rightarrow> string \<Rightarrow> string \<times> bool" where
  "mask_credential_header_line sha line =
     (case byte_index (CHR '':'') line of
        None \<Rightarrow> (line, False)
      | Some colon \<Rightarrow>
        if colon = 0 then (line, False)
        else if \<not> is_credential_header_name (to_lower (trim_space (take colon line))) then (line, False)
        else
          (let value0 = drop (colon + 1) line; ws = takeWhile blank_byte value0; value = dropWhile blank_byte value0
           in if value = [] \<or> has_prefix value ''[redacted'' then (line, True)
              else (take (colon + 1) line @ ws @ mask_value sha value, True)))"

definition mask_header_continuation :: "(string \<Rightarrow> string) \<Rightarrow> string \<Rightarrow> string" where
  "mask_header_continuation sha line =
     (let ws = takeWhile blank_byte line; value = dropWhile blank_byte line
      in if value = [] \<or> has_prefix value ''[redacted'' then line else ws @ mask_value sha value)"

definition newline_byte :: "char \<Rightarrow> bool" where
  "newline_byte c \<longleftrightarrow> c = CHR 0x0D \<or> c = CHR 0x0A"

text \<open>The first line, its terminator and the rest.\<close>

definition cut_line :: "string \<Rightarrow> string \<times> string \<times> string" where
  "cut_line s =
     (let line = takeWhile (\<lambda>c. \<not> newline_byte c) s; t = dropWhile (\<lambda>c. \<not> newline_byte c) s
      in case t of
           [] \<Rightarrow> (s, [], [])
         | c # u \<Rightarrow>
           if c = CHR 0x0D \<and> u \<noteq> [] \<and> hd u = CHR 0x0A then (line, [c, CHR 0x0A], tl u)
           else (line, [c], u))"

lemma cut_line_split:
  assumes "cut_line s = (line, trm, rst)"
  shows "s = line @ trm @ rst"
proof -
  have s: "s = takeWhile (\<lambda>c. \<not> newline_byte c) s @ dropWhile (\<lambda>c. \<not> newline_byte c) s" by simp
  show ?thesis
  proof (cases "dropWhile (\<lambda>c. \<not> newline_byte c) s")
    case Nil
    with assms show ?thesis unfolding cut_line_def Let_def Nil by simp
  next
    case (Cons c u)
    define l where "l = takeWhile (\<lambda>c. \<not> newline_byte c) s"
    have "s = l @ c # u" using s unfolding Cons l_def .
    moreover have "l @ trm @ rst = l @ c # u \<and> line = l"
      using assms unfolding cut_line_def Let_def Cons l_def [symmetric]
      by (cases u) (auto split: if_splits)
    ultimately show ?thesis by simp
  qed
qed

lemma cut_line_line:
  assumes "cut_line s = (line, trm, rst)"
  shows "list_all (\<lambda>c. \<not> newline_byte c) line"
proof (cases "dropWhile (\<lambda>c. \<not> newline_byte c) s")
  case Nil
  have "line = s" using assms unfolding cut_line_def Let_def Nil by simp
  with Nil show ?thesis by (simp add: dropWhile_eq_Nil_conv list_all_iff)
next
  case (Cons c u)
  have "line = takeWhile (\<lambda>c. \<not> newline_byte c) s"
    using assms unfolding cut_line_def Let_def Cons by (auto split: if_splits)
  then show ?thesis by (auto simp: list_all_iff dest: set_takeWhileD)
qed

text \<open>The terminator: none at the end of the text only, CR alone only where no LF follows.\<close>

definition term_ok :: "string \<Rightarrow> string \<Rightarrow> bool" where
  "term_ok trm rst \<longleftrightarrow>
     trm = [] \<and> rst = [] \<or> trm = [CHR 0x0A] \<or> trm = [CHR 0x0D, CHR 0x0A]
     \<or> trm = [CHR 0x0D] \<and> (rst = [] \<or> hd rst \<noteq> CHR 0x0A)"

lemma dropWhile_newline_hd: "dropWhile (\<lambda>c. \<not> newline_byte c) s = c # u \<Longrightarrow> newline_byte c"
  by (metis dropWhile_eq_Cons_conv)

lemma cut_line_term:
  assumes "cut_line s = (line, trm, rst)"
  shows "term_ok trm rst"
proof (cases "dropWhile (\<lambda>c. \<not> newline_byte c) s")
  case Nil
  with assms show ?thesis unfolding cut_line_def Let_def Nil by (simp add: term_ok_def)
next
  case (Cons c u)
  then show ?thesis
    using assms dropWhile_newline_hd [OF Cons] unfolding cut_line_def Let_def Cons
    by (auto simp: term_ok_def newline_byte_def split: if_splits)
qed

lemma cut_line_join:
  assumes "list_all (\<lambda>c. \<not> newline_byte c) line" "term_ok trm rst"
  shows "cut_line (line @ trm @ rst) = (line, trm, rst)"
proof -
  have line: "\<forall>c\<in>set line. \<not> newline_byte c" using assms(1) by (simp add: list_all_iff)
  have tw: "takeWhile (\<lambda>c. \<not> newline_byte c) (line @ t) = line @ takeWhile (\<lambda>c. \<not> newline_byte c) t"
    and dw: "dropWhile (\<lambda>c. \<not> newline_byte c) (line @ t) = dropWhile (\<lambda>c. \<not> newline_byte c) t" for t
    using line by (auto simp: takeWhile_append2 dropWhile_append2)
  have nl: "newline_byte (CHR 0x0A)" "newline_byte (CHR 0x0D)" by (simp_all add: newline_byte_def)
  have tl: "takeWhile (\<lambda>c. \<not> newline_byte c) line = line" "dropWhile (\<lambda>c. \<not> newline_byte c) line = []"
    using line by (auto simp: takeWhile_eq_all_conv dropWhile_eq_Nil_conv)
  show ?thesis
    using assms(2) unfolding term_ok_def
    by (elim disjE conjE) (simp_all add: cut_line_def Let_def tw dw nl tl)
qed

lemma cut_line_less:
  assumes "s \<noteq> []" "cut_line s = (line, trm, rst)"
  shows "length rst < length s"
proof -
  have "line @ trm \<noteq> []"
    using cut_line_split [OF assms(2)] cut_line_term [OF assms(2)] assms(1) by (auto simp: term_ok_def)
  then show ?thesis using cut_line_split [OF assms(2)] by auto
qed

text \<open>One line of the header block: the text written, and whether a continuation belongs to a credential.\<close>

definition mask_line :: "(string \<Rightarrow> string) \<Rightarrow> bool \<Rightarrow> string \<Rightarrow> string \<times> bool" where
  "mask_line sha fld line =
     (if is_header_continuation line
      then (if fld then mask_header_continuation sha line else line, fld)
      else mask_credential_header_line sha line)"

function credential_loop ::
    "(string \<Rightarrow> string) \<Rightarrow> (string \<Rightarrow> string) \<Rightarrow> string \<Rightarrow> bool \<Rightarrow> bool \<Rightarrow> string" where
  "credential_loop mq sha rest first fld =
     (if rest = [] then []
      else (let (line, trm, rst) = cut_line rest in
        if line = [] \<and> \<not> first then trm @ rst
        else if first then mq line @ trm @ credential_loop mq sha rst False fld
        else (let (masked, fld') = mask_line sha fld line
              in masked @ trm @ credential_loop mq sha rst False fld')))"
  by pat_completeness auto
termination
  by (relation "measure (\<lambda>(mq, sha, rest, first, fld). length rest)") (auto dest: cut_line_less [OF _ sym])

declare credential_loop.simps [simp del]

definition credential_headers :: "(string \<Rightarrow> string) \<Rightarrow> (string \<Rightarrow> string) \<Rightarrow> string \<Rightarrow> string" where
  "credential_headers mq sha raw = (if raw = [] then raw else credential_loop mq sha raw True False)"

section \<open>What is rewritten\<close>

text \<open>
  A reader's view of a raw message: the lines of its header block (the request or status line
  first) with their terminators, and the body, which starts at the first empty line.
\<close>

function msg_lines :: "string \<Rightarrow> bool \<Rightarrow> (string \<times> string) list \<times> string" where
  "msg_lines s first =
     (if s = [] then ([], [])
      else (let (line, trm, rst) = cut_line s in
        if line = [] \<and> \<not> first then ([], trm @ rst)
        else (let (ls, body) = msg_lines rst False in ((line, trm) # ls, body))))"
  by pat_completeness auto
termination
  by (relation "measure (\<lambda>(s, first). length s)") (auto dest: cut_line_less [OF _ sym])

declare msg_lines.simps [simp del]

definition credential_line :: "string \<Rightarrow> bool" where
  "credential_line l \<longleftrightarrow>
     (case byte_index (CHR '':'') l of None \<Rightarrow> False
      | Some k \<Rightarrow> 0 < k \<and> is_credential_header_name (trim_space (take k l)))"

text \<open>Which header lines carry a credential: a credential header and the folded lines after it.\<close>

fun credential_flags :: "bool \<Rightarrow> string list \<Rightarrow> bool list" where
  "credential_flags fld [] = []"
| "credential_flags fld (l # ls) =
     (let f = (if is_header_continuation l then fld else credential_line l) in f # credential_flags f ls)"

definition value_part :: "string \<Rightarrow> string" where
  "value_part l =
     (if is_header_continuation l then dropWhile blank_byte l
      else (case byte_index (CHR '':'') l of None \<Rightarrow> [] | Some k \<Rightarrow> dropWhile blank_byte (drop (k + 1) l)))"

definition hidden_value :: "string \<Rightarrow> bool" where
  "hidden_value v \<longleftrightarrow> v = [] \<or> has_prefix v ''[redacted''"

fun mask_rest :: "(string \<Rightarrow> string) \<Rightarrow> bool \<Rightarrow> string list \<Rightarrow> string list" where
  "mask_rest sha fld [] = []"
| "mask_rest sha fld (l # ls) = (let (m, f) = mask_line sha fld l in m # mask_rest sha f ls)"

lemma mask_value_prefix [simp]: "has_prefix (mask_value sha v) ''[redacted''"
  by (simp add: mask_value_def placeholder_def)

lemma mask_value_hd: "\<exists>w. mask_value sha v = CHR ''['' # w"
  by (simp add: mask_value_def placeholder_def)

lemma newline_free_hex: "list_all (\<lambda>c. \<not> newline_byte c) (take n (hex_encode s))"
proof -
  have hx: "n < 16 \<Longrightarrow> \<not> newline_byte (hex_char n)" for n
    by (auto simp: newline_byte_def hex_char_def byte_val_def dest!: arg_cong [where f = byte_val])
  have "list_all (\<lambda>c. \<not> newline_byte c) (hex_encode s)"
    using byte_val_less
    by (auto simp: hex_encode_def list_all_iff intro!: hx) (simp add: less_mult_imp_div_less)
  then show ?thesis by (auto simp: list_all_iff dest: in_set_takeD)
qed

lemma newline_free_dec: "list_all (\<lambda>c. \<not> newline_byte c) (nat_dec n)"
  using nat_dec_digits [of n] by (auto simp: list_all_iff newline_byte_def is_digit_def byte_val_def)

lemma newline_free_mask [simp]: "list_all (\<lambda>c. \<not> newline_byte c) (mask_value sha v)"
  using newline_free_hex [of prefix_len "sha v"] newline_free_dec [of "length v"]
  by (simp add: mask_value_def placeholder_def describe_def kind_of_def newline_byte_def)

lemma is_credential_header_name_lower [simp]:
  "is_credential_header_name (to_lower n) = is_credential_header_name n"
  by (simp add: is_credential_header_name_def)

lemma mask_credential_header_line_flag: "snd (mask_credential_header_line sha l) = credential_line l"
  by (simp add: mask_credential_header_line_def credential_line_def Let_def is_credential_header_name_def
      split: option.splits)

lemma list_all_parts:
  assumes "list_all P l"
  shows "list_all P (take k l)" "list_all P (drop k l)" "list_all P (takeWhile Q l)" "list_all P (dropWhile Q l)"
  using assms by (auto simp: list_all_iff dest: in_set_takeD in_set_dropD set_takeWhileD set_dropWhileD)

lemma newline_free_mask_line:
  assumes l: "list_all (\<lambda>c. \<not> newline_byte c) l"
  shows "list_all (\<lambda>c. \<not> newline_byte c) (fst (mask_line sha fld l))"
proof -
  have "list_all (\<lambda>c. \<not> newline_byte c) (mask_header_continuation sha l)"
    using l by (simp add: mask_header_continuation_def Let_def list_all_parts)
  moreover have "list_all (\<lambda>c. \<not> newline_byte c) (fst (mask_credential_header_line sha l))"
    using l by (simp add: mask_credential_header_line_def Let_def list_all_parts split: option.split)
  ultimately show ?thesis using l by (simp add: mask_line_def)
qed

lemma mask_line_nonempty: "l \<noteq> [] \<Longrightarrow> fst (mask_line sha fld l) \<noteq> []"
  by (auto simp: mask_line_def mask_header_continuation_def mask_credential_header_line_def Let_def
      split: option.splits)

lemma byte_index_take_append: "byte_index b l = Some k \<Longrightarrow> byte_index b (take (Suc k) l @ w) = Some k"
  by (induction l arbitrary: k) (auto split: if_splits)

lemma dropWhile_blank_mask [simp]:
  "dropWhile blank_byte (takeWhile blank_byte v @ mask_value sha u) = mask_value sha u"
  "takeWhile blank_byte (takeWhile blank_byte v @ mask_value sha u) = takeWhile blank_byte v"
proof -
  obtain w where w: "mask_value sha u = CHR ''['' # w" using mask_value_hd by blast
  have dw: "dropWhile blank_byte (takeWhile blank_byte v @ t) = dropWhile blank_byte t" for t
    by (induction v) auto
  have tw: "takeWhile blank_byte (takeWhile blank_byte v @ t) = takeWhile blank_byte v @ takeWhile blank_byte t" for t
    by (induction v) auto
  from dw tw show "dropWhile blank_byte (takeWhile blank_byte v @ mask_value sha u) = mask_value sha u"
    "takeWhile blank_byte (takeWhile blank_byte v @ mask_value sha u) = takeWhile blank_byte v"
    by (simp_all add: w blank_byte_def)
qed

text \<open>Both maskings: the result is classified as the original and masked already.\<close>

lemma mask_header_continuation_props:
  assumes "is_header_continuation l"
  shows "is_header_continuation (mask_header_continuation sha l)"
    and "hidden_value (value_part (mask_header_continuation sha l))"
    and "mask_header_continuation sha (mask_header_continuation sha l) = mask_header_continuation sha l"
proof -
  obtain c t where l: "l = c # t" and c: "blank_byte c"
    using assms by (cases l) (auto simp: is_header_continuation_def)
  show cont: "is_header_continuation (mask_header_continuation sha l)"
    using c by (simp add: l mask_header_continuation_def Let_def is_header_continuation_def)
  show "hidden_value (value_part (mask_header_continuation sha l))"
    unfolding value_part_def
    by (simp only: cont if_True) (simp add: mask_header_continuation_def Let_def hidden_value_def)
  show "mask_header_continuation sha (mask_header_continuation sha l) = mask_header_continuation sha l"
    by (simp add: mask_header_continuation_def Let_def)
qed

lemma mask_credential_header_line_props:
  fixes sha l
  defines "m \<equiv> fst (mask_credential_header_line sha l)"
  assumes l: "\<not> is_header_continuation l" "l \<noteq> []"
  shows "\<not> is_header_continuation m"
    and "credential_line m = credential_line l"
    and "credential_line l \<Longrightarrow> hidden_value (value_part m)"
    and "\<not> credential_line l \<Longrightarrow> m = l"
    and "mask_credential_header_line sha m = mask_credential_header_line sha l"
proof -
  show un: "\<not> credential_line l \<Longrightarrow> m = l"
    by (cases "byte_index (CHR '':'') l")
      (auto simp: m_def credential_line_def mask_credential_header_line_def)
  have "\<not> is_header_continuation m \<and> credential_line m = credential_line l
    \<and> (credential_line l \<longrightarrow> hidden_value (value_part m))
    \<and> mask_credential_header_line sha m = mask_credential_header_line sha l"
  proof (cases "credential_line l")
    case False
    have "m = l" by (rule un [OF False])
    with False l show ?thesis by simp
  next
    case cl: True
    then obtain k where k: "byte_index (CHR '':'') l = Some k" "0 < k"
        "is_credential_header_name (trim_space (take k l))"
      by (auto simp: credential_line_def split: option.splits)
    have kl: "is_credential_header_name (to_lower (trim_space (take k l)))"
      using k(3) by (simp add: is_credential_header_name_def)
    define v where "v = drop (k + 1) l"
    show ?thesis
    proof (cases "hidden_value (dropWhile blank_byte v)")
      case True
      have "m = l"
        using k kl True
        by (auto simp: m_def mask_credential_header_line_def Let_def v_def hidden_value_def)
      with k True l show ?thesis
        by (simp add: value_part_def v_def credential_line_def)
    next
      case False
      have me: "mask_credential_header_line sha l = (take (Suc k) l @ takeWhile blank_byte v @ mask_value sha (dropWhile blank_byte v), True)"
        using k kl False
        by (auto simp add: mask_credential_header_line_def Let_def v_def hidden_value_def)
      then have m: "m = take (Suc k) l @ takeWhile blank_byte v @ mask_value sha (dropWhile blank_byte v)"
        by (simp add: m_def)
      have ix: "byte_index (CHR '':'') m = Some k"
        unfolding m by (rule byte_index_take_append [OF k(1)])
      have len: "length (take (Suc k) l) = Suc k"
        using byte_index_Some [OF k(1)] by simp
      have tk: "take k m = take k l" "drop (Suc k) m = takeWhile blank_byte v @ mask_value sha (dropWhile blank_byte v)"
        "take (Suc k) m = take (Suc k) l"
        using len by (simp_all add: m)
      have nc: "\<not> is_header_continuation m"
        using l by (cases l) (simp_all add: m is_header_continuation_def)
      have "mask_credential_header_line sha m = (m, True)"
        using k kl ix tk by (simp add: mask_credential_header_line_def Let_def)
      then have "mask_credential_header_line sha m = mask_credential_header_line sha l"
        unfolding me m .
      moreover have "credential_line m" "hidden_value (value_part m)"
        using nc k ix tk by (simp_all add: credential_line_def value_part_def hidden_value_def)
      ultimately show ?thesis using nc cl by simp
    qed
  qed
  then show "\<not> is_header_continuation m" "credential_line m = credential_line l"
    "credential_line l \<Longrightarrow> hidden_value (value_part m)"
    "mask_credential_header_line sha m = mask_credential_header_line sha l" by auto
qed

lemma mask_line_props:
  assumes "l \<noteq> []"
  shows "snd (mask_line sha fld l) = (if is_header_continuation l then fld else credential_line l)"
    and "is_header_continuation (fst (mask_line sha fld l)) = is_header_continuation l"
    and "\<not> is_header_continuation l \<Longrightarrow> credential_line (fst (mask_line sha fld l)) = credential_line l"
    and "snd (mask_line sha fld l) \<Longrightarrow> hidden_value (value_part (fst (mask_line sha fld l)))"
    and "\<not> snd (mask_line sha fld l) \<Longrightarrow> fst (mask_line sha fld l) = l"
    and "mask_line sha fld (fst (mask_line sha fld l)) = mask_line sha fld l"
proof -
  note c = mask_header_continuation_props [of l sha] and h = mask_credential_header_line_props [of l sha]
  have "snd (mask_line sha fld l) = (if is_header_continuation l then fld else credential_line l)
    \<and> is_header_continuation (fst (mask_line sha fld l)) = is_header_continuation l
    \<and> (\<not> is_header_continuation l \<longrightarrow> credential_line (fst (mask_line sha fld l)) = credential_line l)
    \<and> (snd (mask_line sha fld l) \<longrightarrow> hidden_value (value_part (fst (mask_line sha fld l))))
    \<and> (\<not> snd (mask_line sha fld l) \<longrightarrow> fst (mask_line sha fld l) = l)
    \<and> mask_line sha fld (fst (mask_line sha fld l)) = mask_line sha fld l"
  proof (cases "is_header_continuation l")
    case True
    then show ?thesis using c by (simp add: mask_line_def)
  next
    case False
    then show ?thesis using h assms
      by (cases "credential_line l") (simp_all add: mask_line_def mask_credential_header_line_flag)
  qed
  then show "snd (mask_line sha fld l) = (if is_header_continuation l then fld else credential_line l)"
    "is_header_continuation (fst (mask_line sha fld l)) = is_header_continuation l"
    "\<not> is_header_continuation l \<Longrightarrow> credential_line (fst (mask_line sha fld l)) = credential_line l"
    "snd (mask_line sha fld l) \<Longrightarrow> hidden_value (value_part (fst (mask_line sha fld l)))"
    "\<not> snd (mask_line sha fld l) \<Longrightarrow> fst (mask_line sha fld l) = l"
    "mask_line sha fld (fst (mask_line sha fld l)) = mask_line sha fld l" by blast+
qed

definition mask_header_lines ::
    "(string \<Rightarrow> string) \<Rightarrow> (string \<Rightarrow> string) \<Rightarrow> bool \<Rightarrow> bool \<Rightarrow> string list \<Rightarrow> string list" where
  "mask_header_lines mq sha first fld ls =
     (if first then (case ls of [] \<Rightarrow> [] | l # r \<Rightarrow> mq l # mask_rest sha fld r) else mask_rest sha fld ls)"

lemma credential_loop_front:
  assumes "s \<noteq> []"
  shows "credential_loop mq sha s False fld \<noteq> []
    \<and> (hd s \<noteq> CHR 0x0A \<longrightarrow> hd (credential_loop mq sha s False fld) \<noteq> CHR 0x0A)"
proof -
  obtain line trm rst where c: "cut_line s = (line, trm, rst)" by (metis prod_cases3)
  note split = cut_line_split [OF c]
  show ?thesis
  proof (cases "line = []")
    case True
    have "credential_loop mq sha s False fld = s"
      unfolding credential_loop.simps [of mq sha s] c using assms True split by simp
    then show ?thesis using assms by simp
  next
    case False
    obtain m f where m: "mask_line sha fld line = (m, f)" by force
    have "m \<noteq> []" using mask_line_nonempty [OF False, of sha fld] m by simp
    moreover have "list_all (\<lambda>c. \<not> newline_byte c) m"
      using newline_free_mask_line [OF cut_line_line [OF c], of sha fld] m by simp
    ultimately have "hd m \<noteq> CHR 0x0A" by (cases m) (auto simp: newline_byte_def)
    with \<open>m \<noteq> []\<close> show ?thesis using assms False
      by (simp add: credential_loop.simps [of mq sha s] c m)
  qed
qed

text \<open>What the reader sees of the masked message.\<close>

lemma credential_loop_lines:
  assumes mq: "\<And>l. list_all (\<lambda>c. \<not> newline_byte c) l \<Longrightarrow> list_all (\<lambda>c. \<not> newline_byte c) (mq l)"
    and mq0: "\<And>l. mq l = [] \<longleftrightarrow> l = []"
  shows "msg_lines s first = (ls, body) \<Longrightarrow>
    \<exists>ls'. msg_lines (credential_loop mq sha s first fld) first = (ls', body)
      \<and> map fst ls' = mask_header_lines mq sha first fld (map fst ls) \<and> map snd ls' = map snd ls"
proof (induction "length s" arbitrary: s first fld ls rule: less_induct)
  case less
  show ?case
  proof (cases "s = []")
    case True
    with less.prems show ?thesis
      by (simp add: credential_loop.simps [of mq sha "[]"] msg_lines.simps [of "[]"] mask_header_lines_def)
  next
    case s: False
    obtain line trm rst where c: "cut_line s = (line, trm, rst)" by (metis prod_cases3)
    note trm = cut_line_term [OF c] and nl = cut_line_line [OF c] and split = cut_line_split [OF c]
    show ?thesis
    proof (cases "line = [] \<and> \<not> first")
      case True
      with c s have "credential_loop mq sha s first fld = s" using split
        by (subst credential_loop.simps) simp
      moreover have "ls = []"
        using less.prems(1) c s True by (simp add: msg_lines.simps [of s])
      ultimately show ?thesis using less.prems True by (auto simp: mask_header_lines_def)
    next
      case False
      obtain ls1 where ls1: "msg_lines rst False = (ls1, body)" "ls = (line, trm) # ls1"
        using less.prems(1) c s False by (auto simp: msg_lines.simps [of s] split: prod.splits)
      define m where "m = (if first then mq line else fst (mask_line sha fld line))"
      define f where "f = (if first then fld else snd (mask_line sha fld line))"
      have o1: "credential_loop mq sha s first fld = m @ trm @ credential_loop mq sha rst False f"
        using c s False by (subst credential_loop.simps) (auto simp: m_def f_def split: prod.split)
      from less.hyps [OF cut_line_less [OF s c] ls1(1), of f] obtain ls2 where
        ls2: "msg_lines (credential_loop mq sha rst False f) False = (ls2, body)"
          "map fst ls2 = mask_rest sha f (map fst ls1)" "map snd ls2 = map snd ls1"
        by (auto simp: mask_header_lines_def)
      have m: "list_all (\<lambda>c. \<not> newline_byte c) m" "m = [] \<longrightarrow> first"
        using nl mq newline_free_mask_line mask_line_nonempty False by (auto simp: m_def)
      have "term_ok trm (credential_loop mq sha rst False f)"
        using trm credential_loop_front [of rst mq sha f]
        by (cases "rst = []") (auto simp: term_ok_def credential_loop.simps [of mq sha "[]"])
      then have c': "cut_line (m @ trm @ credential_loop mq sha rst False f) = (m, trm, credential_loop mq sha rst False f)"
        by (rule cut_line_join [OF m(1)])
      define out where "out = m @ trm @ credential_loop mq sha rst False f"
      have ne: "out \<noteq> []"
      proof
        assume "out = []"
        then have "m = []" "trm = []" by (simp_all add: out_def)
        moreover have "line = []"
        proof (cases first)
          case True
          then show ?thesis using \<open>m = []\<close> mq0 by (simp add: m_def)
        next
          case False
          then show ?thesis using \<open>m = []\<close> mask_line_nonempty [of line sha fld] by (auto simp: m_def)
        qed
        ultimately show False using split s trm by (auto simp: term_ok_def)
      qed
      have "msg_lines out first = ((m, trm) # ls2, body)"
        using ne c' ls2(1) m(2) by (subst msg_lines.simps) (auto simp: out_def)
      moreover have "map fst ((m, trm) # ls2) = mask_header_lines mq sha first fld (map fst ls)"
        using ls2(2) by (simp add: ls1(2) mask_header_lines_def m_def f_def split: prod.split)
      ultimately show ?thesis
        unfolding o1 [folded out_def] using ls2(3) ls1(2) by fastforce
    qed
  qed
qed

lemma msg_lines_flatten: "msg_lines s first = (ls, body) \<Longrightarrow> s = concat (map (\<lambda>(l, t). l @ t) ls) @ body"
proof (induction "length s" arbitrary: s first ls rule: less_induct)
  case less
  show ?case
  proof (cases "s = []")
    case True
    with less.prems show ?thesis by (simp add: msg_lines.simps [of "[]"])
  next
    case s: False
    obtain line trm rst where c: "cut_line s = (line, trm, rst)" by (metis prod_cases3)
    note split = cut_line_split [OF c]
    show ?thesis
    proof (cases "line = [] \<and> \<not> first")
      case True
      with less.prems c s have "ls = []" "body = trm @ rst" by (auto simp: msg_lines.simps [of s])
      with split True show ?thesis by simp
    next
      case False
      obtain ls1 where ls1: "msg_lines rst False = (ls1, body)" "ls = (line, trm) # ls1"
        using less.prems c s False by (auto simp: msg_lines.simps [of s] split: prod.splits)
      with less.hyps [OF cut_line_less [OF s c] ls1(1)] split show ?thesis by simp
    qed
  qed
qed

lemma msg_lines_nonempty: "msg_lines s first = (ls, body) \<Longrightarrow> \<forall>l\<in>set (if first then tl ls else ls). fst l \<noteq> []"
proof (induction "length s" arbitrary: s first ls rule: less_induct)
  case less
  show ?case
  proof (cases "s = []")
    case True
    with less.prems show ?thesis by (simp add: msg_lines.simps [of "[]"])
  next
    case s: False
    obtain line trm rst where c: "cut_line s = (line, trm, rst)" by (metis prod_cases3)
    show ?thesis
    proof (cases "line = [] \<and> \<not> first")
      case True
      with less.prems c s show ?thesis by (auto simp: msg_lines.simps [of s])
    next
      case False
      obtain ls1 where ls1: "msg_lines rst False = (ls1, body)" "ls = (line, trm) # ls1"
        using less.prems c s False by (auto simp: msg_lines.simps [of s] split: prod.splits)
      with less.hyps [OF cut_line_less [OF s c] ls1(1)] False show ?thesis by auto
    qed
  qed
qed

lemma mask_rest_props:
  "\<forall>l\<in>set ls. l \<noteq> [] \<Longrightarrow>
   length (mask_rest sha f ls) = length ls \<and> length (credential_flags f ls) = length ls
   \<and> (\<forall>i<length ls. if credential_flags f ls ! i then hidden_value (value_part (mask_rest sha f ls ! i))
                    else mask_rest sha f ls ! i = ls ! i)
   \<and> mask_rest sha f (mask_rest sha f ls) = mask_rest sha f ls"
proof (induction ls arbitrary: f)
  case (Cons l ls)
  have l: "l \<noteq> []" using Cons.prems by simp
  note p = mask_line_props [OF l, of sha f]
  obtain m g where m: "mask_line sha f l = (m, g)" by force
  have g: "g = (if is_header_continuation l then f else credential_line l)" using p(1) m by simp
  from Cons have IH: "length (mask_rest sha g ls) = length ls \<and> length (credential_flags g ls) = length ls
   \<and> (\<forall>i<length ls. if credential_flags g ls ! i then hidden_value (value_part (mask_rest sha g ls ! i))
                    else mask_rest sha g ls ! i = ls ! i)
   \<and> mask_rest sha g (mask_rest sha g ls) = mask_rest sha g ls" by auto
  have again: "mask_line sha f m = (m, g)" using p(6) m by simp
  have "if g then hidden_value (value_part m) else m = l" using p(4,5) m by simp
  with IH again m g show ?case
    by (auto simp: Let_def nth_Cons split: nat.split)
qed simp

definition newline_free :: "string \<Rightarrow> bool" where
  "newline_free l \<longleftrightarrow> list_all (\<lambda>c. \<not> newline_byte c) l"

lemma credential_headers_masked:
  assumes "\<And>l. newline_free l \<Longrightarrow> newline_free (mq l)"
    and "\<And>l. mq l = [] \<longleftrightarrow> l = []"
    and "\<And>l. mq (mq l) = mq l"
  shows "case (msg_lines raw True, msg_lines (credential_headers mq sha raw) True) of
           ((ls, body), (ls', body')) \<Rightarrow>
             (let flags = credential_flags False (tl (map fst ls)) in
              body' = body \<and> map snd ls' = map snd ls
              \<and> length flags = length ls - 1
              \<and> (\<forall>i<length flags.
                   if flags ! i then hidden_value (value_part (fst (ls' ! Suc i)))
                   else fst (ls' ! Suc i) = fst (ls ! Suc i)))"
    and "credential_headers mq sha (credential_headers mq sha raw) = credential_headers mq sha raw"
proof -
  have ch: "credential_headers mq sha r = credential_loop mq sha r True False" for r
    by (simp add: credential_headers_def credential_loop.simps [of mq sha "[]"])
  note lines = credential_loop_lines [OF assms(1) [unfolded newline_free_def] assms(2), of _ True]
  define out where "out = credential_headers mq sha raw"
  obtain ls body where ls: "msg_lines raw True = (ls, body)" by force
  from lines [OF _ ls, of sha False] obtain ls' where
    ls': "msg_lines out True = (ls', body)" "map fst ls' = mask_header_lines mq sha True False (map fst ls)"
      "map snd ls' = map snd ls" by (auto simp: out_def ch)
  from lines [OF _ ls'(1), of sha False] obtain ls'' where
    ls'': "msg_lines (credential_headers mq sha out) True = (ls'', body)"
      "map fst ls'' = mask_header_lines mq sha True False (map fst ls')"
      "map snd ls'' = map snd ls'" by (auto simp: ch)
  have ne: "\<forall>l\<in>set (tl (map fst ls)). l \<noteq> []"
    using msg_lines_nonempty [OF ls] by (auto simp: map_tl [symmetric])
  note rest = mask_rest_props [OF ne, of sha False]
  have "map fst ls'' = map fst ls'"
    using rest assms(3) unfolding ls''(2) ls'(2) mask_header_lines_def
    by (cases ls) auto
  then have "ls'' = ls'" using ls''(3) by (metis zip_map_fst_snd)
  then show "credential_headers mq sha (credential_headers mq sha raw) = credential_headers mq sha raw"
    using msg_lines_flatten [OF ls''(1)] msg_lines_flatten [OF ls'(1)] by (simp add: out_def)
  have at: "Suc i < length ls \<Longrightarrow> fst (ls' ! Suc i) = mask_rest sha False (tl (map fst ls)) ! i
      \<and> fst (ls ! Suc i) = tl (map fst ls) ! i" for i
  proof -
    assume i: "Suc i < length ls"
    have "length ls' = length ls" using arg_cong [OF ls'(3), of length] by simp
    then have "fst (ls' ! Suc i) = map fst ls' ! Suc i" using i by simp
    then show ?thesis using i unfolding ls'(2) mask_header_lines_def by (cases ls) auto
  qed
  show "case (msg_lines raw True, msg_lines (credential_headers mq sha raw) True) of
           ((ls, body), (ls', body')) \<Rightarrow>
             (let flags = credential_flags False (tl (map fst ls)) in
              body' = body \<and> map snd ls' = map snd ls
              \<and> length flags = length ls - 1
              \<and> (\<forall>i<length flags.
                   if flags ! i then hidden_value (value_part (fst (ls' ! Suc i)))
                   else fst (ls' ! Suc i) = fst (ls ! Suc i)))"
    using rest at ls'(3) unfolding ls ls'(1) [unfolded out_def] by (auto simp: Let_def)
qed

text \<open>
  (C23) \<open>CredentialHeaders\<close> rewrites exactly what it promises, for any masking of the request line that
  keeps it one line and is idempotent: the message it returns has the same header lines with the same
  terminators and the same body byte for byte; every header line that carries a credential, folded
  continuations included, shows no value or a placeholder; every other header line is unchanged; and
  masking the result again changes nothing.
\<close>

theorem credential_headers_scope:
  assumes "\<And>l. newline_free l \<Longrightarrow> newline_free (mq l)"
    and "\<And>l. mq l = [] \<longleftrightarrow> l = []"
    and "\<And>l. mq (mq l) = mq l"
  shows "(case (msg_lines raw True, msg_lines (credential_headers mq sha raw) True) of
            ((ls, body), (ls', body')) \<Rightarrow>
              (let flags = credential_flags False (tl (map fst ls)) in
               body' = body \<and> map snd ls' = map snd ls
               \<and> length flags = length ls - 1
               \<and> (\<forall>i<length flags.
                    if flags ! i then hidden_value (value_part (fst (ls' ! Suc i)))
                    else fst (ls' ! Suc i) = fst (ls ! Suc i))))
         \<and> credential_headers mq sha (credential_headers mq sha raw) = credential_headers mq sha raw"
  by (intro conjI credential_headers_masked assms)

definition demo_query_mask :: "string \<Rightarrow> string" where
  "demo_query_mask l = (if l = ''GET /?token=abc'' then ''GET /?token=[redacted]'' else l)"

definition demo_message :: string where
  "demo_message =
     concat (map (\<lambda>l. l @ [CHR 0x0D, CHR 0x0A])
       [''GET /?token=abc'', ''Host: a'', ''Authorization: Bearer abc'', '' folded'', [], ''Cookie: c'']) @ ''end''"

theorem credential_headers_scope_witness:
  "credential_headers demo_query_mask (\<lambda>v. ''0123456789'') demo_message \<noteq> demo_message
   \<and> (\<exists>ls'. msg_lines (credential_headers demo_query_mask (\<lambda>v. ''0123456789'') demo_message) True
             = (ls', snd (msg_lines demo_message True))
      \<and> fst (ls' ! 1) = ''Host: a''
      \<and> hidden_value (value_part (fst (ls' ! 2))) \<and> hidden_value (value_part (fst (ls' ! 3))))"
proof -
  define sha :: "string \<Rightarrow> string" where "sha = (\<lambda>v. ''0123456789'')"
  have mq: "newline_free l \<Longrightarrow> newline_free (demo_query_mask l)" "demo_query_mask l = [] \<longleftrightarrow> l = []"
    "demo_query_mask (demo_query_mask l) = demo_query_mask l" for l
    by (auto simp: demo_query_mask_def newline_free_def newline_byte_def)
  obtain ls body where ls: "msg_lines demo_message True = (ls, body)" by force
  obtain ls' body' where ls': "msg_lines (credential_headers demo_query_mask sha demo_message) True = (ls', body')"
    by force
  have "credential_flags False (tl (map fst (fst (msg_lines demo_message True)))) = [False, True, True]
    \<and> fst (fst (msg_lines demo_message True) ! 1) = ''Host: a''" by code_simp
  then have flags: "credential_flags False (tl (map fst ls)) = [False, True, True]" "fst (ls ! 1) = ''Host: a''"
    by (simp_all add: ls)
  from credential_headers_scope [OF mq, of demo_message sha] ls ls' flags(1)
  have facts: "body' = body" "length [False, True, True] = length ls - 1"
    "\<forall>i<3. if [False, True, True] ! i then hidden_value (value_part (fst (ls' ! Suc i)))
           else fst (ls' ! Suc i) = fst (ls ! Suc i)" by auto
  have "fst (ls' ! 1) = fst (ls ! 1)" using spec [OF facts(3), of 0] by simp
  moreover have "hidden_value (value_part (fst (ls' ! 2)))"
    using spec [OF facts(3), of 1] by (simp add: numeral_2_eq_2)
  moreover have "hidden_value (value_part (fst (ls' ! 3)))"
    using spec [OF facts(3), of 2] by (simp add: numeral_3_eq_3)
  moreover have "credential_headers demo_query_mask (\<lambda>v. ''0123456789'') demo_message \<noteq> demo_message"
    by code_simp
  ultimately show ?thesis using ls ls' facts(1) flags(2) by (auto simp: sha_def)
qed

end
