(* ===== verification/VarStack.thy ===== *)
theory VarStack
  imports Redact
begin

text \<open>
  Variable layers of the collection templates (\<open>internal/varstore/scope.go\<close>): scopes, layers, the
  stack that \<open>NewStack\<close> sorts and \<open>Lookup\<close> searches. A Go map of variables is an association list
  with distinct keys, so that its entries can be enumerated; \<open>wf_layer\<close> says so.
\<close>

datatype var_scope =
  ScopeLocal | ScopeData | ScopeEnvironment | ScopeFolder | ScopeCollection | ScopeGlobal

text \<open>A lower value wins.\<close>

fun scope_rank :: "var_scope \<Rightarrow> nat" where
  "scope_rank ScopeLocal = 0"
| "scope_rank ScopeData = 1"
| "scope_rank ScopeEnvironment = 2"
| "scope_rank ScopeFolder = 3"
| "scope_rank ScopeCollection = 4"
| "scope_rank ScopeGlobal = 5"

fun scope_name :: "var_scope \<Rightarrow> string" where
  "scope_name ScopeLocal = ''local''"
| "scope_name ScopeData = ''data''"
| "scope_name ScopeEnvironment = ''environment''"
| "scope_name ScopeFolder = ''folder''"
| "scope_name ScopeCollection = ''collection''"
| "scope_name ScopeGlobal = ''global''"

lemma scope_rank_inject [simp]: "scope_rank a = scope_rank b \<longleftrightarrow> a = b"
  by (cases a; cases b) simp_all

instantiation var_scope :: linorder
begin

definition "less_eq_var_scope a b \<longleftrightarrow> scope_rank a \<le> scope_rank b"
definition "less_var_scope a b \<longleftrightarrow> scope_rank a < scope_rank b"

instance
  by standard (auto simp: less_eq_var_scope_def less_var_scope_def)

end

record var =
  va_value :: string
  va_secret :: bool

type_synonym vars_map = "(string \<times> var) list"

record layer =
  ly_scope :: var_scope
  ly_name :: string
  ly_vars :: vars_map

type_synonym stack = "layer list"

definition new_stack :: "layer list \<Rightarrow> stack" where
  "new_stack ls = sort_key ly_scope ls"

fun lookup_var :: "stack \<Rightarrow> string \<Rightarrow> (var \<times> var_scope) option" where
  "lookup_var [] n = None"
| "lookup_var (l # st) n =
     (case map_of (ly_vars l) n of Some v \<Rightarrow> Some (v, ly_scope l) | None \<Rightarrow> lookup_var st n)"

definition register_secrets :: "stack \<Rightarrow> registry option \<Rightarrow> registry option" where
  "register_secrets st ro =
     foldl (\<lambda>ro (n, v). if va_secret v then fst (reg_add (va_value v) ro) else ro) ro (concat (map ly_vars st))"

text \<open>Every defined name, sorted.\<close>

definition stack_names :: "stack \<Rightarrow> string list" where
  "stack_names st = sort (remdups (concat (map (\<lambda>l. map fst (ly_vars l)) st)))"

definition wf_layer :: "layer \<Rightarrow> bool" where
  "wf_layer l \<longleftrightarrow> distinct (map fst (ly_vars l))"

section \<open>Precedence\<close>

lemma lookup_var_in:
  "lookup_var st n = Some (v, s) \<Longrightarrow> \<exists>l\<in>set st. ly_scope l = s \<and> map_of (ly_vars l) n = Some v"
  by (induction st) (auto split: option.splits)

lemma lookup_var_None_iff: "lookup_var st n = None \<longleftrightarrow> (\<forall>l\<in>set st. map_of (ly_vars l) n = None)"
  by (induction st) (auto split: option.splits)

text \<open>Sorting is stable: the layers of one scope keep the order they were given in.\<close>

lemma lookup_filter_scope:
  "sorted (map ly_scope st) \<Longrightarrow>
   lookup_var st n = Some (v, s) \<longleftrightarrow>
   lookup_var (filter (\<lambda>l. ly_scope l = s) st) n = Some (v, s)
   \<and> (\<forall>l\<in>set st. ly_scope l < s \<longrightarrow> map_of (ly_vars l) n = None)"
proof (induction st)
  case Nil
  show ?case by simp
next
  case (Cons l st)
  have IH: "lookup_var st n = Some (v, s) \<longleftrightarrow>
   lookup_var (filter (\<lambda>l. ly_scope l = s) st) n = Some (v, s)
   \<and> (\<forall>l\<in>set st. ly_scope l < s \<longrightarrow> map_of (ly_vars l) n = None)" using Cons by simp
  show ?case
  proof (cases "map_of (ly_vars l) n")
    case None
    then show ?thesis using IH by auto
  next
    case (Some w)
    have "ly_scope l \<noteq> s \<Longrightarrow> lookup_var (filter (\<lambda>l. ly_scope l = s) st) n = Some (v, s) \<Longrightarrow> ly_scope l < s"
    proof -
      assume d: "ly_scope l \<noteq> s" and "lookup_var (filter (\<lambda>l. ly_scope l = s) st) n = Some (v, s)"
      then obtain k where "k \<in> set st" "ly_scope k = s" by (auto dest!: lookup_var_in)
      then show "ly_scope l < s" using Cons.prems d by auto
    qed
    moreover have "\<forall>k\<in>set st. ly_scope k < ly_scope l \<longrightarrow> False" using Cons.prems by auto
    ultimately show ?thesis using Some by auto
  qed
qed

text \<open>
  What \<open>NewStack\<close> followed by \<open>Lookup\<close> finds: the value of the first layer that defines the name
  among those of the narrowest scope that does.
\<close>

lemma lookup_new_stack:
  "lookup_var (new_stack ls) n = Some (v, s) \<longleftrightarrow>
   lookup_var (filter (\<lambda>l. ly_scope l = s) ls) n = Some (v, s)
   \<and> (\<forall>l\<in>set ls. ly_scope l < s \<longrightarrow> map_of (ly_vars l) n = None)"
  using lookup_filter_scope [of "new_stack ls" n v s]
  by (simp add: new_stack_def sort_key_stable)

lemma lookup_new_stack_None:
  "lookup_var (new_stack ls) n = None \<longleftrightarrow> (\<forall>l\<in>set ls. map_of (ly_vars l) n = None)"
  by (simp add: lookup_var_None_iff new_stack_def)

lemma stack_names_iff: "n \<in> set (stack_names st) \<longleftrightarrow> lookup_var st n \<noteq> None"
  by (auto simp: stack_names_def lookup_var_None_iff map_of_eq_None_iff)

lemma stack_names_sorted: "sorted (stack_names st) \<and> distinct (stack_names st)"
  by (simp add: stack_names_def)

text \<open>
  \<open>NewStack\<close> and \<open>Lookup\<close> give the documented precedence: a name resolves to a value of scope \<open>s\<close>
  exactly if the first of the given layers of scope \<open>s\<close> that defines the name has that value and no
  layer of a narrower scope defines it; it is undefined exactly if no layer defines it;
  and \<open>Names\<close> lists exactly the names that resolve, sorted and without repetition.
\<close>

theorem stack_precedence:
  "(lookup_var (new_stack ls) n = Some (v, s) \<longleftrightarrow>
     lookup_var (filter (\<lambda>l. ly_scope l = s) ls) n = Some (v, s)
     \<and> (\<forall>l\<in>set ls. ly_scope l < s \<longrightarrow> map_of (ly_vars l) n = None))
   \<and> (lookup_var (new_stack ls) n = None \<longleftrightarrow> (\<forall>l\<in>set ls. map_of (ly_vars l) n = None))
   \<and> (n \<in> set (stack_names (new_stack ls)) \<longleftrightarrow> lookup_var (new_stack ls) n \<noteq> None)
   \<and> sorted (stack_names (new_stack ls)) \<and> distinct (stack_names (new_stack ls))"
  by (intro conjI lookup_new_stack lookup_new_stack_None stack_names_iff
      conjunct1 [OF stack_names_sorted] conjunct2 [OF stack_names_sorted])

theorem stack_precedence_witness:
  "lookup_var (new_stack
     [\<lparr>ly_scope = ScopeGlobal, ly_name = ''g'', ly_vars = [(''n'', \<lparr>va_value = ''1'', va_secret = False\<rparr>)]\<rparr>,
      \<lparr>ly_scope = ScopeFolder, ly_name = ''inner'', ly_vars = [(''n'', \<lparr>va_value = ''2'', va_secret = False\<rparr>)]\<rparr>,
      \<lparr>ly_scope = ScopeFolder, ly_name = ''outer'', ly_vars = [(''n'', \<lparr>va_value = ''3'', va_secret = False\<rparr>)]\<rparr>]) ''n''
   = Some (\<lparr>va_value = ''2'', va_secret = False\<rparr>, ScopeFolder)"
  by (subst conjunct1 [OF stack_precedence]) (simp add: less_var_scope_def)

end
