(* ===== verification/VarDynamic.thy ===== *)
theory VarDynamic
  imports VarStack
begin

text \<open>
  The \<open>$\<close>-variables and the pipes of the collection templates (\<open>internal/varstore/dynamic.go\<close>,
  \<open>pipes.go\<close>). The random source is an argument \<open>rnd\<close>: the \<open>p\<close>-th draw below \<open>n\<close> is \<open>rnd p n\<close>, and the
  position \<open>p\<close> is threaded through; the clock is a time in Unix milliseconds. MD5, SHA-256 and HMAC
  are arguments (record \<open>pipe_crypto\<close>).
\<close>

section \<open>Random values\<close>

type_synonym draws = "nat \<Rightarrow> nat \<Rightarrow> nat"

definition pick :: "draws \<Rightarrow> string list \<Rightarrow> nat \<Rightarrow> string \<times> nat" where
  "pick rnd ls p = (ls ! rnd p (length ls), p + 1)"

fun random_str :: "draws \<Rightarrow> string \<Rightarrow> nat \<Rightarrow> nat \<Rightarrow> string \<times> nat" where
  "random_str rnd alphabet 0 p = ([], p)"
| "random_str rnd alphabet (Suc n) p =
     (let (s, q) = random_str rnd alphabet n (p + 1) in (alphabet ! rnd p (length alphabet) # s, q))"

definition lower_alphabet :: string where "lower_alphabet = ''abcdefghijklmnopqrstuvwxyz''"
definition upper_alphabet :: string where "upper_alphabet = ''ABCDEFGHIJKLMNOPQRSTUVWXYZ''"

definition alnum :: string where "alnum = lower_alphabet @ upper_alphabet @ ''0123456789''"

definition lower_hex :: string where "lower_hex = ''0123456789abcdef''"

definition first_names :: "string list" where
  "first_names =
     [''Alex'', ''Sam'', ''Jordan'', ''Taylor'', ''Morgan'', ''Casey'', ''Riley'', ''Jamie'', ''Robin'', ''Avery'']"

definition last_names :: "string list" where
  "last_names =
     [''Smith'', ''Jones'', ''Brown'', ''Miller'', ''Davis'', ''Wilson'', ''Moore'', ''Clark'', ''Lewis'', ''Walker'']"

definition demo_words :: "string list" where
  "demo_words =
     [''alpha'', ''bravo'', ''delta'', ''echo'', ''foxtrot'', ''gamma'', ''kilo'', ''lima'', ''sierra'', ''zulu'']"

text \<open>Sixteen bytes with the version bits (high nibble 4) and the variant bits (\<open>10\<close>) set.\<close>

definition uuid_bytes :: "nat list \<Rightarrow> nat list" where
  "uuid_bytes bs = bs[6 := bs ! 6 mod 16 + 64, 8 := bs ! 8 mod 64 + 128]"

definition uuid :: "draws \<Rightarrow> nat \<Rightarrow> string \<times> nat" where
  "uuid rnd p =
     (let b = uuid_bytes (map (\<lambda>i. rnd (p + i) 256) [0..<16]);
          hx = (\<lambda>i j. hex_encode (map char_of (take (j - i) (drop i b))))
      in (hx 0 4 @ ''-'' @ hx 4 6 @ ''-'' @ hx 6 8 @ ''-'' @ hx 8 10 @ ''-'' @ hx 10 16, p + 16))"

definition payload_strings :: "(string \<times> string) list" where
  "payload_strings =
     [(''xss'', CHR 0x22 # ''><svg onload=alert(1)>''),
      (''sqli'', [CHR 0x27] @ '' OR '' @ [CHR 0x27] @ ''1'' @ [CHR 0x27] @ ''='' @ [CHR 0x27] @ ''1'' @ [CHR 0x27] @ '' -- ''),
      (''ssti'', ''{{7*7}}'')]"

text \<open>\<open>dynamic\<close>: the value of a \<open>$\<close>-name at a time in milliseconds, and the new position.\<close>

definition dynamic_value :: "string \<Rightarrow> int \<Rightarrow> draws \<Rightarrow> nat \<Rightarrow> string option \<times> nat" where
  "dynamic_value name now rnd p =
     (let ret = (\<lambda>(s, q). (Some s, q));
          num = (\<lambda>k n. nat_dec (rnd (p + k) n)) in
      case cut_prefix name ''$payload:'' of
        Some kind \<Rightarrow> (map_of payload_strings kind, p)
      | None \<Rightarrow>
        if name = ''$guid'' \<or> name = ''$randomUUID'' then ret (uuid rnd p)
        else if name = ''$timestamp'' then (Some (int_dec (now div 1000)), p)
        else if name = ''$isoTimestamp'' then (Some (iso_millis now), p)
        else if name = ''$randomInt'' then (Some (num 0 1001), p + 1)
        else if name = ''$randomAlphaNumeric'' then ret (random_str rnd alnum 1 p)
        else if name = ''$randomBoolean'' then (Some (if rnd p 2 = 1 then ''true'' else ''false''), p + 1)
        else if name = ''$randomFirstName'' then ret (pick rnd first_names p)
        else if name = ''$randomLastName'' then ret (pick rnd last_names p)
        else if name = ''$randomFullName'' then
          (let (f, q) = pick rnd first_names p; (l, q') = pick rnd last_names q in (Some (f @ '' '' @ l), q'))
        else if name = ''$randomEmail'' then
          (let (f, q) = pick rnd first_names p; (l, q') = pick rnd last_names q
           in (Some (to_lower (f @ ''.'' @ l) @ nat_dec (rnd q' 1000) @ ''@example.com''), q' + 1))
        else if name = ''$randomUserName'' then
          (let (f, q) = pick rnd first_names p; (s, q') = random_str rnd lower_hex 4 q in (Some (to_lower f @ s), q'))
        else if name = ''$randomIP'' then
          (Some (nat_dec (1 + rnd p 254) @ ''.'' @ num 1 256 @ ''.'' @ num 2 256 @ ''.''
                 @ nat_dec (1 + rnd (p + 3) 254)), p + 4)
        else if name = ''$randomPassword'' then ret (random_str rnd alnum 15 p)
        else if name = ''$randomHexColor'' then
          (let (s, q) = random_str rnd lower_hex 6 p in (Some (CHR ''#'' # s), q))
        else if name = ''$randomWord'' then ret (pick rnd demo_words p)
        else if name = ''$randomPhoneNumber'' then
          (Some (''555-'' @ left_pad 3 (CHR ''0'') (num 0 1000) @ ''-'' @ left_pad 4 (CHR ''0'') (num 1 10000)), p + 2)
        else (None, p))"

section \<open>Pipes\<close>

record pipe_crypto =
  pc_md5 :: "string \<Rightarrow> string"
  pc_sha256 :: "string \<Rightarrow> string"
  pc_hmac :: "string \<Rightarrow> string \<Rightarrow> string"

text \<open>\<open>strings.Cut(pipe, ":")\<close>: name and argument.\<close>

definition pipe_parts :: "string \<Rightarrow> string \<times> string" where
  "pipe_parts pipe = (case cut_byte (CHR '':'') pipe of None \<Rightarrow> (pipe, []) | Some na \<Rightarrow> na)"

definition apply_pipe :: "pipe_crypto \<Rightarrow> string \<Rightarrow> string \<Rightarrow> string option" where
  "apply_pipe pc v pipe =
     (let (name0, arg) = pipe_parts pipe; name = trim_space name0 in
      if name = ''b64'' then Some (base64_encode (CHR ''+'') (CHR ''/'') v)
      else if name = ''b64url'' then Some (filter (\<lambda>c. c \<noteq> CHR ''='') (base64_encode (CHR ''-'') (CHR ''_'') v))
      else if name = ''urlenc'' then Some (query_escape v)
      else if name = ''json'' then Some (json_body v)
      else if name = ''md5'' then Some (hex_encode (pc_md5 pc v))
      else if name = ''sha256'' then Some (hex_encode (pc_sha256 pc v))
      else if name = ''hmac'' then Some (hex_encode (pc_hmac pc arg v))
      else if name = ''upper'' then Some (to_upper v)
      else if name = ''lower'' then Some (to_lower v)
      else if name = ''trim'' then Some (trim_space v)
      else None)"

text \<open>The pipes of an expression in order: the result, or the pipe that is not known.\<close>

fun apply_pipes :: "pipe_crypto \<Rightarrow> string \<Rightarrow> string list \<Rightarrow> string + string" where
  "apply_pipes pc v [] = Inr v"
| "apply_pipes pc v (p # ps) =
     (case apply_pipe pc v (trim_space p) of
        None \<Rightarrow> Inl (trim_space p)
      | Some w \<Rightarrow> apply_pipes pc w ps)"

end
