(* ===== verification/VarStore.thy ===== *)
theory VarStore
  imports VarDynamic
begin

text \<open>
  The template resolver of the collections (\<open>internal/varstore/resolve.go\<close>). The state of one
  call (\<open>type run\<close>) is the record \<open>var_run\<close>; \<open>expand\<close>, its loop, \<open>eval\<close> and \<open>lookup\<close> are mutually
  recursive functions that thread it. They terminate because every nested call increases the
  depth, which is limited, and the loop consumes its template. \<open>Clock\<close> is a function from the number
  of the call to a time, the random source as in VarDynamic.
\<close>

section \<open>Types\<close>

datatype policy = PolicyBlock | PolicyLiteral | PolicyEmpty

record options =
  op_clock :: "nat \<Rightarrow> int"
  op_rand :: draws
  op_policy :: policy
  op_crypto :: pipe_crypto
  op_max_depth :: nat
  op_max_output :: nat
  op_max_expansions :: nat

definition default_max_depth :: nat where "default_max_depth = 8"
definition default_max_output :: nat where "default_max_output = 2 ^ 20"
definition default_max_expansions :: nat where "default_max_expansions = 10000"

text \<open>\<open>New\<close>: zero limits (and negative ones, which are \<open>0\<close> here) get the defaults.\<close>

definition new_resolver :: "options \<Rightarrow> options" where
  "new_resolver o1 =
     o1\<lparr>op_max_depth := (if op_max_depth o1 = 0 then default_max_depth else op_max_depth o1),
        op_max_output := (if op_max_output o1 = 0 then default_max_output else op_max_output o1),
        op_max_expansions := (if op_max_expansions o1 = 0 then default_max_expansions else op_max_expansions o1)\<rparr>"

record var_use =
  u_name :: string
  u_scope :: string
  u_secret :: bool
  u_field :: string
  u_dynamic :: bool

datatype problem =
  DepthLimit nat
| DepthLimitAt nat string
| UnknownPipe string string
| Cycle "string list" string

datatype resolve_error =
  TooLarge nat
| TooManyExpansions nat
| Unresolved "string list"

record resolved =
  r_value :: string
  r_uses :: "var_use list"
  r_unresolved :: "string list"
  r_problems :: "problem list"
  r_err :: "resolve_error option"

text \<open>\<open>unresSeen\<close> is the set of the names in \<open>unres\<close> and is not kept apart.\<close>

record var_run =
  x_field :: string
  x_uses :: "var_use list"
  x_unres :: "string list"
  x_problems :: "problem list"
  x_expands :: nat
  x_produced :: nat
  x_fatal :: "resolve_error option"
  x_registry :: "registry option"
  x_draws :: nat
  x_ticks :: nat

definition new_var_run :: "registry option \<Rightarrow> var_run" where
  "new_var_run reg =
     \<lparr>x_field = [], x_uses = [], x_unres = [], x_problems = [], x_expands = 0, x_produced = 0,
      x_fatal = None, x_registry = reg, x_draws = 0, x_ticks = 0\<rparr>"

section \<open>Steps\<close>

definition mark_unresolved :: "string \<Rightarrow> var_run \<Rightarrow> var_run" where
  "mark_unresolved n x = (if n \<in> set (x_unres x) then x else x\<lparr>x_unres := x_unres x @ [n]\<rparr>)"

definition add_problem :: "problem \<Rightarrow> var_run \<Rightarrow> var_run" where
  "add_problem p x = x\<lparr>x_problems := x_problems x @ [p]\<rparr>"

text \<open>\<open>write\<close>: the new text of the builder, or nothing when a limit is passed.\<close>

definition write_out :: "options \<Rightarrow> string \<Rightarrow> string \<Rightarrow> var_run \<Rightarrow> string option \<times> var_run" where
  "write_out op sb s x =
     (let x1 = x\<lparr>x_produced := x_produced x + length s\<rparr> in
      if x_produced x1 > op_max_output op * default_max_depth \<or> length sb + length s > op_max_output op
      then (None, x1\<lparr>x_fatal := Some (TooLarge (op_max_output op))\<rparr>)
      else (Some (sb @ s), x1))"

text \<open>
  The position of the closing braces of the expression at the front of the text, at nesting
  \<open>depth\<close>.
\<close>

fun match_end :: "string \<Rightarrow> nat \<Rightarrow> nat option" where
  "match_end (a # b # s) depth =
     (if a = CHR ''{'' \<and> b = CHR ''{'' then map_option (\<lambda>i. i + 2) (match_end s (depth + 1))
      else if a = CHR ''}'' \<and> b = CHR ''}'' then
        (if depth = 0 then Some 0 else map_option (\<lambda>i. i + 2) (match_end s (depth - 1)))
      else map_option Suc (match_end (b # s) depth))"
| "match_end _ depth = None"

definition unresolved_text :: "options \<Rightarrow> string \<Rightarrow> string" where
  "unresolved_text op e = (if op_policy op = PolicyEmpty then [] else ''{{'' @ e @ ''}}'')"

text \<open>The dynamic branch of \<open>lookup\<close>.\<close>

definition lookup_dynamic :: "options \<Rightarrow> string \<Rightarrow> var_run \<Rightarrow> (string \<times> bool \<times> var_use) option \<times> var_run" where
  "lookup_dynamic op name x =
     (case dynamic_value name (op_clock op (x_ticks x)) (op_rand op) (x_draws x) of
        (Some v, p) \<Rightarrow>
          (Some (v, False, \<lparr>u_name = name, u_scope = ''dynamic'', u_secret = False, u_field = [], u_dynamic = True\<rparr>),
           x\<lparr>x_draws := p, x_ticks := x_ticks x + 1\<rparr>)
      | (None, p) \<Rightarrow> (None, mark_unresolved name (x\<lparr>x_draws := p, x_ticks := x_ticks x + 1\<rparr>)))"

definition reg_put :: "string \<Rightarrow> var_run \<Rightarrow> var_run" where
  "reg_put v x = x\<lparr>x_registry := fst (reg_add v (x_registry x))\<rparr>"

text \<open>The end of \<open>eval\<close>: the pipes, the recorded use and the secret value.\<close>

definition finish_eval ::
    "options \<Rightarrow> string \<Rightarrow> string list \<Rightarrow> string \<times> bool \<times> var_use \<Rightarrow> var_run \<Rightarrow> (string \<times> bool) \<times> var_run" where
  "finish_eval op name pipes found x =
     (case found of (val, secret, use) \<Rightarrow>
        (case apply_pipes (op_crypto op) val pipes of
           Inl p \<Rightarrow> (([], False), mark_unresolved (name @ ''|'' @ p) (add_problem (UnknownPipe p name) x))
         | Inr v \<Rightarrow>
             (let x1 = x\<lparr>x_uses := x_uses x @ [use\<lparr>u_field := x_field x\<rparr>]\<rparr>
              in ((v, True), if secret then reg_put v x1 else x1))))"

section \<open>Expansion\<close>

function (sequential) expand :: "options \<Rightarrow> stack \<Rightarrow> string \<Rightarrow> nat \<Rightarrow> string list \<Rightarrow> var_run \<Rightarrow> string \<times> var_run"
  and expand_loop :: "options \<Rightarrow> stack \<Rightarrow> string \<Rightarrow> string \<Rightarrow> nat \<Rightarrow> string list \<Rightarrow> var_run \<Rightarrow> string \<times> var_run"
  and eval_expr :: "options \<Rightarrow> stack \<Rightarrow> string \<Rightarrow> nat \<Rightarrow> string list \<Rightarrow> var_run \<Rightarrow> (string \<times> bool) \<times> var_run"
  and eval_name :: "options \<Rightarrow> stack \<Rightarrow> string \<Rightarrow> nat \<Rightarrow> string list \<Rightarrow> var_run \<Rightarrow> (string \<times> bool) \<times> var_run"
  and lookup_ref ::
    "options \<Rightarrow> stack \<Rightarrow> string \<Rightarrow> nat \<Rightarrow> string list \<Rightarrow> var_run \<Rightarrow> (string \<times> bool \<times> var_use) option \<times> var_run"
where
  "expand op st tpl depth chain x =
     (if \<not> str_contains tpl ''{{'' then (tpl, x) else expand_loop op st tpl [] depth chain x)"
| "expand_loop op st s sb depth chain x =
     (if s = [] \<or> x_fatal x \<noteq> None then (sb, x)
      else if has_prefix s (CHR 0x5C # ''{{'') then
        (case write_out op sb ''{{'' x of
           (None, x1) \<Rightarrow> (sb, x1)
         | (Some sb1, x1) \<Rightarrow> expand_loop op st (drop 3 s) sb1 depth chain x1)
      else
        (case (if has_prefix s ''{{'' then match_end (drop 2 s) 0 else None) of
           Some j \<Rightarrow>
             (case eval_expr op st (take j (drop 2 s)) depth chain x of ((out, ok), x1) \<Rightarrow>
               (case write_out op sb (if ok then out else unresolved_text op (take j (drop 2 s))) x1 of
                  (None, x2) \<Rightarrow> (sb, x2)
                | (Some sb1, x2) \<Rightarrow> expand_loop op st (drop (j + 4) s) sb1 depth chain x2))
         | None \<Rightarrow>
             (case write_out op sb [hd s] x of
                (None, x1) \<Rightarrow> (sb, x1)
              | (Some sb1, x1) \<Rightarrow> expand_loop op st (tl s) sb1 depth chain x1)))"
| "eval_expr op st e depth chain x =
     (let x0 = x\<lparr>x_expands := x_expands x + 1\<rparr> in
      if x_expands x0 > op_max_expansions op then
        (([], False), x0\<lparr>x_fatal := Some (TooManyExpansions (op_max_expansions op))\<rparr>)
      else if str_contains e ''{{'' then
        (if depth + 1 > op_max_depth op then
           (([], False), mark_unresolved (trim_space e) (add_problem (DepthLimit (op_max_depth op)) x0))
         else
           (case expand op st e (depth + 1) chain x0 of (inner, x1) \<Rightarrow>
              if length (x_unres x1) > length (x_unres x0) then (([], False), x1)
              else eval_name op st inner depth chain x1))
      else eval_name op st e depth chain x0)"
| "eval_name op st e depth chain x =
     (let parts = split_byte (CHR ''|'') e; name = trim_space (hd parts) in
      if name = [] then (([], False), x)
      else
        (case lookup_ref op st name depth chain x of
           (None, x1) \<Rightarrow> (([], False), x1)
         | (Some found, x1) \<Rightarrow> finish_eval op name (tl parts) found x1))"
| "lookup_ref op st name depth chain x =
     (if has_prefix name ''$'' then lookup_dynamic op name x
      else
        (case lookup_var st name of
           None \<Rightarrow> (None, mark_unresolved name x)
         | Some (v, sc) \<Rightarrow>
             if name \<in> set chain then (None, mark_unresolved name (add_problem (Cycle chain name) x))
             else if depth + 1 > op_max_depth op then
               (None, mark_unresolved name (add_problem (DepthLimitAt (op_max_depth op) name) x))
             else
               (case expand op st (va_value v) (depth + 1) (chain @ [name]) x of (val, x1) \<Rightarrow>
                  (Some (val, va_secret v,
                         \<lparr>u_name = name, u_scope = scope_name sc, u_secret = va_secret v, u_field = [],
                          u_dynamic = False\<rparr>),
                   if va_secret v then reg_put (va_value v) x1 else x1))))"
  by pat_completeness auto
termination
  by (relation "measures
      [\<lambda>a. case a of
         Inl (Inl (op, st, t, d, c, x)) \<Rightarrow> op_max_depth op - d
       | Inl (Inr (op, st, t, sb, d, c, x)) \<Rightarrow> op_max_depth op - d
       | Inr (Inl (op, st, t, d, c, x)) \<Rightarrow> op_max_depth op - d
       | Inr (Inr (Inl (op, st, t, d, c, x))) \<Rightarrow> op_max_depth op - d
       | Inr (Inr (Inr (op, st, t, d, c, x))) \<Rightarrow> op_max_depth op - d,
       \<lambda>a. case a of
         Inl (Inl (op, st, t, d, c, x)) \<Rightarrow> length t + 4
       | Inl (Inr (op, st, t, sb, d, c, x)) \<Rightarrow> length t + 3
       | Inr (Inl (op, st, t, d, c, x)) \<Rightarrow> 2
       | Inr (Inr (Inl (op, st, t, d, c, x))) \<Rightarrow> 1
       | Inr (Inr (Inr (op, st, t, d, c, x))) \<Rightarrow> 0]")
    auto

declare expand.simps [simp del] expand_loop.simps [simp del] eval_expr.simps [simp del]
  eval_name.simps [simp del] lookup_ref.simps [simp del]

definition finish_result :: "options \<Rightarrow> string \<Rightarrow> var_run \<Rightarrow> resolved" where
  "finish_result op v x =
     (case x_fatal x of
        Some e \<Rightarrow> \<lparr>r_value = [], r_uses = x_uses x, r_unresolved = x_unres x, r_problems = x_problems x, r_err = Some e\<rparr>
      | None \<Rightarrow>
          \<lparr>r_value = v, r_uses = x_uses x, r_unresolved = x_unres x, r_problems = x_problems x,
           r_err = (if op_policy op = PolicyBlock \<and> x_unres x \<noteq> [] then Some (Unresolved (x_unres x)) else None)\<rparr>)"

text \<open>\<open>Resolve\<close>: the result and the registry after it.\<close>

definition resolve :: "options \<Rightarrow> registry option \<Rightarrow> string \<Rightarrow> stack \<Rightarrow> resolved \<times> registry option" where
  "resolve op reg tpl st =
     (case expand op st tpl 0 [] (new_var_run reg) of (v, x) \<Rightarrow> (finish_result op v x, x_registry x))"

end
