(* ===== verification/VarEval.thy ===== *)
theory VarEval
  imports VarStore
begin

text \<open>
  Correctness of the template resolver of VarStore: the evaluation as inductive relations
  (\<open>graph\<close>), the state that only grows, the limits, the meaning of a template and the
  refinement of it by the resolver, the uses and secrets it reports, the round trip of escapes,
  and corners where the code does something else than it says.
\<close>

section \<open>The state only grows\<close>

text \<open>
  \<open>extends x y\<close>: \<open>y\<close> is a later state of the call than \<open>x\<close>. Names, uses, problems and secrets are
  only added, the work counters only go up, and a fatal error stays.
\<close>

definition reg_values :: "registry option \<Rightarrow> string set" where
  "reg_values ro = (case ro of None \<Rightarrow> {} | Some r \<Rightarrow> set (rg_values r))"

definition extends :: "var_run \<Rightarrow> var_run \<Rightarrow> bool" where
  "extends x y \<longleftrightarrow>
     prefix (x_uses x) (x_uses y) \<and> prefix (x_unres x) (x_unres y) \<and> prefix (x_problems x) (x_problems y)
     \<and> x_expands x \<le> x_expands y \<and> x_produced x \<le> x_produced y
     \<and> (x_fatal x \<noteq> None \<longrightarrow> x_fatal y \<noteq> None)
     \<and> reg_values (x_registry x) \<subseteq> reg_values (x_registry y)
     \<and> (x_registry y = None \<longleftrightarrow> x_registry x = None) \<and> x_field y = x_field x"

lemma extends_refl [simp, intro]: "extends x x"
  by (simp add: extends_def)

lemma extends_trans [trans]: "extends x y \<Longrightarrow> extends y z \<Longrightarrow> extends x z"
  unfolding extends_def by (metis prefix_order.trans order_trans)

lemma extends_steps [simp, intro]:
  "extends x (mark_unresolved n x)"
  "extends x (add_problem p x)"
  "extends x (snd (write_out op sb s x))"
  "extends x (reg_put v x)"
  "extends x (x\<lparr>x_expands := x_expands x + 1\<rparr>)"
  "extends x (x\<lparr>x_expands := x_expands x + 1, x_fatal := Some e\<rparr>)"
  "extends x (x\<lparr>x_uses := x_uses x @ us\<rparr>)"
  "extends x (x\<lparr>x_draws := k, x_ticks := t\<rparr>)"
  by (auto simp: extends_def mark_unresolved_def add_problem_def write_out_def Let_def reg_put_def
      reg_add_def reg_values_def split: option.splits)

lemma extends_lookup_dynamic [simp, intro]: "extends x (snd (lookup_dynamic op n x))"
  by (auto simp: lookup_dynamic_def split: prod.split option.split intro: extends_trans [OF extends_steps(8)])

lemma extends_finish_eval [simp, intro]: "extends x (snd (finish_eval op n ps f x))"
  by (auto simp: finish_eval_def Let_def split: prod.split sum.split
      intro: extends_trans [OF extends_steps(2)] extends_trans [OF extends_steps(7)])

lemma write_out_cases:
  assumes "write_out op sb s x = (r, x')"
  obtains "r = None" "x_fatal x' \<noteq> None" | "r = Some (sb @ s)" "x_fatal x' = x_fatal x"
    "x_unres x' = x_unres x" "x_uses x' = x_uses x" "x_expands x' = x_expands x" "x_registry x' = x_registry x"
    "length (sb @ s) \<le> op_max_output op"
  using assms by (auto simp: write_out_def Let_def split: if_splits)

section \<open>The evaluation as a relation\<close>

text \<open>
  The graph of the five functions as inductive relations, one rule per branch of the code. Every
  property of the resolver below is a rule induction over them.
\<close>

definition tick :: "var_run \<Rightarrow> var_run" where
  "tick x = x\<lparr>x_expands := x_expands x + 1\<rparr>"

inductive g_expand :: "options \<Rightarrow> stack \<Rightarrow> nat \<Rightarrow> string list \<Rightarrow> string \<Rightarrow> var_run \<Rightarrow> string \<Rightarrow> var_run \<Rightarrow> bool"
  and g_loop :: "options \<Rightarrow> stack \<Rightarrow> nat \<Rightarrow> string list \<Rightarrow> string \<Rightarrow> string \<Rightarrow> var_run \<Rightarrow> string \<Rightarrow> var_run \<Rightarrow> bool"
  and g_eval :: "options \<Rightarrow> stack \<Rightarrow> nat \<Rightarrow> string list \<Rightarrow> string \<Rightarrow> var_run \<Rightarrow> string \<Rightarrow> bool \<Rightarrow> var_run \<Rightarrow> bool"
  and g_name :: "options \<Rightarrow> stack \<Rightarrow> nat \<Rightarrow> string list \<Rightarrow> string \<Rightarrow> var_run \<Rightarrow> string \<Rightarrow> bool \<Rightarrow> var_run \<Rightarrow> bool"
  and g_ref :: "options \<Rightarrow> stack \<Rightarrow> nat \<Rightarrow> string list \<Rightarrow> string \<Rightarrow> var_run \<Rightarrow>
      (string \<times> bool \<times> var_use) option \<Rightarrow> var_run \<Rightarrow> bool"
  for op st
where
  Plain: "\<not> str_contains t ''{{'' \<Longrightarrow> g_expand op st d c t x t x"
| Loop: "str_contains t ''{{'' \<Longrightarrow> g_loop op st d c t [] x v y \<Longrightarrow> g_expand op st d c t x v y"
| Done: "s = [] \<or> x_fatal x \<noteq> None \<Longrightarrow> g_loop op st d c s sb x sb x"
| Fail: "x_fatal x = None \<Longrightarrow> write_out op sb w x = (None, x1) \<Longrightarrow> g_loop op st d c s sb x sb x1"
| Escape: "x_fatal x = None \<Longrightarrow> write_out op sb ''{{'' x = (Some sb1, x1) \<Longrightarrow> g_loop op st d c s sb1 x1 v y
    \<Longrightarrow> g_loop op st d c (CHR 0x5C # ''{{'' @ s) sb x v y"
| Char: "x_fatal x = None \<Longrightarrow> \<not> has_prefix (a # s) (CHR 0x5C # ''{{'') \<Longrightarrow>
    \<not> (has_prefix (a # s) ''{{'' \<and> match_end (drop 2 (a # s)) 0 \<noteq> None) \<Longrightarrow>
    write_out op sb [a] x = (Some sb1, x1) \<Longrightarrow> g_loop op st d c s sb1 x1 v y
    \<Longrightarrow> g_loop op st d c (a # s) sb x v y"
| Expr_fail: "x_fatal x = None \<Longrightarrow> match_end s 0 = Some j \<Longrightarrow> g_eval op st d c (take j s) x out ok x1 \<Longrightarrow>
    write_out op sb w x1 = (None, x2) \<Longrightarrow> g_loop op st d c (''{{'' @ s) sb x sb x2"
| Expr: "x_fatal x = None \<Longrightarrow> match_end s 0 = Some j \<Longrightarrow> g_eval op st d c (take j s) x out ok x1 \<Longrightarrow>
    write_out op sb (if ok then out else unresolved_text op (take j s)) x1 = (Some sb1, x2) \<Longrightarrow>
    g_loop op st d c (drop (j + 2) s) sb1 x2 v y \<Longrightarrow> g_loop op st d c (''{{'' @ s) sb x v y"
| Work_limit: "x_fatal x = None \<Longrightarrow> x_expands x + 1 > op_max_expansions op \<Longrightarrow>
    g_eval op st d c e x [] False ((tick x)\<lparr>x_fatal := Some (TooManyExpansions (op_max_expansions op))\<rparr>)"
| Deep: "x_fatal x = None \<Longrightarrow> x_expands x + 1 \<le> op_max_expansions op \<Longrightarrow> str_contains e ''{{'' \<Longrightarrow> d + 1 > op_max_depth op \<Longrightarrow>
    g_eval op st d c e x [] False (mark_unresolved (trim_space e) (add_problem (DepthLimit (op_max_depth op)) (tick x)))"
| Inner_fail: "x_fatal x = None \<Longrightarrow> x_expands x + 1 \<le> op_max_expansions op \<Longrightarrow> str_contains e ''{{'' \<Longrightarrow> d + 1 \<le> op_max_depth op \<Longrightarrow>
    g_expand op st (d + 1) c e (tick x) i x1 \<Longrightarrow> length (x_unres x1) > length (x_unres x) \<Longrightarrow>
    g_eval op st d c e x [] False x1"
| Inner: "x_fatal x = None \<Longrightarrow> x_expands x + 1 \<le> op_max_expansions op \<Longrightarrow> str_contains e ''{{'' \<Longrightarrow> d + 1 \<le> op_max_depth op \<Longrightarrow>
    g_expand op st (d + 1) c e (tick x) i x1 \<Longrightarrow> length (x_unres x1) \<le> length (x_unres x) \<Longrightarrow>
    g_name op st d c i x1 out ok y \<Longrightarrow> g_eval op st d c e x out ok y"
| Flat: "x_fatal x = None \<Longrightarrow> x_expands x + 1 \<le> op_max_expansions op \<Longrightarrow> \<not> str_contains e ''{{'' \<Longrightarrow>
    g_name op st d c e (tick x) out ok y \<Longrightarrow> g_eval op st d c e x out ok y"
| Blank: "trim_space (hd (split_byte (CHR ''|'') e)) = [] \<Longrightarrow> g_name op st d c e x [] False x"
| No_ref: "name = trim_space (hd (split_byte (CHR ''|'') e)) \<Longrightarrow> name \<noteq> [] \<Longrightarrow>
    g_ref op st d c name x None y \<Longrightarrow> g_name op st d c e x [] False y"
| Ref: "name = trim_space (hd (split_byte (CHR ''|'') e)) \<Longrightarrow> name \<noteq> [] \<Longrightarrow>
    g_ref op st d c name x (Some f) x1 \<Longrightarrow>
    finish_eval op name (tl (split_byte (CHR ''|'') e)) f x1 = ((out, ok), y) \<Longrightarrow> g_name op st d c e x out ok y"
| Dynamic: "has_prefix name ''$'' \<Longrightarrow> lookup_dynamic op name x = (r, y) \<Longrightarrow> g_ref op st d c name x r y"
| Undefined: "\<not> has_prefix name ''$'' \<Longrightarrow> lookup_var st name = None \<Longrightarrow>
    g_ref op st d c name x None (mark_unresolved name x)"
| Cyclic: "\<not> has_prefix name ''$'' \<Longrightarrow> lookup_var st name = Some (v, sc) \<Longrightarrow> name \<in> set c \<Longrightarrow>
    g_ref op st d c name x None (mark_unresolved name (add_problem (Cycle c name) x))"
| Too_deep: "\<not> has_prefix name ''$'' \<Longrightarrow> lookup_var st name = Some (v, sc) \<Longrightarrow> name \<notin> set c \<Longrightarrow> d + 1 > op_max_depth op \<Longrightarrow>
    g_ref op st d c name x None (mark_unresolved name (add_problem (DepthLimitAt (op_max_depth op) name) x))"
| Defined: "\<not> has_prefix name ''$'' \<Longrightarrow> lookup_var st name = Some (v, sc) \<Longrightarrow> name \<notin> set c \<Longrightarrow> d + 1 \<le> op_max_depth op \<Longrightarrow>
    g_expand op st (d + 1) (c @ [name]) (va_value v) x val x1 \<Longrightarrow>
    y = (if va_secret v then reg_put (va_value v) x1 else x1) \<Longrightarrow>
    g_ref op st d c name x
      (Some (val, va_secret v, \<lparr>u_name = name, u_scope = scope_name sc, u_secret = va_secret v, u_field = [],
                               u_dynamic = False\<rparr>)) y"

lemmas var_induct = expand_expand_loop_eval_expr_eval_name_lookup_ref.induct
lemmas graph_induct = g_expand_g_loop_g_eval_g_name_g_ref.inducts

lemma graph:
  "g_expand op st d c t x (fst (expand op st t d c x)) (snd (expand op st t d c x))"
  "g_loop op st d c t sb x (fst (expand_loop op st t sb d c x)) (snd (expand_loop op st t sb d c x))"
  "x_fatal x = None \<Longrightarrow> g_eval op st d c t x (fst (fst (eval_expr op st t d c x))) (snd (fst (eval_expr op st t d c x)))
     (snd (eval_expr op st t d c x))"
  "g_name op st d c t x (fst (fst (eval_name op st t d c x))) (snd (fst (eval_name op st t d c x)))
     (snd (eval_name op st t d c x))"
  "g_ref op st d c t x (fst (lookup_ref op st t d c x)) (snd (lookup_ref op st t d c x))"
proof (induction op st t d c x and op st t sb d c x and op st t d c x and op st t d c x and op st t d c x
    rule: var_induct)
  case (1 op st tpl depth chain x)
  then show ?case by (auto simp: expand.simps intro: Plain Loop)
next
  case (2 op st s sb depth chain x)
  note IH = 2
  show ?case
  proof (cases "s = [] \<or> x_fatal x \<noteq> None")
    case True
    then show ?thesis by (simp add: expand_loop.simps Done)
  next
    case False
    then have f: "x_fatal x = None" by simp
    obtain a r where s: "s = a # r" using False by (cases s) auto
    show ?thesis
    proof (cases "has_prefix s (CHR 0x5C # ''{{'')")
      case True
      have s': "s = CHR 0x5C # ''{{'' @ drop 3 s" using True by (auto simp: has_prefix_iff)
      obtain w x1 where w: "write_out op sb ''{{'' x = (w, x1)" by force
      show ?thesis
      proof (cases w)
        case None
        with w True False show ?thesis by (subst (1 2) expand_loop.simps) (simp add: Fail f)
      next
        case (Some sb1)
        with w True False have e: "expand_loop op st s sb depth chain x = expand_loop op st (drop 3 s) sb1 depth chain x1"
          by (subst expand_loop.simps) simp
        have "g_loop op st depth chain (drop 3 s) sb1 x1 (fst (expand_loop op st (drop 3 s) sb1 depth chain x1))
           (snd (expand_loop op st (drop 3 s) sb1 depth chain x1))"
          using IH(1) False True w Some by simp
        from Escape [OF f w [unfolded Some] this] s' [symmetric] show ?thesis unfolding e by simp
      qed
    next
      case noesc: False
      define m where "m = (if has_prefix s ''{{'' then match_end (drop 2 s) 0 else None)"
      show ?thesis
      proof (cases m)
        case None
        obtain w x1 where w: "write_out op sb [hd s] x = (w, x1)" by force
        show ?thesis
        proof (cases w)
          case None
          then have "expand_loop op st s sb depth chain x = (sb, x1)"
            using w noesc False \<open>m = None\<close> by (subst expand_loop.simps) (simp add: m_def [symmetric])
          with w None show ?thesis by (simp add: Fail f)
        next
          case (Some sb1)
          have e: "expand_loop op st s sb depth chain x = expand_loop op st (tl s) sb1 depth chain x1"
            using w Some noesc False \<open>m = None\<close> by (subst expand_loop.simps) (simp add: m_def [symmetric])
          have "g_loop op st depth chain (tl s) sb1 x1 (fst (expand_loop op st (tl s) sb1 depth chain x1))
           (snd (expand_loop op st (tl s) sb1 depth chain x1))"
            using IH(2) False noesc w Some \<open>m = None\<close> by (simp add: m_def)
          then show ?thesis unfolding e using noesc \<open>m = None\<close> w Some f s
            by (auto simp: m_def split: if_splits intro!: Char)
        qed
      next
        case (Some j)
        have br: "s = ''{{'' @ drop 2 s" "match_end (drop 2 s) 0 = Some j"
          using \<open>m = Some j\<close> by (auto simp: m_def has_prefix_iff split: if_splits)
        obtain out ok x1 where ev: "eval_expr op st (take j (drop 2 s)) depth chain x = ((out, ok), x1)"
          by (metis surj_pair)
        have g: "g_eval op st depth chain (take j (drop 2 s)) x out ok x1"
          using IH(3) False noesc f \<open>m = Some j\<close> ev by (simp add: m_def)
        obtain w x2 where w: "write_out op sb (if ok then out else unresolved_text op (take j (drop 2 s))) x1 = (w, x2)"
          by force
        show ?thesis
        proof (cases w)
          case None
          then have "expand_loop op st s sb depth chain x = (sb, x2)"
            using w ev noesc False \<open>m = Some j\<close> by (subst expand_loop.simps) (simp add: m_def [symmetric])
          with Expr_fail [OF f br(2) g w [unfolded None]] br(1) [symmetric] show ?thesis by simp
        next
          case (Some sb1)
          have e: "expand_loop op st s sb depth chain x = expand_loop op st (drop (j + 4) s) sb1 depth chain x2"
            using w ev Some noesc False \<open>m = Some j\<close> by (subst expand_loop.simps) (simp add: m_def [symmetric])
          have "g_loop op st depth chain (drop (j + 4) s) sb1 x2 (fst (expand_loop op st (drop (j + 4) s) sb1 depth chain x2))
           (snd (expand_loop op st (drop (j + 4) s) sb1 depth chain x2))"
            using IH(4) False noesc ev w Some \<open>m = Some j\<close> by (simp add: m_def)
          moreover have "drop (j + 4) s = drop (j + 2) (drop 2 s)" by (simp add: numeral_eq_Suc)
          ultimately have "g_loop op st depth chain (drop (j + 2) (drop 2 s)) sb1 x2 (fst (expand_loop op st (drop (j + 4) s) sb1 depth chain x2))
           (snd (expand_loop op st (drop (j + 4) s) sb1 depth chain x2))" by metis
          from Expr [OF f br(2) g w [unfolded Some] this] br(1) [symmetric] show ?thesis unfolding e by simp
        qed
      qed
    qed
  qed
next
  case (3 op st e depth chain x)
  note f = 3(4) and IH = 3
  show ?case
  proof (cases "x_expands x + 1 > op_max_expansions op")
    case True
    with Work_limit [OF f True, of st depth chain e] show ?thesis by (simp add: eval_expr.simps tick_def)
  next
    case False
    then have le: "x_expands x + 1 \<le> op_max_expansions op" by simp
    show ?thesis
    proof (cases "str_contains e ''{{''")
      case flat: False
      have "g_name op st depth chain e (tick x) (fst (fst (eval_name op st e depth chain (tick x))))
          (snd (fst (eval_name op st e depth chain (tick x)))) (snd (eval_name op st e depth chain (tick x)))"
        using IH(3) flat False by (simp add: tick_def)
      moreover have "eval_expr op st e depth chain x = eval_name op st e depth chain (tick x)"
        using flat False by (simp add: eval_expr.simps tick_def)
      ultimately show ?thesis using Flat [OF f le flat] by simp
    next
      case nested: True
      show ?thesis
      proof (cases "depth + 1 > op_max_depth op")
        case True
        then have "eval_expr op st e depth chain x = (([], False),
            mark_unresolved (trim_space e) (add_problem (DepthLimit (op_max_depth op)) (tick x)))"
          using nested False by (simp add: eval_expr.simps tick_def)
        with Deep [OF f le nested True] show ?thesis by simp
      next
        case deep: False
        obtain i x1 where i: "expand op st e (depth + 1) chain (tick x) = (i, x1)" by force
        have gi: "g_expand op st (depth + 1) chain e (tick x) i x1"
          using IH(1) nested False deep i by (simp add: tick_def)
        show ?thesis
        proof (cases "length (x_unres x1) > length (x_unres x)")
          case True
          have "eval_expr op st e depth chain x = (([], False), x1)"
            using i nested False deep True by (simp add: eval_expr.simps tick_def)
          with Inner_fail [OF f le nested _ gi True] deep show ?thesis by simp
        next
          case ok: False
          have e: "eval_expr op st e depth chain x = eval_name op st i depth chain x1"
            using i nested False deep ok by (simp add: eval_expr.simps tick_def)
          have "g_name op st depth chain i x1 (fst (fst (eval_name op st i depth chain x1)))
              (snd (fst (eval_name op st i depth chain x1))) (snd (eval_name op st i depth chain x1))"
            using IH(2) nested False deep i ok by (simp add: tick_def)
          with Inner [OF f le nested _ gi] deep ok show ?thesis unfolding e by simp
        qed
      qed
    qed
  qed
next
  case (4 op st e depth chain x)
  define name where "name = trim_space (hd (split_byte (CHR ''|'') e))"
  show ?case
  proof (cases "name = []")
    case True
    then show ?thesis by (simp add: eval_name.simps Let_def Blank name_def)
  next
    case False
    obtain fo x1 where r: "lookup_ref op st name depth chain x = (fo, x1)" by force
    have g: "g_ref op st depth chain name x fo x1"
      using 4 False r by (simp add: name_def)
    show ?thesis
    proof (cases fo)
      case None
      with False r g show ?thesis
        by (simp add: eval_name.simps name_def [symmetric] No_ref [OF name_def])
    next
      case (Some fd)
      obtain out ok y where fe: "finish_eval op name (tl (split_byte (CHR ''|'') e)) fd x1 = ((out, ok), y)"
        by (metis surj_pair)
      then have "eval_name op st e depth chain x = ((out, ok), y)"
        using False r Some by (simp add: eval_name.simps name_def [symmetric])
      with Ref [OF name_def False g [unfolded Some] fe] show ?thesis by simp
    qed
  qed
next
  case (5 op st name depth chain x)
  show ?case
  proof (cases "has_prefix name ''$''")
    case True
    then show ?thesis by (simp add: lookup_ref.simps Dynamic)
  next
    case nd: False
    show ?thesis
    proof (cases "lookup_var st name")
      case None
      with nd show ?thesis by (simp add: lookup_ref.simps Undefined)
    next
      case (Some vs)
      obtain v sc where vs: "lookup_var st name = Some (v, sc)" using Some by (cases vs) auto
      obtain w x1 where w: "expand op st (va_value v) (depth + 1) (chain @ [name]) x = (w, x1)" by force
      consider "name \<in> set chain" | "name \<notin> set chain" "depth + 1 > op_max_depth op"
        | "name \<notin> set chain" "depth + 1 \<le> op_max_depth op" by linarith
      then show ?thesis
      proof cases
        case 1
        with nd vs show ?thesis by (simp add: lookup_ref.simps Cyclic)
      next
        case 2
        with nd vs Too_deep [OF nd vs 2] show ?thesis by (simp add: lookup_ref.simps)
      next
        case 3
        have "g_expand op st (depth + 1) (chain @ [name]) (va_value v) x w x1"
          using 5 [OF nd vs refl] 3 w by simp
        from Defined [OF nd vs 3 this refl] show ?thesis
          using nd vs 3 w by (simp add: lookup_ref.simps)
      qed
    qed
  qed
qed

lemma extends_tick [simp, intro]: "extends x (tick x)" "extends x ((tick x)\<lparr>x_fatal := Some e\<rparr>)"
  unfolding tick_def by (rule extends_steps)+

lemma extends_write: "write_out op sb s x = (r, y) \<Longrightarrow> extends x y"
  using extends_steps(3) [of x op sb s] by simp

lemma extends_finish: "finish_eval op n ps f x = (r, y) \<Longrightarrow> extends x y"
  using extends_finish_eval [of x op n ps f] by simp

lemma extends_dynamic: "lookup_dynamic op n x = (r, y) \<Longrightarrow> extends x y"
  using extends_lookup_dynamic [of x op n] by simp

lemma extends_graph:
  "g_expand op st d c t x v y \<Longrightarrow> extends x y"
  "g_loop op st d c t sb x v y \<Longrightarrow> extends x y"
  "g_eval op st d c t x v ok y \<Longrightarrow> extends x y"
  "g_name op st d c t x v ok y \<Longrightarrow> extends x y"
  "g_ref op st d c t x r y \<Longrightarrow> extends x y"
proof (induction rule: graph_induct)
  case (Deep x e d c)
  show ?case by (meson extends_steps extends_tick extends_trans)
next
  case (Ref name e d c x f x1 out ok y)
  then show ?case by (blast intro: extends_trans extends_finish)
next
  case (Dynamic name x r y d c)
  then show ?case by (blast intro: extends_dynamic)
qed (auto intro: extends_trans dest!: extends_write elim: extends_trans)

section \<open>Bounds\<close>

text \<open>The text a loop builds never passes the output limit.\<close>

lemma output_graph:
  "g_expand op st d c t x v y \<Longrightarrow> str_contains t ''{{'' \<longrightarrow> length v \<le> op_max_output op"
  "g_loop op st d c t sb x v y \<Longrightarrow> length sb \<le> op_max_output op \<longrightarrow> length v \<le> op_max_output op"
  "g_eval op st d c t x v ok y \<Longrightarrow> True"
  "g_name op st d c t x v ok y \<Longrightarrow> True"
  "g_ref op st d c t x r y \<Longrightarrow> True"
  by (induction rule: graph_induct) (auto elim!: write_out_cases)

text \<open>Each evaluated reference is counted once, and evaluation stops one past the limit.\<close>

definition within_work :: "options \<Rightarrow> var_run \<Rightarrow> bool" where
  "within_work op x \<longleftrightarrow>
     x_expands x \<le> op_max_expansions op
     \<or> x_expands x = op_max_expansions op + 1 \<and> x_fatal x \<noteq> None"

lemma work_graph:
  "g_expand op st d c t x v y \<Longrightarrow> within_work op x \<longrightarrow> within_work op y"
  "g_loop op st d c t sb x v y \<Longrightarrow> within_work op x \<longrightarrow> within_work op y"
  "g_eval op st d c t x v ok y \<Longrightarrow> within_work op x \<longrightarrow> within_work op y"
  "g_name op st d c t x v ok y \<Longrightarrow> within_work op x \<longrightarrow> within_work op y"
  "g_ref op st d c t x r y \<Longrightarrow> within_work op x \<longrightarrow> within_work op y"
proof (induction rule: graph_induct)
  case (Expr x s j d c out ok x1 sb sb1 x2 v y)
  then show ?case by (auto simp: within_work_def elim!: write_out_cases)
qed (auto simp: within_work_def tick_def mark_unresolved_def add_problem_def reg_put_def write_out_def Let_def
      lookup_dynamic_def finish_eval_def split: if_splits prod.splits option.splits sum.splits)

text \<open>A reference is recorded as a use only by an evaluation within the limit.\<close>

definition passed :: "options \<Rightarrow> var_run \<Rightarrow> nat" where
  "passed op x = min (x_expands x) (op_max_expansions op)"

lemma uses_graph:
  "g_expand op st d c t x v y \<Longrightarrow> length (x_uses y) + passed op x \<le> length (x_uses x) + passed op y"
  "g_loop op st d c t sb x v y \<Longrightarrow> length (x_uses y) + passed op x \<le> length (x_uses x) + passed op y"
  "g_eval op st d c t x v ok y \<Longrightarrow> length (x_uses y) + passed op x \<le> length (x_uses x) + passed op y"
  "g_name op st d c t x v ok y \<Longrightarrow> length (x_uses y) + passed op x \<le> length (x_uses x) + passed op y + 1"
  "g_ref op st d c t x r y \<Longrightarrow> length (x_uses y) + passed op x \<le> length (x_uses x) + passed op y"
proof (induction rule: graph_induct)
qed (auto simp: passed_def tick_def mark_unresolved_def add_problem_def reg_put_def write_out_def Let_def
      lookup_dynamic_def finish_eval_def split: if_splits prod.splits option.splits sum.splits)

section \<open>What a template means\<close>

text \<open>
  The meaning of a template, without limits, state and order of evaluation: a relation between a
  template and the texts it stands for. It is defined by finite derivations, so a variable that needs
  its own value has none. A \<open>$\<close>-name stands for any value it can have at some time and position of
  the random source.
\<close>

inductive means :: "options \<Rightarrow> stack \<Rightarrow> string \<Rightarrow> string \<Rightarrow> bool"
  and means_expr :: "options \<Rightarrow> stack \<Rightarrow> string \<Rightarrow> string \<Rightarrow> bool"
  and means_name :: "options \<Rightarrow> stack \<Rightarrow> string \<Rightarrow> string \<Rightarrow> bool"
  for op st
where
  M_end: "means op st [] []"
| M_escape: "means op st s v \<Longrightarrow> means op st (CHR 0x5C # ''{{'' @ s) (''{{'' @ v)"
| M_char: "\<not> has_prefix (a # s) (CHR 0x5C # ''{{'') \<Longrightarrow>
    \<not> (has_prefix (a # s) ''{{'' \<and> match_end (drop 2 (a # s)) 0 \<noteq> None) \<Longrightarrow>
    means op st s v \<Longrightarrow> means op st (a # s) (a # v)"
| M_expr: "match_end s 0 = Some j \<Longrightarrow> means_expr op st (take j s) w \<Longrightarrow> means op st (drop (j + 2) s) v
    \<Longrightarrow> means op st (''{{'' @ s) (w @ v)"
| M_flat: "\<not> str_contains e ''{{'' \<Longrightarrow> means_name op st e w \<Longrightarrow> means_expr op st e w"
| M_nested: "str_contains e ''{{'' \<Longrightarrow> means op st e i \<Longrightarrow> means_name op st i w \<Longrightarrow> means_expr op st e w"
| M_blank_flat: "\<not> str_contains e ''{{'' \<Longrightarrow> trim_space (hd (split_byte (CHR ''|'') e)) = []
    \<Longrightarrow> means_expr op st e (unresolved_text op e)"
| M_blank_nested: "str_contains e ''{{'' \<Longrightarrow> means op st e i \<Longrightarrow> trim_space (hd (split_byte (CHR ''|'') i)) = []
    \<Longrightarrow> means_expr op st e (unresolved_text op e)"
| M_var: "name = trim_space (hd (split_byte (CHR ''|'') e)) \<Longrightarrow> name \<noteq> [] \<Longrightarrow> \<not> has_prefix name ''$'' \<Longrightarrow>
    lookup_var st name = Some (va, sc) \<Longrightarrow> means op st (va_value va) v \<Longrightarrow>
    apply_pipes (op_crypto op) v (tl (split_byte (CHR ''|'') e)) = Inr w \<Longrightarrow> means_name op st e w"
| M_dynamic: "name = trim_space (hd (split_byte (CHR ''|'') e)) \<Longrightarrow> has_prefix name ''$'' \<Longrightarrow>
    dynamic_value name now (op_rand op) p = (Some v, q) \<Longrightarrow>
    apply_pipes (op_crypto op) v (tl (split_byte (CHR ''|'') e)) = Inr w \<Longrightarrow> means_name op st e w"

text \<open>A text without an opening is its own meaning.\<close>

lemma means_plain: "\<not> str_contains t ''{{'' \<Longrightarrow> means op st t t"
proof (induction t)
  case (Cons a t)
  have "\<not> has_prefix (a # t) ''{{''" "\<not> str_contains t ''{{''"
    using Cons.prems by (auto simp: str_contains_Cons)
  moreover have "\<not> has_prefix (a # t) (CHR 0x5C # ''{{'')"
    using \<open>\<not> str_contains t ''{{''\<close> by (auto simp: str_contains_def) (cases t; simp)
  ultimately show ?case using Cons.IH by (intro M_char) auto
qed (rule M_end)

definition clean :: "var_run \<Rightarrow> bool" where
  "clean x \<longleftrightarrow> x_fatal x = None \<and> x_unres x = []"

lemma clean_before: "extends x y \<Longrightarrow> clean y \<Longrightarrow> clean x"
  by (auto simp: clean_def extends_def)

lemma not_clean [simp]:
  "\<not> clean (mark_unresolved n x)"
  "\<not> clean (x\<lparr>x_fatal := Some e\<rparr>)"
  by (auto simp: clean_def mark_unresolved_def)

lemma mark_unresolved_nonempty [simp]: "x_unres (mark_unresolved n x) \<noteq> []"
  by (auto simp: mark_unresolved_def)

lemma clean_write: "write_out op sb s x = (r, y) \<Longrightarrow> clean y \<Longrightarrow> r = Some (sb @ s) \<and> clean x"
  by (auto simp: clean_def elim!: write_out_cases)

lemma clean_finish:
  "finish_eval op n ps (v, sec, u) x = ((w, ok), y) \<Longrightarrow> clean y \<Longrightarrow>
   clean x \<and> ok \<and> apply_pipes (op_crypto op) v ps = Inr w"
  by (auto simp: finish_eval_def Let_def clean_def mark_unresolved_def reg_put_def
      split: sum.splits if_splits)

text \<open>A run without an unresolved name and without a fatal error computes a meaning.\<close>

lemma means_graph:
  "g_expand op st d c t x v y \<Longrightarrow> clean y \<longrightarrow> means op st t v"
  "g_loop op st d c t sb x v y \<Longrightarrow> clean y \<longrightarrow> (\<exists>w. v = sb @ w \<and> means op st t w)"
  "g_eval op st d c t x v ok y \<Longrightarrow> clean y \<longrightarrow> means_expr op st t (if ok then v else unresolved_text op t)"
  "g_name op st d c t x v ok y \<Longrightarrow>
     clean y \<longrightarrow> (if ok then means_name op st t v else trim_space (hd (split_byte (CHR ''|'') t)) = [])"
  "g_ref op st d c t x r y \<Longrightarrow>
     clean y \<longrightarrow>
     (case r of None \<Rightarrow> False
      | Some (v, sec, u) \<Rightarrow>
          if has_prefix t ''$'' then \<exists>now p q. dynamic_value t now (op_rand op) p = (Some v, q)
          else \<exists>va sc. lookup_var st t = Some (va, sc) \<and> means op st (va_value va) v)"
proof (induction rule: graph_induct)
  case (Plain t d c x)
  then show ?case by (simp add: means_plain)
next
  case (Done s x d c sb)
  then show ?case by (auto simp: clean_def intro: M_end)
next
  case (Fail x sb w x1 d c s)
  then show ?case using clean_write by blast
next
  case (Escape x sb sb1 x1 d c s v y)
  show ?case
  proof
    assume y: "clean y"
    have x1: "clean x1" using extends_graph(2) [OF Escape(3)] clean_before y by blast
    with clean_write [OF Escape(2)] have sb: "sb1 = sb @ ''{{''" by simp
    from y Escape.IH obtain w where "v = sb1 @ w" "means op st s w" by blast
    then have "v = sb @ (''{{'' @ w)" using sb by simp
    then show "\<exists>w. v = sb @ w \<and> means op st (CHR 0x5C # ''{{'' @ s) w"
      using M_escape [OF \<open>means op st s w\<close>] by blast
  qed
next
  case (Char x a s sb sb1 x1 d c v y)
  show ?case
  proof
    assume y: "clean y"
    have x1: "clean x1" using extends_graph(2) [OF Char(5)] clean_before y by blast
    with clean_write [OF Char(4)] have sb: "sb1 = sb @ [a]" by simp
    from y Char.IH obtain w where "v = sb1 @ w" "means op st s w" by blast
    then have "v = sb @ ([a] @ w)" using sb by simp
    then show "\<exists>w. v = sb @ w \<and> means op st (a # s) w"
      using M_char [OF Char(2,3) \<open>means op st s w\<close>] by simp
  qed
next
  case (Expr_fail x s j d c out ok x1 sb w x2)
  then show ?case using clean_write by blast
next
  case (Expr x s j d c out ok x1 sb sb1 x2 v y)
  show ?case
  proof
    assume y: "clean y"
    have "clean x2" using extends_graph(2) [OF Expr(6)] clean_before y by blast
    from clean_write [OF Expr(5) this] have sb: "sb1 = sb @ (if ok then out else unresolved_text op (take j s))"
      and x1: "clean x1" by simp_all
    have e: "means_expr op st (take j s) (if ok then out else unresolved_text op (take j s))"
      using Expr(4) x1 by blast
    from y Expr(7) obtain w where w: "v = sb1 @ w" "means op st (drop (j + 2) s) w" by blast
    have "v = sb @ ((if ok then out else unresolved_text op (take j s)) @ w)" using w(1) sb by simp
    then show "\<exists>w. v = sb @ w \<and> means op st (''{{'' @ s) w"
      using M_expr [OF Expr(2) e w(2)] by blast
  qed
next
  case (Inner x e d c i x1 out ok y)
  then show ?case using extends_graph(4) [OF Inner(8)] clean_before
    by (auto intro: M_nested M_blank_nested)
next
  case (Flat x e d c out ok y)
  then show ?case by (auto intro: M_flat M_blank_flat)
next
  case (Ref name e d c x f x1 out ok y)
  show ?case
  proof
    assume "clean y"
    obtain v sec u where f: "f = (v, sec, u)" by (metis prod_cases3)
    from clean_finish [OF Ref(5) [unfolded f] \<open>clean y\<close>]
    have fin: "clean x1" "ok" "apply_pipes (op_crypto op) v (tl (split_byte (CHR ''|'') e)) = Inr out" by auto
    with Ref(4) f have r: "if has_prefix name ''$'' then \<exists>now p q. dynamic_value name now (op_rand op) p = (Some v, q)
          else \<exists>va sc. lookup_var st name = Some (va, sc) \<and> means op st (va_value va) v" by simp
    then show "if ok then means_name op st e out else trim_space (hd (split_byte (CHR ''|'') e)) = []"
      using fin Ref(1,2) by (cases "has_prefix name ''$''") (auto intro: M_var M_dynamic)
  qed
next
  case (Dynamic name x r y d c)
  then show ?case
    by (auto simp: lookup_dynamic_def split: prod.splits option.splits)
next
  case (Defined name v sc c d x val x1 y)
  then show ?case
    by (auto simp: clean_def reg_put_def split: if_splits)
qed (auto simp: clean_def)

section \<open>Uses and secrets\<close>

text \<open>
  A recorded use names a variable that is defined, with the scope it came from, and the raw value of a
  secret variable is in the registry if it is long enough to be tracked.
\<close>

definition use_ok :: "stack \<Rightarrow> registry option \<Rightarrow> var_use \<Rightarrow> bool" where
  "use_ok st reg u \<longleftrightarrow>
     (if u_dynamic u then has_prefix (u_name u) ''$'' \<and> \<not> u_secret u
      else \<exists>v sc. lookup_var st (u_name u) = Some (v, sc) \<and> u_scope u = scope_name sc \<and> u_secret u = va_secret v
             \<and> (va_secret v \<and> reg \<noteq> None \<and> min_secret_len \<le> length (va_value v) \<longrightarrow> va_value v \<in> reg_values reg))"

lemma use_ok_extends: "use_ok st (x_registry x) u \<Longrightarrow> extends x y \<Longrightarrow> use_ok st (x_registry y) u"
  by (auto simp: use_ok_def extends_def split: if_splits dest: subsetD)

lemma use_ok_field [simp]: "use_ok st reg (u\<lparr>u_field := f\<rparr>) = use_ok st reg u"
  by (simp add: use_ok_def)

definition uses_ok :: "stack \<Rightarrow> var_run \<Rightarrow> bool" where
  "uses_ok st x \<longleftrightarrow> (\<forall>u\<in>set (x_uses x). use_ok st (x_registry x) u)"

lemma uses_ok_same:
  "uses_ok st x \<Longrightarrow> extends x y \<Longrightarrow> x_uses y = x_uses x \<Longrightarrow> uses_ok st y"
  by (auto simp: uses_ok_def intro: use_ok_extends)

lemma reg_put_values:
  "x_registry x \<noteq> None \<Longrightarrow> min_secret_len \<le> length v \<Longrightarrow> v \<in> reg_values (x_registry (reg_put v x))"
  by (auto simp: reg_put_def reg_values_def reg_add_def)

lemma uses_write: "write_out op sb s x = (r, y) \<Longrightarrow> uses_ok st x \<Longrightarrow> uses_ok st y"
  by (auto simp: uses_ok_def write_out_def Let_def split: if_splits)

lemma uses_finish:
  assumes "finish_eval op n ps (v, sec, u) x = ((w, ok), y)" "uses_ok st x" "use_ok st (x_registry x) u"
  shows "uses_ok st y"
proof -
  have e: "extends x y" by (rule extends_finish [OF assms(1)])
  have "x_uses y = x_uses x \<or> x_uses y = x_uses x @ [u\<lparr>u_field := x_field x\<rparr>]"
    using assms(1) by (auto simp: finish_eval_def Let_def mark_unresolved_def add_problem_def reg_put_def
        split: sum.splits if_splits)
  then show ?thesis
    using use_ok_extends [OF assms(3) e] assms(2) use_ok_extends [OF _ e]
    by (auto simp: uses_ok_def)
qed

lemma uses_steps [simp]:
  "uses_ok st (mark_unresolved n x) = uses_ok st x" "uses_ok st (add_problem p x) = uses_ok st x"
  "uses_ok st (tick x) = uses_ok st x" "uses_ok st (x\<lparr>x_fatal := e\<rparr>) = uses_ok st x"
  by (auto simp: uses_ok_def mark_unresolved_def add_problem_def tick_def)

lemma uses_reg_put: "uses_ok st x \<Longrightarrow> uses_ok st (reg_put v x)"
  by (rule uses_ok_same [OF _ extends_steps(4)]) (simp_all add: reg_put_def)

lemma uses_ok_graph:
  "g_expand op st d c t x v y \<Longrightarrow> uses_ok st x \<longrightarrow> uses_ok st y"
  "g_loop op st d c t sb x v y \<Longrightarrow> uses_ok st x \<longrightarrow> uses_ok st y"
  "g_eval op st d c t x v ok y \<Longrightarrow> uses_ok st x \<longrightarrow> uses_ok st y"
  "g_name op st d c t x v ok y \<Longrightarrow> uses_ok st x \<longrightarrow> uses_ok st y"
  "g_ref op st d c t x r y \<Longrightarrow>
     uses_ok st x \<longrightarrow> uses_ok st y \<and> (case r of None \<Rightarrow> True | Some (v, sec, u) \<Rightarrow> use_ok st (x_registry y) u)"
proof (induction rule: graph_induct)
  case (Ref name e d c x f x1 out ok y)
  obtain v sec u where f: "f = (v, sec, u)" by (metis prod_cases3)
  show ?case using Ref uses_finish [OF Ref(5) [unfolded f], of st] by (simp add: f)
next
  case (Dynamic name x r y d c)
  have "uses_ok st x \<Longrightarrow> uses_ok st y"
    using uses_ok_same [OF _ extends_dynamic [OF Dynamic(2)]] Dynamic(2)
    by (auto simp: lookup_dynamic_def mark_unresolved_def split: prod.splits option.splits)
  then show ?case using Dynamic
    by (auto simp: lookup_dynamic_def use_ok_def split: prod.splits option.splits)
next
  case (Defined name v sc c d x val x1 y)
  have "use_ok st (x_registry y) \<lparr>u_name = name, u_scope = scope_name sc, u_secret = va_secret v, u_field = [], u_dynamic = False\<rparr>"
  proof -
    have "x_registry (reg_put (va_value v) x1) \<noteq> None \<longrightarrow> x_registry x1 \<noteq> None"
      using extends_steps(4) [of x1 "va_value v"] by (simp add: extends_def)
    then show ?thesis using Defined.hyps Defined.IH reg_put_values [of x1 "va_value v"]
      by (simp add: use_ok_def)
  qed
  then show ?case using Defined uses_reg_put by auto
qed (auto dest: uses_write)

section \<open>The resolver\<close>

lemma resolve_graph:
  assumes "resolve op reg tpl st = (res, reg')"
  obtains v y where "g_expand op st 0 [] tpl (new_var_run reg) v y" "res = finish_result op v y" "reg' = x_registry y"
  using assms graph(1) [of op st 0 "[]" tpl "new_var_run reg"]
  by (auto simp: resolve_def split: prod.splits)

text \<open>
  (C19) What \<open>Resolve\<close> returns without an error, and with nothing unresolved, is a meaning of the
  template: every reference is replaced by the value of the winning variable, expanded in
  the same way, or of a \<open>$\<close>-name, run through its pipes; nested names are expanded first; an
  escaped opening is literal; an expression without a name is left to the policy. In particular a
  variable that refers to itself is never resolved. Under the default policy no error means that
  nothing is unresolved.
\<close>

theorem resolve_denotes:
  assumes "resolve op reg tpl st = (res, reg')" and "r_err res = None"
    and "op_policy op = PolicyBlock \<or> r_unresolved res = []"
  shows "means op st tpl (r_value res) \<and> r_unresolved res = []"
proof -
  obtain v y where g: "g_expand op st 0 [] tpl (new_var_run reg) v y" "res = finish_result op v y"
    using resolve_graph [OF assms(1)] by metis
  with assms(2,3) have "clean y" "r_value res = v" "r_unresolved res = []"
    by (auto simp: finish_result_def clean_def split: option.splits if_splits)
  with means_graph(1) [OF g(1)] show ?thesis by simp
qed

definition demo_options :: options where
  "demo_options = new_resolver
     \<lparr>op_clock = (\<lambda>n. 0), op_rand = (\<lambda>p n. 0), op_policy = PolicyBlock,
      op_crypto = \<lparr>pc_md5 = (\<lambda>s. s), pc_sha256 = (\<lambda>s. s), pc_hmac = (\<lambda>k s. k)\<rparr>,
      op_max_depth = 4, op_max_output = 60, op_max_expansions = 9\<rparr>"

definition plain_var :: "string \<Rightarrow> var" where
  "plain_var v = \<lparr>va_value = v, va_secret = False\<rparr>"

definition demo_stack :: stack where
  "demo_stack = new_stack
     [\<lparr>ly_scope = ScopeGlobal, ly_name = ''g'', ly_vars =
        [(''host'', plain_var ''{{sub}}.example''), (''sub'', plain_var ''www''), (''key'', plain_var ''sub''),
         (''a'', plain_var ''A'')]\<rparr>,
      \<lparr>ly_scope = ScopeEnvironment, ly_name = ''e'', ly_vars =
        [(''sub'', plain_var ''api''), (''token'', \<lparr>va_value = ''hunter2!'', va_secret = True\<rparr>)]\<rparr>]"

lemma demo_stack_eq:
  "demo_stack =
     [\<lparr>ly_scope = ScopeEnvironment, ly_name = ''e'', ly_vars =
        [(''sub'', plain_var ''api''), (''token'', \<lparr>va_value = ''hunter2!'', va_secret = True\<rparr>)]\<rparr>,
      \<lparr>ly_scope = ScopeGlobal, ly_name = ''g'', ly_vars =
        [(''host'', plain_var ''{{sub}}.example''), (''sub'', plain_var ''www''), (''key'', plain_var ''sub''),
         (''a'', plain_var ''A'')]\<rparr>]"
  by (simp add: demo_stack_def new_stack_def less_eq_var_scope_def)

lemma demo_resolve:
  "resolve demo_options None ''x={{host|upper}} {{ {{key}} }}'' demo_stack =
   (\<lparr>r_value = ''x=API.EXAMPLE api'',
     r_uses = [\<lparr>u_name = ''sub'', u_scope = ''environment'', u_secret = False, u_field = [], u_dynamic = False\<rparr>,
               \<lparr>u_name = ''host'', u_scope = ''global'', u_secret = False, u_field = [], u_dynamic = False\<rparr>,
               \<lparr>u_name = ''key'', u_scope = ''global'', u_secret = False, u_field = [], u_dynamic = False\<rparr>,
               \<lparr>u_name = ''sub'', u_scope = ''environment'', u_secret = False, u_field = [], u_dynamic = False\<rparr>],
     r_unresolved = [], r_problems = [], r_err = None\<rparr>, None)"
  unfolding demo_stack_eq by code_simp

theorem resolve_denotes_witness:
  "means demo_options demo_stack ''x={{host|upper}} {{ {{key}} }}'' ''x=API.EXAMPLE api''"
proof -
  have "op_policy demo_options = PolicyBlock" by (simp add: demo_options_def new_resolver_def)
  then show ?thesis using resolve_denotes [OF demo_resolve] by simp
qed

text \<open>
  The limits of a resolver made by \<open>New\<close>: the text of a template with a reference never passes
  the output limit, at most as many uses are recorded as expansions are allowed, evaluation stops at
  the latest one expansion past the limit, and a fatal error leaves no text. A template
  without an opening is returned as it is, whatever its size.
\<close>

theorem resolve_within_limits:
  assumes "resolve (new_resolver op) reg tpl st = (res, reg')"
  shows "if str_contains tpl ''{{''
         then length (r_value res) \<le> op_max_output (new_resolver op)
              \<and> length (r_uses res) \<le> op_max_expansions (new_resolver op)
              \<and> x_expands (snd (expand (new_resolver op) st tpl 0 [] (new_var_run reg)))
                  \<le> op_max_expansions (new_resolver op) + 1
              \<and> (r_err res \<in> {Some (TooLarge n), Some (TooManyExpansions n)} \<longrightarrow> r_value res = [])
         else res = \<lparr>r_value = tpl, r_uses = [], r_unresolved = [], r_problems = [], r_err = None\<rparr>"
proof -
  define o1 where "o1 = new_resolver op"
  note g = graph(1) [of o1 st 0 "[]" tpl "new_var_run reg"]
  obtain v y where vy: "expand o1 st tpl 0 [] (new_var_run reg) = (v, y)" by force
  with g have g: "g_expand o1 st 0 [] tpl (new_var_run reg) v y" by simp
  have res: "res = finish_result o1 v y" using assms vy by (simp add: resolve_def o1_def)
  show ?thesis
  proof (cases "str_contains tpl ''{{''")
    case False
    then have "v = tpl" "y = new_var_run reg" using vy by (simp_all add: expand.simps)
    with False res show ?thesis by (simp add: finish_result_def new_var_run_def)
  next
    case True
    have "length v \<le> op_max_output o1" using output_graph(1) [OF g] True by blast
    moreover have "length (x_uses y) \<le> op_max_expansions o1"
      using uses_graph(1) [OF g] by (simp add: new_var_run_def passed_def)
    moreover have "within_work o1 y"
      using work_graph(1) [OF g] by (simp add: within_work_def new_var_run_def)
    ultimately show ?thesis using True res vy
      by (auto simp: finish_result_def within_work_def o1_def [symmetric] split: option.splits)
  qed
qed

theorem resolve_within_limits_witness:
  "length (r_value (fst (resolve (new_resolver (demo_options\<lparr>op_max_output := 10\<rparr>)) None ''{{host}}{{host}}'' demo_stack)))
     \<le> op_max_output (new_resolver (demo_options\<lparr>op_max_output := 10\<rparr>))"
proof -
  obtain res reg' where r: "resolve (new_resolver (demo_options\<lparr>op_max_output := 10\<rparr>)) None ''{{host}}{{host}}'' demo_stack
      = (res, reg')" by force
  have "str_contains ''{{host}}{{host}}'' ''{{''" by code_simp
  with resolve_within_limits [OF r] r show ?thesis by simp
qed

text \<open>
  (C20) The uses that \<open>Resolve\<close> reports are accounted for and no secret it used goes unregistered:
  every use names a defined variable with the scope it was found in and its secret flag, or a
  \<open>$\<close>-name; and the registry, when there is one, keeps what it held, stays well formed and afterwards
  holds the raw value of each secret variable that was used, unless it is too short to track.
\<close>

theorem resolve_registers_secrets:
  assumes "resolve op reg tpl st = (res, reg')"
  shows "(\<forall>u\<in>set (r_uses res). use_ok st reg' u) \<and> reg_values reg \<subseteq> reg_values reg' \<and> (reg' = None \<longleftrightarrow> reg = None)"
proof -
  obtain v y where g: "g_expand op st 0 [] tpl (new_var_run reg) v y" "res = finish_result op v y" "reg' = x_registry y"
    using resolve_graph [OF assms] by metis
  have "uses_ok st y" using uses_ok_graph(1) [OF g(1)] by (simp add: uses_ok_def new_var_run_def)
  moreover have "r_uses res = x_uses y" by (simp add: g(2) finish_result_def split: option.splits)
  ultimately show ?thesis using extends_graph(1) [OF g(1)] g(3)
    by (auto simp: uses_ok_def extends_def new_var_run_def)
qed

theorem resolve_registers_secrets_witness:
  "''hunter2!'' \<in> reg_values (snd (resolve demo_options (Some new_registry) ''{{token|b64}}'' demo_stack))"
proof -
  obtain res reg' where r: "resolve demo_options (Some new_registry) ''{{token|b64}}'' demo_stack = (res, reg')" by force
  have "map u_name (r_uses (fst (resolve demo_options (Some new_registry) ''{{token|b64}}'' demo_stack))) = [''token'']
      \<and> map u_dynamic (r_uses (fst (resolve demo_options (Some new_registry) ''{{token|b64}}'' demo_stack))) = [False]"
    unfolding demo_stack_eq by code_simp
  then obtain u where u: "u \<in> set (r_uses res)" "u_name u = ''token''" "\<not> u_dynamic u"
    unfolding r by (cases "r_uses res") auto
  have l: "lookup_var demo_stack ''token'' = Some (\<lparr>va_value = ''hunter2!'', va_secret = True\<rparr>, ScopeEnvironment)"
    by (simp add: demo_stack_eq)
  from resolve_registers_secrets [OF r] u l show ?thesis
    by (auto simp: use_ok_def r min_secret_len_def)
qed

section \<open>Escapes\<close>

text \<open>What one writes to have a text taken literally: every opening escaped.\<close>

definition escape_template :: "string \<Rightarrow> string" where
  "escape_template s = replace_all ''{{'' (CHR 0x5C # ''{{'') s"

lemma escape_template_simps:
  "escape_template [] = []"
  "escape_template (''{{'' @ s) = CHR 0x5C # ''{{'' @ escape_template s"
  "\<not> has_prefix (a # s) ''{{'' \<Longrightarrow> escape_template (a # s) = a # escape_template s"
  by (simp_all add: escape_template_def)

lemma escape_template_hd:
  "escape_template s = c # r \<Longrightarrow> c = CHR ''{'' \<Longrightarrow> \<not> has_prefix s ''{{'' \<and> (\<exists>t. s = CHR ''{'' # t \<and> r = escape_template t)"
proof (cases s)
  case Nil
  then show "escape_template s = c # r \<Longrightarrow> ?thesis" by (simp add: escape_template_simps)
next
  case (Cons a t)
  assume e: "escape_template s = c # r" "c = CHR ''{''"
  show ?thesis
  proof (cases "has_prefix s ''{{''")
    case True
    then obtain u where "s = ''{{'' @ u" by (auto simp: has_prefix_iff)
    with e show ?thesis by (simp only: escape_template_simps) simp
  next
    case False
    then show ?thesis using e Cons by (simp add: escape_template_simps)
  qed
qed

lemma escape_template_char:
  assumes "\<not> has_prefix (a # s) ''{{''"
  shows "\<not> has_prefix (a # escape_template s) ''{{''" "\<not> has_prefix (a # escape_template s) (CHR 0x5C # ''{{'')"
proof -
  show "\<not> has_prefix (a # escape_template s) ''{{''"
  proof
    assume "has_prefix (a # escape_template s) ''{{''"
    then obtain r where "a = CHR ''{''" "escape_template s = CHR ''{'' # r" by (auto simp: has_prefix_iff)
    with escape_template_hd [OF this(2) refl] assms show False by auto
  qed
  show "\<not> has_prefix (a # escape_template s) (CHR 0x5C # ''{{'')"
  proof
    assume "has_prefix (a # escape_template s) (CHR 0x5C # ''{{'')"
    then obtain r where "escape_template s = CHR ''{'' # CHR ''{'' # r" by (auto simp: has_prefix_iff)
    from escape_template_hd [OF this refl] obtain t where t: "\<not> has_prefix s ''{{''" "s = CHR ''{'' # t"
      "escape_template t = CHR ''{'' # r" by auto
    from escape_template_hd [OF t(3) refl] t(1,2) show False by auto
  qed
qed

lemma expand_loop_escaped:
  "x_fatal x = None \<Longrightarrow> length sb + length s \<le> op_max_output op \<Longrightarrow>
   x_produced x + length s \<le> op_max_output op * default_max_depth \<Longrightarrow>
   expand_loop op st (escape_template s) sb d c x = (sb @ s, x\<lparr>x_produced := x_produced x + length s\<rparr>)"
proof (induction "length s" arbitrary: s sb x rule: less_induct)
  case less
  show ?case
  proof (cases s)
    case Nil
    then show ?thesis by (subst expand_loop.simps) (simp add: escape_template_simps)
  next
    case (Cons a t)
    show ?thesis
    proof (cases "has_prefix s ''{{''")
      case True
      then obtain u where s: "s = ''{{'' @ u" by (auto simp: has_prefix_iff)
      have "write_out op sb ''{{'' x = (Some (sb @ ''{{''), x\<lparr>x_produced := x_produced x + 2\<rparr>)"
        using less.prems s by (simp add: write_out_def)
      moreover have "expand_loop op st (escape_template u) (sb @ ''{{'') d c (x\<lparr>x_produced := x_produced x + 2\<rparr>)
          = ((sb @ ''{{'') @ u, x\<lparr>x_produced := x_produced x + 2 + length u\<rparr>)"
        using less.hyps [of u "x\<lparr>x_produced := x_produced x + 2\<rparr>" "sb @ ''{{''"] less.prems s by simp
      ultimately show ?thesis using less.prems(1) unfolding s escape_template_simps
        by (subst expand_loop.simps) simp
    next
      case False
      note ch = escape_template_char [OF False [unfolded Cons]]
      have "write_out op sb [a] x = (Some (sb @ [a]), x\<lparr>x_produced := x_produced x + 1\<rparr>)"
        using less.prems Cons by (simp add: write_out_def)
      moreover have "expand_loop op st (escape_template t) (sb @ [a]) d c (x\<lparr>x_produced := x_produced x + 1\<rparr>)
          = ((sb @ [a]) @ t, x\<lparr>x_produced := x_produced x + 1 + length t\<rparr>)"
        using less.hyps [of t "x\<lparr>x_produced := x_produced x + 1\<rparr>" "sb @ [a]"] less.prems Cons by simp
      ultimately show ?thesis using less.prems(1) ch False
        unfolding Cons escape_template_simps(3) [OF False [unfolded Cons]]
        by (subst expand_loop.simps) auto
    qed
  qed
qed

text \<open>
  Round trip of the escape: a text of at most the output limit whose openings are escaped
  resolves to itself, whatever the variables, with no use, no problem and no error.
\<close>

theorem escaped_text_resolves_to_itself:
  assumes "length s \<le> op_max_output op"
  shows "fst (resolve op reg (escape_template s) st)
         = \<lparr>r_value = s, r_uses = [], r_unresolved = [], r_problems = [], r_err = None\<rparr>"
proof (cases "str_contains (escape_template s) ''{{''")
  case True
  have "expand_loop op st (escape_template s) [] 0 [] (new_var_run reg)
      = ([] @ s, (new_var_run reg)\<lparr>x_produced := x_produced (new_var_run reg) + length s\<rparr>)"
    using assms by (intro expand_loop_escaped) (auto simp: new_var_run_def default_max_depth_def)
  with True show ?thesis
    by (simp add: resolve_def expand.simps finish_result_def new_var_run_def)
next
  case False
  have "\<not> str_contains s ''{{''"
  proof
    assume "str_contains s ''{{''"
    then obtain u v where s: "s = u @ ''{{'' @ v" by (auto simp: str_contains_iff)
    have "str_contains (escape_template (u @ ''{{'' @ v)) ''{{''"
    proof (induction "length u" arbitrary: u rule: less_induct)
      case less
      show ?case
      proof (cases "has_prefix (u @ ''{{'' @ v) ''{{''")
        case True
        then obtain w where w: "u @ ''{{'' @ v = ''{{'' @ w" by (auto simp: has_prefix_iff)
        have "CHR 0x5C # ''{{'' @ escape_template w = [CHR 0x5C] @ ''{{'' @ escape_template w" by simp
        then show ?thesis unfolding w escape_template_simps(2) str_contains_iff by blast
      next
        case False
        then obtain a t where u: "u = a # t" by (cases u) auto
        from False u have "escape_template (u @ ''{{'' @ v) = a # escape_template (t @ ''{{'' @ v)"
          by (simp add: escape_template_simps)
        then show ?thesis using less [of t] u by (simp add: str_contains_Cons)
      qed
    qed
    with False s show False by simp
  qed
  then have "escape_template s = s" by (simp add: escape_template_def replace_all_id)
  with False show ?thesis by (simp add: resolve_def expand.simps finish_result_def new_var_run_def)
qed

theorem escaped_text_resolves_to_itself_witness:
  "r_value (fst (resolve demo_options None (escape_template ''{{host}} {{{'') demo_stack)) = ''{{host}} {{{''"
  using escaped_text_resolves_to_itself [of "''{{host}} {{{''" demo_options None demo_stack]
  by (simp add: demo_options_def new_resolver_def)

section \<open>Corners\<close>

text \<open>
  With \<open>PolicyEmpty\<close> a nested name depends on what was unresolved before it: alone, the reference with
  an unresolved inner name is empty; after the same name failed once, the inner failure goes
  unnoticed and the outer name is looked up without it.
\<close>

lemma nested_name_depends_on_history:
  "r_value (fst (resolve (demo_options\<lparr>op_policy := PolicyEmpty\<rparr>) None ''{{a{{x}}}}'' demo_stack)) = []"
  "r_value (fst (resolve (demo_options\<lparr>op_policy := PolicyEmpty\<rparr>) None ''{{x}}{{a{{x}}}}'' demo_stack)) = ''A''"
  unfolding demo_stack_eq by code_simp+

text \<open>An expression without a name is sent as it is written, although the policy is to block.\<close>

lemma blank_name_not_blocked:
  "fst (resolve demo_options None ''a{{ }}b'' demo_stack)
   = \<lparr>r_value = ''a{{ }}b'', r_uses = [], r_unresolved = [], r_problems = [], r_err = None\<rparr>"
  unfolding demo_stack_eq by code_simp

text \<open>
  Pipes run before any limit is checked, and the \<open>json\<close> pipe doubles a backslash: the value grows
  exponentially with the length of the template.
\<close>

lemma json_body_backslashes: "json_body (replicate k (CHR 0x5C)) = replicate (2 * k) (CHR 0x5C)"
proof (induction k)
  case (Suc k)
  have "utf8_len (replicate (Suc k) (CHR 0x5C)) = 1" by (simp add: utf8_len_def Let_def byte_val_def)
  then show ?case using Suc by (simp add: Let_def json_ascii_def)
qed simp

lemma pipes_grow_exponentially:
  "apply_pipes pc (replicate k (CHR 0x5C)) (replicate n ''json'') = Inr (replicate (2 ^ n * k) (CHR 0x5C))"
proof (induction n arbitrary: k)
  case (Suc n)
  have "apply_pipe pc (replicate k (CHR 0x5C)) (trim_space ''json'') = Some (replicate (2 * k) (CHR 0x5C))"
  proof -
    have "trim_space ''json'' = ''json''" "pipe_parts ''json'' = (''json'', [])" by code_simp+
    then show ?thesis by (simp add: apply_pipe_def json_body_backslashes)
  qed
  then show ?case using Suc [of "2 * k"] by (simp add: mult.assoc mult.left_commute)
qed simp

end
