(* ===== verification/VarRequest.thy ===== *)
theory VarRequest
  imports VarEval
begin

text \<open>
  Resolving a whole request (\<open>internal/varstore/request.go\<close>): \<open>SubstitutePath\<close> and
  \<open>ResolveRequest\<close>. The maps of path variables and of auth fields are association lists in the order
  in which the code's \<open>range\<close> visits them; a nil list of headers and an empty one are the same.
\<close>

section \<open>Path variables\<close>

text \<open>\<open>url.PathEscape\<close>\<close>

definition path_escape_char :: "char \<Rightarrow> string" where
  "path_escape_char c =
     (if is_letter c \<or> is_digit c \<or> c \<in> set ''-_.~$&+:=@'' then [c]
      else [CHR ''%'', hex_upper (byte_val c div 16), hex_upper (byte_val c mod 16)])"

definition path_escape :: "string \<Rightarrow> string" where
  "path_escape s = concat (map path_escape_char s)"

definition subst_segment :: "(string \<times> string) list \<Rightarrow> string \<Rightarrow> string" where
  "subst_segment vars seg =
     (case cut_prefix seg '':'' of
        None \<Rightarrow> seg
      | Some name \<Rightarrow> (case map_of vars name of None \<Rightarrow> seg | Some v \<Rightarrow> path_escape v))"

text \<open>Where the path starts; \<open>None\<close> when the code finds none.\<close>

definition path_start :: "string \<Rightarrow> nat option" where
  "path_start raw =
     (case str_index raw ''://'' of
        Some i \<Rightarrow> map_option (\<lambda>k. k + i + 3) (byte_index (CHR ''/'') (drop (i + 3) raw))
      | None \<Rightarrow> if has_prefix raw ''/'' then Some 0 else byte_index (CHR ''/'') raw)"

definition path_end_byte :: "char \<Rightarrow> bool" where
  "path_end_byte c \<longleftrightarrow> c = CHR ''?'' \<or> c = CHR ''#''"

definition substitute_path :: "string \<Rightarrow> (string \<times> string) list \<Rightarrow> string" where
  "substitute_path raw vars =
     (if vars = [] then raw
      else (case path_start raw of
        None \<Rightarrow> raw
      | Some i \<Rightarrow>
          (let path = takeWhile (\<lambda>c. \<not> path_end_byte c) (drop i raw);
               suf = dropWhile (\<lambda>c. \<not> path_end_byte c) (drop i raw)
           in take i raw @ str_join ''/'' (map (subst_segment vars) (split_byte (CHR ''/'') path)) @ suf)))"









text \<open>Without a path, a slash in the query is taken for it: the query is rewritten.\<close>

lemma query_taken_for_path:
  "substitute_path ''http://h?next=/:id'' [(''id'', ''7'')] = ''http://h?next=/7''"
  by code_simp

section \<open>A request\<close>

record kv =
  kv_key :: string
  kv_value :: string
  kv_disabled :: bool

record var_request =
  vq_method :: string
  vq_url :: string
  vq_path_vars :: "(string \<times> string) list"
  vq_query :: "kv list"
  vq_headers :: "kv list"
  vq_form :: "kv list"
  vq_body :: string
  vq_auth :: "(string \<times> string) list"

text \<open>The closure \<open>rs\<close>: one field in the shared run.\<close>

definition resolve_field :: "options \<Rightarrow> stack \<Rightarrow> string \<Rightarrow> string \<Rightarrow> var_run \<Rightarrow> string \<times> var_run" where
  "resolve_field op st field tpl x = expand op st tpl 0 [] (x\<lparr>x_field := field\<rparr>)"

fun resolve_map ::
    "options \<Rightarrow> stack \<Rightarrow> string \<Rightarrow> (string \<times> string) list \<Rightarrow> var_run \<Rightarrow> (string \<times> string) list \<times> var_run" where
  "resolve_map op st pre [] x = ([], x)"
| "resolve_map op st pre ((k, v) # m) x =
     (let (v', x1) = resolve_field op st (pre @ k) v x; (m', x2) = resolve_map op st pre m x1
      in ((k, v') # m', x2))"

fun resolve_kvs :: "options \<Rightarrow> stack \<Rightarrow> string \<Rightarrow> kv list \<Rightarrow> var_run \<Rightarrow> kv list \<times> var_run" where
  "resolve_kvs op st field [] x = ([], x)"
| "resolve_kvs op st field (e # es) x =
     (if kv_disabled e then
        (let (es', x1) = resolve_kvs op st field es x in (e # es', x1))
      else
        (let (k, x1) = resolve_field op st (field @ ''.name'') (kv_key e) x;
             (v, x2) = resolve_field op st (field @ '':'' @ kv_key e) (kv_value e) x1;
             (es', x3) = resolve_kvs op st field es x2
         in (\<lparr>kv_key = k, kv_value = v, kv_disabled = False\<rparr> # es', x3)))"

definition resolve_request ::
    "options \<Rightarrow> registry option \<Rightarrow> var_request \<Rightarrow> stack \<Rightarrow> var_request \<times> resolved \<times> registry option" where
  "resolve_request op reg req st =
     (let (me, x1) = resolve_field op st ''method'' (vq_method req) (new_var_run reg);
          (pv, x2) = resolve_map op st ''path:'' (vq_path_vars req) x1;
          (ur, x3) = resolve_field op st ''url'' (vq_url req) x2;
          (qs, x4) = resolve_kvs op st ''query'' (vq_query req) x3;
          (hs, x5) = resolve_kvs op st ''header'' (vq_headers req) x4;
          (fs, x6) = resolve_kvs op st ''form'' (vq_form req) x5;
          (bo, x7) = resolve_field op st ''body'' (vq_body req) x6;
          (au, x8) = resolve_map op st ''auth:'' (vq_auth req) x7
      in (\<lparr>vq_method = me, vq_url = substitute_path ur pv, vq_path_vars = pv, vq_query = qs,
            vq_headers = hs, vq_form = fs, vq_body = bo, vq_auth = au\<rparr>,
          finish_result op [] x8, x_registry x8))"

text \<open>What the fields of a request mean.\<close>

definition kv_means :: "options \<Rightarrow> stack \<Rightarrow> kv \<Rightarrow> kv \<Rightarrow> bool" where
  "kv_means op st e e' \<longleftrightarrow>
     (if kv_disabled e then e' = e
      else means op st (kv_key e) (kv_key e') \<and> means op st (kv_value e) (kv_value e') \<and> \<not> kv_disabled e')"

definition map_means :: "options \<Rightarrow> stack \<Rightarrow> (string \<times> string) list \<Rightarrow> (string \<times> string) list \<Rightarrow> bool" where
  "map_means op st m m' \<longleftrightarrow> list_all2 (\<lambda>(k, v) (k', v'). k' = k \<and> means op st v v') m m'"

lemma resolve_field_means:
  "resolve_field op st f t x = (v, y) \<Longrightarrow> clean y \<Longrightarrow> clean x \<and> means op st t v"
proof -
  assume r: "resolve_field op st f t x = (v, y)" and y: "clean y"
  have g: "g_expand op st 0 [] t (x\<lparr>x_field := f\<rparr>) v y"
    using graph(1) [of op st 0 "[]" t "x\<lparr>x_field := f\<rparr>"] r by (simp add: resolve_field_def)
  have "clean (x\<lparr>x_field := f\<rparr>)" by (rule clean_before [OF extends_graph(1) [OF g] y])
  then show "clean x \<and> means op st t v" using means_graph(1) [OF g] y by (simp add: clean_def)
qed

lemma resolve_map_means:
  "resolve_map op st pre m x = (m', y) \<Longrightarrow> clean y \<Longrightarrow> clean x \<and> map_means op st m m'"
proof (induction m arbitrary: x m')
  case (Cons e m)
  obtain k v where e: "e = (k, v)" by force
  obtain v' x1 m1 where r: "resolve_field op st (pre @ k) v x = (v', x1)" "resolve_map op st pre m x1 = (m1, y)"
      "m' = (k, v') # m1"
    using Cons.prems(1) by (auto simp: e split: prod.splits)
  show ?case using Cons.IH [OF r(2) Cons.prems(2)] resolve_field_means [OF r(1)] by (simp add: e r(3) map_means_def)
qed (simp add: map_means_def)

lemma resolve_kvs_means:
  "resolve_kvs op st f es x = (es', y) \<Longrightarrow> clean y \<Longrightarrow> clean x \<and> list_all2 (kv_means op st) es es'"
proof (induction es arbitrary: x es')
  case (Cons e es)
  show ?case
  proof (cases "kv_disabled e")
    case True
    then obtain es1 where r: "resolve_kvs op st f es x = (es1, y)" "es' = e # es1"
      using Cons.prems(1) by (auto split: prod.splits)
    show ?thesis using Cons.IH [OF r(1) Cons.prems(2)] True by (simp add: r(2) kv_means_def)
  next
    case False
    then obtain k x1 v x2 es1 where r: "resolve_field op st (f @ ''.name'') (kv_key e) x = (k, x1)"
      "resolve_field op st (f @ '':'' @ kv_key e) (kv_value e) x1 = (v, x2)"
      "resolve_kvs op st f es x2 = (es1, y)" "es' = \<lparr>kv_key = k, kv_value = v, kv_disabled = False\<rparr> # es1"
      using Cons.prems(1) by (auto split: prod.splits)
    show ?thesis
      using Cons.IH [OF r(3) Cons.prems(2)] resolve_field_means [OF r(2)] resolve_field_means [OF r(1)] False
      by (simp add: r(4) kv_means_def)
  qed
qed simp

text \<open>
  Under the default policy \<open>ResolveRequest\<close> either reports an error or gives back a request in
  which every field is a meaning of the template it had: method, URL (with the path
  variables substituted), path variables, the enabled query, header and form entries with their
  names, the body and the auth fields; disabled entries are untouched and nothing is unresolved.
\<close>

theorem resolve_request_denotes:
  assumes "resolve_request op reg req st = (out, res, reg')"
    and "op_policy op = PolicyBlock" and "r_err res = None"
  shows "means op st (vq_method req) (vq_method out)
    \<and> (\<exists>u. means op st (vq_url req) u \<and> vq_url out = substitute_path u (vq_path_vars out))
    \<and> map_means op st (vq_path_vars req) (vq_path_vars out)
    \<and> list_all2 (kv_means op st) (vq_query req) (vq_query out)
    \<and> list_all2 (kv_means op st) (vq_headers req) (vq_headers out)
    \<and> list_all2 (kv_means op st) (vq_form req) (vq_form out)
    \<and> means op st (vq_body req) (vq_body out)
    \<and> map_means op st (vq_auth req) (vq_auth out) \<and> r_unresolved res = []"
proof -
  obtain me x1 pv x2 ur x3 qs x4 hs x5 fs x6 bo x7 au x8 where r:
    "resolve_field op st ''method'' (vq_method req) (new_var_run reg) = (me, x1)"
    "resolve_map op st ''path:'' (vq_path_vars req) x1 = (pv, x2)"
    "resolve_field op st ''url'' (vq_url req) x2 = (ur, x3)"
    "resolve_kvs op st ''query'' (vq_query req) x3 = (qs, x4)"
    "resolve_kvs op st ''header'' (vq_headers req) x4 = (hs, x5)"
    "resolve_kvs op st ''form'' (vq_form req) x5 = (fs, x6)"
    "resolve_field op st ''body'' (vq_body req) x6 = (bo, x7)"
    "resolve_map op st ''auth:'' (vq_auth req) x7 = (au, x8)"
    by (metis surj_pair)
  then have out: "out = \<lparr>vq_method = me, vq_url = substitute_path ur pv, vq_path_vars = pv, vq_query = qs,
            vq_headers = hs, vq_form = fs, vq_body = bo, vq_auth = au\<rparr>" "res = finish_result op [] x8"
    using assms(1) by (simp_all add: resolve_request_def)
  have c8: "clean x8" "r_unresolved res = []"
    using assms(2,3) by (auto simp: out(2) finish_result_def clean_def split: option.splits if_splits)
  note m8 = resolve_map_means [OF r(8) c8(1)]
  note m7 = resolve_field_means [OF r(7) conjunct1 [OF m8]]
  note m6 = resolve_kvs_means [OF r(6) conjunct1 [OF m7]]
  note m5 = resolve_kvs_means [OF r(5) conjunct1 [OF m6]]
  note m4 = resolve_kvs_means [OF r(4) conjunct1 [OF m5]]
  note m3 = resolve_field_means [OF r(3) conjunct1 [OF m4]]
  note m2 = resolve_map_means [OF r(2) conjunct1 [OF m3]]
  note m1 = resolve_field_means [OF r(1) conjunct1 [OF m2]]
  show ?thesis using m1 m2 m3 m4 m5 m6 m7 m8 c8(2) by (auto simp: out(1))
qed

definition demo_template_request :: var_request where
  "demo_template_request = \<lparr>vq_method = ''GET'', vq_url = ''/u/:id'', vq_path_vars = [(''id'', ''{{a}}'')],
     vq_query = [\<lparr>kv_key = ''q'', kv_value = ''{{x}}'', kv_disabled = True\<rparr>],
     vq_headers = [\<lparr>kv_key = ''H'', kv_value = ''{{sub}}'', kv_disabled = False\<rparr>],
     vq_form = [], vq_body = [], vq_auth = []\<rparr>"

theorem resolve_request_denotes_witness:
  "list_all2 (kv_means demo_options demo_stack) (vq_headers demo_template_request)
     [\<lparr>kv_key = ''H'', kv_value = ''api'', kv_disabled = False\<rparr>]"
proof -
  obtain out res reg' where r: "resolve_request demo_options None demo_template_request demo_stack = (out, res, reg')"
    by (metis prod_cases3)
  have "r_err (fst (snd (resolve_request demo_options None demo_template_request demo_stack))) = None
    \<and> vq_headers (fst (resolve_request demo_options None demo_template_request demo_stack))
       = [\<lparr>kv_key = ''H'', kv_value = ''api'', kv_disabled = False\<rparr>]"
    unfolding demo_stack_eq by code_simp
  moreover have "op_policy demo_options = PolicyBlock" by (simp add: demo_options_def new_resolver_def)
  ultimately show ?thesis using resolve_request_denotes [OF r] r by simp
qed

end
