(* ===== verification/CollVars.thy ===== *)
theory CollVars
  imports VarStack "HOL-Library.AList"
begin

text \<open>
  The variables a collection script reads and writes: \<open>Vars\<close> of \<open>internal/collexec/vars.go\<close>, the
  variable state of one step with the log of its writes. A layer's variables are the association lists of
  VarStack. Where the code ranges over a map the model takes the order of the list;
  the order never shows in what the theorems state.
\<close>

section \<open>One step's variables\<close>

definition scope_of :: "string \<Rightarrow> var_scope option" where
  "scope_of name =
     (if name = ''environment'' then Some ScopeEnvironment else if name = ''globals'' then Some ScopeGlobal
      else if name = ''collection'' then Some ScopeCollection else if name = ''local'' then Some ScopeLocal
      else if name = ''data'' then Some ScopeData else None)"

record var_change =
  vc_scope :: string
  vc_key :: string
  vc_value :: string
  vc_display :: string
  vc_unset :: bool
  vc_secret :: bool

record cvars =
  cv_layers :: "layer list"
  cv_changes :: "var_change list"
  cv_reg :: "registry option"
  cv_secret_name :: "(string \<Rightarrow> bool) option"

datatype vars_error = UnknownScope string | DataReadOnly | CannotUnset string

definition new_vars ::
    "layer list \<Rightarrow> (string \<times> string) list \<Rightarrow> registry option \<Rightarrow> (string \<Rightarrow> bool) option \<Rightarrow> cvars" where
  "new_vars base local reg secret_name =
     \<lparr>cv_layers = base @
        (if local = [] then []
         else [\<lparr>ly_scope = ScopeLocal, ly_name = ''local'',
                ly_vars = map (\<lambda>(k, x). (k, \<lparr>va_value = x, va_secret = False\<rparr>)) local\<rparr>]),
      cv_changes = [], cv_reg = reg, cv_secret_name = secret_name\<rparr>"

definition vars_stack :: "cvars \<Rightarrow> stack" where
  "vars_stack v = new_stack (cv_layers v)"

definition vars_get :: "cvars \<Rightarrow> string \<Rightarrow> string option" where
  "vars_get v name = map_option (\<lambda>(x, s). va_value x) (lookup_var (vars_stack v) name)"

fun first_in :: "layer list \<Rightarrow> var_scope \<Rightarrow> string \<Rightarrow> var option" where
  "first_in [] sc name = None"
| "first_in (l # ls) sc name =
     (if ly_scope l = sc then
        (case map_of (ly_vars l) name of Some x \<Rightarrow> Some x | None \<Rightarrow> first_in ls sc name)
      else first_in ls sc name)"

definition get_in :: "cvars \<Rightarrow> string \<Rightarrow> string \<Rightarrow> string option" where
  "get_in v scope name =
     (case scope_of scope of None \<Rightarrow> None
      | Some sc \<Rightarrow> map_option va_value (first_in (cv_layers v) sc name))"

text \<open>Inner (earlier) layers win within a scope.\<close>

definition to_object :: "cvars \<Rightarrow> string \<Rightarrow> (string \<times> string) list" where
  "to_object v scope =
     (case scope_of scope of None \<Rightarrow> []
      | Some sc \<Rightarrow>
          foldr (\<lambda>l m. if ly_scope l = sc then foldl (\<lambda>m (k, x). AList.update k (va_value x) m) m (ly_vars l) else m)
            (cv_layers v) [])"

text \<open>
  The search loop of \<open>Set\<close>: the layer to write (the first of the scope that has the name, else the
  first of the scope), whether the variable was secret and whether it existed.
\<close>

fun find_target :: "var_scope \<Rightarrow> string \<Rightarrow> nat \<Rightarrow> nat option \<Rightarrow> layer list \<Rightarrow> nat option \<times> bool \<times> bool" where
  "find_target sc name i tgt [] = (tgt, False, False)"
| "find_target sc name i tgt (l # ls) =
     (if ly_scope l \<noteq> sc then find_target sc name (i + 1) tgt ls
      else
        (case map_of (ly_vars l) name of
           Some x \<Rightarrow> (Some i, va_secret x, True)
         | None \<Rightarrow> find_target sc name (i + 1) (if tgt = None then Some i else tgt) ls))"

definition put_var :: "string \<Rightarrow> var \<Rightarrow> layer \<Rightarrow> layer" where
  "put_var name x l = l\<lparr>ly_vars := AList.update name x (ly_vars l)\<rparr>"

definition drop_var :: "string \<Rightarrow> layer \<Rightarrow> layer" where
  "drop_var name l = l\<lparr>ly_vars := AList.delete name (ly_vars l)\<rparr>"

definition set_var :: "string \<Rightarrow> string \<Rightarrow> string \<Rightarrow> cvars \<Rightarrow> vars_error + cvars" where
  "set_var scope name value v =
     (case scope_of scope of
        None \<Rightarrow> Inl (UnknownScope scope)
      | Some sc \<Rightarrow>
          if sc = ScopeData then Inl DataReadOnly
          else
            (let (tgt, secret0, existed) = find_target sc name 0 None (cv_layers v);
                 layers = (case tgt of Some i \<Rightarrow> cv_layers v
                           | None \<Rightarrow> cv_layers v @ [\<lparr>ly_scope = sc, ly_name = scope, ly_vars = []\<rparr>]);
                 i = (case tgt of Some i \<Rightarrow> i | None \<Rightarrow> length (cv_layers v));
                 secret = (secret0 \<or> \<not> existed \<and> (case cv_secret_name v of None \<Rightarrow> False | Some f \<Rightarrow> f name))
             in Inr (v\<lparr>cv_layers := layers[i := put_var name \<lparr>va_value = value, va_secret = secret\<rparr> (layers ! i)],
                       cv_reg := (if secret then fst (reg_add value (cv_reg v)) else cv_reg v),
                       cv_changes := cv_changes v @
                         [\<lparr>vc_scope = scope, vc_key = name, vc_value = value,
                           vc_display = (if secret then ''[secret]'' else value), vc_unset = False,
                           vc_secret = secret\<rparr>]\<rparr>)))"

definition unset_var :: "string \<Rightarrow> string \<Rightarrow> cvars \<Rightarrow> vars_error + cvars" where
  "unset_var scope name v =
     (case scope_of scope of
        None \<Rightarrow> Inl (CannotUnset scope)
      | Some sc \<Rightarrow>
          if sc = ScopeData then Inl (CannotUnset scope)
          else Inr (v\<lparr>cv_layers := map (\<lambda>l. if ly_scope l = sc then drop_var name l else l) (cv_layers v),
                      cv_changes := cv_changes v @
                        [\<lparr>vc_scope = scope, vc_key = name, vc_value = [], vc_display = [], vc_unset = True,
                          vc_secret = False\<rparr>]\<rparr>))"

fun unset_all :: "string \<Rightarrow> string list \<Rightarrow> cvars \<Rightarrow> vars_error option \<times> cvars" where
  "unset_all scope [] v = (None, v)"
| "unset_all scope (k # ks) v =
     (case unset_var scope k v of Inl e \<Rightarrow> (Some e, v) | Inr v' \<Rightarrow> unset_all scope ks v')"

definition clear_scope :: "string \<Rightarrow> cvars \<Rightarrow> vars_error option \<times> cvars" where
  "clear_scope scope v = unset_all scope (map fst (to_object v scope)) v"

definition change_id :: "string \<Rightarrow> string \<Rightarrow> string" where
  "change_id scope key = scope @ CHR 0x00 # key"

definition same_var :: "var_change \<Rightarrow> var_change \<Rightarrow> bool" where
  "same_var c d \<longleftrightarrow> change_id (vc_scope c) (vc_key c) = change_id (vc_scope d) (vc_key d)"

text \<open>\<open>Changes\<close>: in order, only the last write of each variable.\<close>

fun last_writes :: "var_change list \<Rightarrow> var_change list" where
  "last_writes [] = []"
| "last_writes (c # cs) = (if list_ex (same_var c) cs then last_writes cs else c # last_writes cs)"

definition vars_changes :: "cvars \<Rightarrow> var_change list" where
  "vars_changes v = last_writes (cv_changes v)"

section \<open>Scopes as maps\<close>

text \<open>The abstract view: what each scope holds.\<close>

type_synonym scope_map = "var_scope \<Rightarrow> string \<Rightarrow> string option"

definition layers_map :: "layer list \<Rightarrow> scope_map" where
  "layers_map ls sc name = map_option va_value (first_in ls sc name)"

definition scope_put :: "var_scope \<Rightarrow> string \<Rightarrow> string option \<Rightarrow> scope_map \<Rightarrow> scope_map" where
  "scope_put sc name x m = m(sc := (m sc)(name := x))"

text \<open>What a recorded change does to it.\<close>

definition apply_change :: "var_change \<Rightarrow> scope_map \<Rightarrow> scope_map" where
  "apply_change c m =
     (case scope_of (vc_scope c) of None \<Rightarrow> m
      | Some sc \<Rightarrow> scope_put sc (vc_key c) (if vc_unset c then None else Some (vc_value c)) m)"

lemma first_in_append:
  "first_in (ls @ ms) sc n = (case first_in ls sc n of Some x \<Rightarrow> Some x | None \<Rightarrow> first_in ms sc n)"
  by (induction ls) (auto split: option.splits)

lemma first_in_drop:
  "first_in (map (\<lambda>l. if ly_scope l = sc then drop_var name l else l) ls) sc' n
   = (if sc' = sc \<and> n = name then None else first_in ls sc' n)"
  by (induction ls) (auto simp: drop_var_def AList.delete_conv' split: option.splits)

definition good_target :: "layer list \<Rightarrow> var_scope \<Rightarrow> string \<Rightarrow> nat \<Rightarrow> bool" where
  "good_target ls sc name i \<longleftrightarrow>
     i < length ls \<and> ly_scope (ls ! i) = sc
     \<and> (\<forall>j<i. ly_scope (ls ! j) = sc \<longrightarrow> map_of (ly_vars (ls ! j)) name = None)"

lemma first_in_put:
  "good_target ls sc name i \<Longrightarrow>
   first_in (ls[i := put_var name x (ls ! i)]) sc' n = (if sc' = sc \<and> n = name then Some x else first_in ls sc' n)"
proof (induction ls arbitrary: i)
  case Nil
  then show ?case by (simp add: good_target_def)
next
  case (Cons l ls)
  show ?case
  proof (cases i)
    case 0
    with Cons.prems show ?thesis
      by (auto simp: good_target_def put_var_def AList.update_conv' split: option.splits)
  next
    case (Suc j)
    have g: "good_target ls sc name j"
      using Cons.prems Suc by (auto simp: good_target_def)
    have "ly_scope l = sc \<longrightarrow> map_of (ly_vars l) name = None"
      using Cons.prems Suc unfolding good_target_def by (metis nth_Cons_0 zero_less_Suc)
    with Cons.IH [OF g] Suc show ?thesis by (auto split: option.splits)
  qed
qed

lemma find_target_spec:
  "find_target sc name (length ps) tgt ls = (t, s, e) \<Longrightarrow>
   (\<forall>l\<in>set ps. ly_scope l = sc \<longrightarrow> map_of (ly_vars l) name = None) \<Longrightarrow>
   (case tgt of None \<Rightarrow> \<forall>l\<in>set ps. ly_scope l \<noteq> sc | Some i \<Rightarrow> i < length ps \<and> ly_scope (ps ! i) = sc) \<Longrightarrow>
   (case t of None \<Rightarrow> \<forall>l\<in>set (ps @ ls). ly_scope l \<noteq> sc | Some i \<Rightarrow> good_target (ps @ ls) sc name i)
   \<and> (case first_in ls sc name of None \<Rightarrow> \<not> s \<and> \<not> e | Some x \<Rightarrow> e \<and> s = va_secret x)"
proof (induction ls arbitrary: ps tgt)
  case Nil
  then show ?case by (auto simp: good_target_def split: option.splits)
next
  case (Cons l ls)
  show ?case
  proof (cases "ly_scope l = sc")
    case False
    with Cons.prems(1) have "find_target sc name (length (ps @ [l])) tgt ls = (t, s, e)" by simp
    from Cons.IH [OF this] Cons.prems(2,3) False show ?thesis
      by (auto simp: nth_append split: option.splits)
  next
    case sc: True
    show ?thesis
    proof (cases "map_of (ly_vars l) name")
      case None
      define tgt' where "tgt' = (if tgt = None then Some (length ps) else tgt)"
      from Cons.prems(1) sc None have "find_target sc name (length (ps @ [l])) tgt' ls = (t, s, e)"
        by (simp add: tgt'_def)
      from Cons.IH [OF this] Cons.prems(2,3) sc None show ?thesis
        by (auto simp: tgt'_def nth_append split: option.splits)
    next
      case (Some x)
      with Cons.prems(1) sc have r: "t = Some (length ps)" "s = va_secret x" "e" by auto
      have "good_target (ps @ l # ls) sc name (length ps)"
        using Cons.prems(2) sc by (auto simp: good_target_def nth_append)
      then show ?thesis using r Some sc by simp
    qed
  qed
qed

lemma scope_of_data: "scope_of scope = Some ScopeData \<longleftrightarrow> scope = ''data''"
  by (auto simp: scope_of_def)

lemma set_var_layers:
  assumes "set_var scope name value v = Inr v'" "scope_of scope = Some sc"
  shows "layers_map (cv_layers v') = scope_put sc name (Some value) (layers_map (cv_layers v))"
    and "\<exists>sec. cv_changes v' = cv_changes v @
           [\<lparr>vc_scope = scope, vc_key = name, vc_value = value, vc_display = (if sec then ''[secret]'' else value),
             vc_unset = False, vc_secret = sec\<rparr>]
         \<and> first_in (cv_layers v') sc name = Some \<lparr>va_value = value, va_secret = sec\<rparr>
         \<and> cv_reg v' = (if sec then fst (reg_add value (cv_reg v)) else cv_reg v)
         \<and> sec = (case first_in (cv_layers v) sc name of Some x \<Rightarrow> va_secret x
                  | None \<Rightarrow> (case cv_secret_name v of None \<Rightarrow> False | Some f \<Rightarrow> f name))"
    and "cv_secret_name v' = cv_secret_name v"
proof -
  obtain tgt s e where ft: "find_target sc name 0 None (cv_layers v) = (tgt, s, e)" by (metis prod_cases3)
  from find_target_spec [of sc name "[]" None "cv_layers v" tgt s e] ft
  have t: "case tgt of None \<Rightarrow> \<forall>l\<in>set (cv_layers v). ly_scope l \<noteq> sc | Some i \<Rightarrow> good_target (cv_layers v) sc name i"
    and se: "case first_in (cv_layers v) sc name of None \<Rightarrow> \<not> s \<and> \<not> e | Some x \<Rightarrow> e \<and> s = va_secret x"
    by (simp_all only: list.size append_Nil ball_simps option.case) auto
  have nd: "sc \<noteq> ScopeData" using assms by (auto simp: set_var_def)
  define ls where "ls = (case tgt of Some i \<Rightarrow> cv_layers v
      | None \<Rightarrow> cv_layers v @ [\<lparr>ly_scope = sc, ly_name = scope, ly_vars = []\<rparr>])"
  define i where "i = (case tgt of Some i \<Rightarrow> i | None \<Rightarrow> length (cv_layers v))"
  define sec where "sec = (s \<or> \<not> e \<and> (case cv_secret_name v of None \<Rightarrow> False | Some f \<Rightarrow> f name))"
  have g: "good_target ls sc name i"
    using t by (auto simp: ls_def i_def good_target_def nth_append split: option.splits)
  have same: "first_in ls sc' n = first_in (cv_layers v) sc' n" for sc' n
    by (auto simp: ls_def first_in_append split: option.splits)
  have v': "v' = v\<lparr>cv_layers := ls[i := put_var name \<lparr>va_value = value, va_secret = sec\<rparr> (ls ! i)],
        cv_reg := (if sec then fst (reg_add value (cv_reg v)) else cv_reg v),
        cv_changes := cv_changes v @
          [\<lparr>vc_scope = scope, vc_key = name, vc_value = value, vc_display = (if sec then ''[secret]'' else value),
            vc_unset = False, vc_secret = sec\<rparr>]\<rparr>"
    using assms(1) nd
    unfolding set_var_def assms(2) option.case ft Let_def prod.case ls_def [symmetric] i_def [symmetric] sec_def [symmetric]
    by simp
  have fi: "first_in (cv_layers v') sc' n =
      (if sc' = sc \<and> n = name then Some \<lparr>va_value = value, va_secret = sec\<rparr> else first_in (cv_layers v) sc' n)" for sc' n
    using first_in_put [OF g, of "\<lparr>va_value = value, va_secret = sec\<rparr>" sc' n] by (simp add: v' same)
  show "layers_map (cv_layers v') = scope_put sc name (Some value) (layers_map (cv_layers v))"
    by (intro ext) (simp add: layers_map_def scope_put_def fi)
  have "sec = (case first_in (cv_layers v) sc name of Some x \<Rightarrow> va_secret x
        | None \<Rightarrow> (case cv_secret_name v of None \<Rightarrow> False | Some f \<Rightarrow> f name))"
    using se by (auto simp: sec_def split: option.splits)
  then show "\<exists>sec. cv_changes v' = cv_changes v @
           [\<lparr>vc_scope = scope, vc_key = name, vc_value = value, vc_display = (if sec then ''[secret]'' else value),
             vc_unset = False, vc_secret = sec\<rparr>]
         \<and> first_in (cv_layers v') sc name = Some \<lparr>va_value = value, va_secret = sec\<rparr>
         \<and> cv_reg v' = (if sec then fst (reg_add value (cv_reg v)) else cv_reg v)
         \<and> sec = (case first_in (cv_layers v) sc name of Some x \<Rightarrow> va_secret x
                  | None \<Rightarrow> (case cv_secret_name v of None \<Rightarrow> False | Some f \<Rightarrow> f name))"
    using fi by (intro exI [of _ sec]) (simp add: v')
  show "cv_secret_name v' = cv_secret_name v" by (simp add: v')
qed

lemma unset_var_layers:
  assumes "unset_var scope name v = Inr v'" "scope_of scope = Some sc"
  shows "layers_map (cv_layers v') = scope_put sc name None (layers_map (cv_layers v))"
  using assms by (intro ext)
    (auto simp: unset_var_def layers_map_def scope_put_def first_in_drop split: if_splits)

section \<open>Sessions\<close>

datatype vars_op = SetVar string string string | UnsetVar string string | ClearScope string

text \<open>A call; an error leaves the state as it was.\<close>

fun vars_do :: "vars_op \<Rightarrow> cvars \<Rightarrow> cvars" where
  "vars_do (SetVar scope n x) v = (case set_var scope n x v of Inl _ \<Rightarrow> v | Inr v' \<Rightarrow> v')"
| "vars_do (UnsetVar scope n) v = (case unset_var scope n v of Inl _ \<Rightarrow> v | Inr v' \<Rightarrow> v')"
| "vars_do (ClearScope scope) v = snd (clear_scope scope v)"

definition run_vars :: "vars_op list \<Rightarrow> cvars \<Rightarrow> cvars" where
  "run_vars ops v = fold vars_do ops v"

text \<open>Each call appends changes of writable scopes, and they account for what it did.\<close>

definition writable :: "string \<Rightarrow> bool" where
  "writable scope \<longleftrightarrow> scope \<in> {''environment'', ''globals'', ''collection'', ''local''}"

lemma writable_iff: "writable scope \<longleftrightarrow> (\<exists>sc. scope_of scope = Some sc \<and> sc \<noteq> ScopeData)"
  by (auto simp: writable_def scope_of_def)

definition accounts :: "cvars \<Rightarrow> cvars \<Rightarrow> bool" where
  "accounts v v' \<longleftrightarrow>
     (\<exists>cs. cv_changes v' = cv_changes v @ cs \<and> (\<forall>c\<in>set cs. writable (vc_scope c))
       \<and> layers_map (cv_layers v') = fold apply_change cs (layers_map (cv_layers v)))"

lemma accounts_refl [simp]: "accounts v v"
  by (simp add: accounts_def)

lemma accounts_trans: "accounts u v \<Longrightarrow> accounts v w \<Longrightarrow> accounts u w"
  unfolding accounts_def by (elim exE, rename_tac cs ds, rule_tac x = "cs @ ds" in exI) auto

lemma accounts_set: "set_var scope n x v = Inr v' \<Longrightarrow> accounts v v'"
proof -
  assume s: "set_var scope n x v = Inr v'"
  then obtain sc where sc: "scope_of scope = Some sc" "sc \<noteq> ScopeData"
    by (auto simp: set_var_def split: option.splits if_splits)
  from set_var_layers [OF s sc(1)] sc show ?thesis
    by (auto simp: accounts_def writable_iff apply_change_def)
qed

lemma accounts_unset: "unset_var scope n v = Inr v' \<Longrightarrow> accounts v v'"
proof -
  assume s: "unset_var scope n v = Inr v'"
  then obtain sc where sc: "scope_of scope = Some sc" "sc \<noteq> ScopeData"
    by (auto simp: unset_var_def split: option.splits if_splits)
  have "cv_changes v' = cv_changes v @ [\<lparr>vc_scope = scope, vc_key = n, vc_value = [], vc_display = [], vc_unset = True,
                          vc_secret = False\<rparr>]"
    using s sc by (auto simp: unset_var_def)
  with unset_var_layers [OF s sc(1)] sc show ?thesis
    by (auto simp: accounts_def writable_iff apply_change_def)
qed

lemma accounts_unset_all: "accounts v (snd (unset_all scope ks v))"
proof (induction ks arbitrary: v)
  case (Cons k ks)
  then show ?case by (auto split: sum.splits intro: accounts_trans [OF accounts_unset])
qed simp

lemma accounts_do: "accounts v (vars_do a v)"
  by (cases a) (auto simp: clear_scope_def accounts_unset_all intro: accounts_set accounts_unset split: sum.splits)

lemma accounts_run: "accounts v (run_vars ops v)"
  unfolding run_vars_def
  by (induction ops arbitrary: v) (auto intro: accounts_trans [OF accounts_do])

text \<open>Only the last write of a variable matters.\<close>

lemma same_var_iff:
  "writable (vc_scope c) \<Longrightarrow> writable (vc_scope d) \<Longrightarrow>
   same_var c d \<longleftrightarrow> vc_scope c = vc_scope d \<and> vc_key c = vc_key d"
  by (auto simp: same_var_def change_id_def writable_def)

lemma scope_of_inject:
  "scope_of a = Some sc \<Longrightarrow> scope_of b = Some sc \<Longrightarrow> a = b"
  by (auto simp: scope_of_def split: if_splits)

lemma apply_change_other:
  "scope_of (vc_scope c) \<noteq> Some sc \<or> vc_key c \<noteq> n \<Longrightarrow> apply_change c m sc n = m sc n"
  by (auto simp: apply_change_def scope_put_def split: option.splits)

lemma fold_apply_cong: "m sc n = m' sc n \<Longrightarrow> fold apply_change cs m sc n = fold apply_change cs m' sc n"
proof (induction cs arbitrary: m m')
  case (Cons c cs)
  have "apply_change c m sc n = apply_change c m' sc n" using Cons.prems by (auto simp: apply_change_def scope_put_def split: option.splits)
  with Cons.IH [of "apply_change c m" "apply_change c m'"] show ?case by simp
qed simp

lemma fold_apply_overwritten:
  "\<exists>d\<in>set cs. scope_of (vc_scope d) = Some sc \<and> vc_key d = n \<Longrightarrow>
   fold apply_change cs m sc n = fold apply_change cs m' sc n"
proof (induction cs arbitrary: m m')
  case (Cons c cs)
  show ?case
  proof (cases "scope_of (vc_scope c) = Some sc \<and> vc_key c = n")
    case True
    then have "apply_change c m sc n = apply_change c m' sc n"
      by (simp add: apply_change_def scope_put_def)
    from fold_apply_cong [of "apply_change c m" sc n "apply_change c m'" cs, OF this] show ?thesis by simp
  next
    case False
    with Cons.prems have "\<exists>d\<in>set cs. scope_of (vc_scope d) = Some sc \<and> vc_key d = n" by auto
    from Cons.IH [OF this, of "apply_change c m" "apply_change c m'"] show ?thesis by simp
  qed
qed simp

lemma last_writes_subset: "set (last_writes cs) \<subseteq> set cs"
  by (induction cs) auto

lemma fold_last_writes:
  "\<forall>c\<in>set cs. writable (vc_scope c) \<Longrightarrow> fold apply_change (last_writes cs) m = fold apply_change cs m"
proof (induction cs arbitrary: m)
  case (Cons c cs)
  have IH: "fold apply_change (last_writes cs) m' = fold apply_change cs m'" for m' using Cons by simp
  show ?case
  proof (cases "list_ex (same_var c) cs")
    case True
    then obtain d where d: "d \<in> set cs" "same_var c d" by (auto simp: list_ex_iff)
    then have eq: "vc_scope d = vc_scope c" "vc_key d = vc_key c"
      using Cons.prems same_var_iff [of c d] by auto
    have "fold apply_change cs (apply_change c m) sc n = fold apply_change cs m sc n" for sc n
    proof (cases "scope_of (vc_scope c) = Some sc \<and> vc_key c = n")
      case True
      then show ?thesis using d(1) eq by (intro fold_apply_overwritten bexI [of _ d]) auto
    next
      case False
      then show ?thesis by (intro fold_apply_cong) (auto simp: apply_change_other)
    qed
    then show ?thesis using True IH by (simp add: fun_eq_iff)
  next
    case False
    then show ?thesis using IH by simp
  qed
qed simp

lemma last_writes_distinct:
  "\<forall>c\<in>set cs. writable (vc_scope c) \<Longrightarrow> distinct (map (\<lambda>c. (vc_scope c, vc_key c)) (last_writes cs))"
proof (induction cs)
  case (Cons c cs)
  show ?case
  proof (cases "list_ex (same_var c) cs")
    case False
    have "(vc_scope c, vc_key c) \<notin> (\<lambda>c. (vc_scope c, vc_key c)) ` set (last_writes cs)"
    proof
      assume "(vc_scope c, vc_key c) \<in> (\<lambda>c. (vc_scope c, vc_key c)) ` set (last_writes cs)"
      then obtain d where "d \<in> set cs" "vc_scope d = vc_scope c" "vc_key d = vc_key c"
        using last_writes_subset [of cs] by auto
      then have "list_ex (same_var c) cs" using same_var_iff [of c d] Cons.prems by (auto simp: list_ex_iff)
      with False show False by simp
    qed
    with Cons False show ?thesis by simp
  qed (use Cons in simp)
qed simp

section \<open>Refinement to maps\<close>

fun spec_do :: "vars_op \<Rightarrow> scope_map \<Rightarrow> scope_map" where
  "spec_do (SetVar scope n x) m =
     (if writable scope then scope_put (the (scope_of scope)) n (Some x) m else m)"
| "spec_do (UnsetVar scope n) m =
     (if writable scope then scope_put (the (scope_of scope)) n None m else m)"
| "spec_do (ClearScope scope) m =
     (if writable scope then m(the (scope_of scope) := (\<lambda>n. None)) else m)"

lemma set_var_Inl: "\<not> writable scope \<Longrightarrow> \<exists>e. set_var scope n x v = Inl e"
  by (auto simp: writable_iff set_var_def split: option.splits)

lemma set_var_Inr: "writable scope \<Longrightarrow> \<exists>v'. set_var scope n x v = Inr v'"
  by (auto simp: writable_iff set_var_def Let_def split: option.splits prod.splits)

lemma unset_var_Inl: "\<not> writable scope \<Longrightarrow> \<exists>e. unset_var scope n v = Inl e"
  by (auto simp: writable_iff unset_var_def split: option.splits)

lemma unset_var_Inr: "writable scope \<Longrightarrow> \<exists>v'. unset_var scope n v = Inr v'"
  by (auto simp: writable_iff unset_var_def split: option.splits)

lemma unset_all_not_writable: "\<not> writable scope \<Longrightarrow> snd (unset_all scope ks v) = v"
proof (cases ks)
  case (Cons k ks')
  assume "\<not> writable scope"
  then obtain e where "unset_var scope k v = Inl e" using unset_var_Inl by blast
  with Cons show ?thesis by simp
qed simp

lemma unset_all_layers:
  "writable scope \<Longrightarrow> scope_of scope = Some sc \<Longrightarrow>
   layers_map (cv_layers (snd (unset_all scope ks v)))
   = (layers_map (cv_layers v))(sc := (\<lambda>n. if n \<in> set ks then None else layers_map (cv_layers v) sc n))"
proof (induction ks arbitrary: v)
  case (Cons k ks)
  obtain v' where v': "unset_var scope k v = Inr v'" using unset_var_Inr [OF Cons.prems(1)] by blast
  from Cons.IH [of v'] Cons.prems unset_var_layers [OF v'] v' show ?case
    by (auto simp: scope_put_def fun_eq_iff)
qed (simp add: fun_eq_iff)

lemma dom_foldl_update:
  "dom (map_of (foldl (\<lambda>m (k, x). AList.update k (va_value x) m) m xs)) = dom (map_of m) \<union> fst ` set xs"
proof (induction xs arbitrary: m)
  case (Cons kx xs)
  then show ?case by (cases kx) (auto simp: AList.update_conv')
qed simp

lemma to_object_dom:
  "scope_of scope = Some sc \<Longrightarrow> layers_map (cv_layers v) sc n \<noteq> None \<Longrightarrow> n \<in> set (map fst (to_object v scope))"
proof -
  assume sc: "scope_of scope = Some sc" and n: "layers_map (cv_layers v) sc n \<noteq> None"
  have "first_in ls sc n \<noteq> None \<Longrightarrow>
    n \<in> dom (map_of (foldr (\<lambda>l m. if ly_scope l = sc then foldl (\<lambda>m (k, x). AList.update k (va_value x) m) m (ly_vars l) else m) ls []))" for ls
  proof (induction ls)
    case (Cons l ls)
    show ?case
    proof (cases "ly_scope l = sc \<and> map_of (ly_vars l) n \<noteq> None")
      case True
      then have "n \<in> fst ` set (ly_vars l)" by (simp add: map_of_eq_None_iff)
      then show ?thesis using True by (simp add: dom_foldl_update del: domIff)
    next
      case False
      with Cons have "n \<in> dom (map_of (foldr (\<lambda>l m. if ly_scope l = sc then foldl (\<lambda>m (k, x). AList.update k (va_value x) m) m (ly_vars l) else m) ls []))"
        by (auto split: if_splits)
      then show ?thesis by (simp add: dom_foldl_update del: domIff)
    qed
  qed simp
  then have "n \<in> dom (map_of (to_object v scope))"
    using n by (simp add: to_object_def sc layers_map_def)
  then show ?thesis using map_of_eq_None_iff [of "to_object v scope" n] by (simp add: domIff)
qed

lemma vars_do_spec: "layers_map (cv_layers (vars_do a v)) = spec_do a (layers_map (cv_layers v))"
proof (cases a)
  case (SetVar scope n x)
  show ?thesis
  proof (cases "writable scope")
    case True
    then obtain v' sc where "set_var scope n x v = Inr v'" "scope_of scope = Some sc"
      using set_var_Inr writable_iff by metis
    with set_var_layers(1) True SetVar show ?thesis by simp
  next
    case False
    then show ?thesis using SetVar set_var_Inl [OF False, of n x v] by auto
  qed
next
  case (UnsetVar scope n)
  show ?thesis
  proof (cases "writable scope")
    case True
    then obtain v' sc where "unset_var scope n v = Inr v'" "scope_of scope = Some sc"
      using unset_var_Inr writable_iff by metis
    with unset_var_layers True UnsetVar show ?thesis by simp
  next
    case False
    then show ?thesis using UnsetVar unset_var_Inl [OF False, of n v] by auto
  qed
next
  case (ClearScope scope)
  show ?thesis
  proof (cases "writable scope")
    case True
    then obtain sc where sc: "scope_of scope = Some sc" using writable_iff by blast
    have "n \<notin> set (map fst (to_object v scope)) \<Longrightarrow> layers_map (cv_layers v) sc n = None" for n
      using to_object_dom [OF sc] by blast
    then show ?thesis using unset_all_layers [OF True sc] ClearScope True sc
      by (auto simp: clear_scope_def fun_eq_iff)
  next
    case False
    then show ?thesis using ClearScope by (simp add: clear_scope_def unset_all_not_writable)
  qed
qed

lemma lookup_filter_first_in:
  "lookup_var (filter (\<lambda>l. ly_scope l = s) ls) n = map_option (\<lambda>x. (x, s)) (first_in ls s n)"
  by (induction ls) (auto split: option.splits)

lemma layers_map_None_iff:
  "layers_map ls s n = None \<longleftrightarrow> (\<forall>l\<in>set ls. ly_scope l = s \<longrightarrow> map_of (ly_vars l) n = None)"
  unfolding layers_map_def by (induction ls) (auto split: option.splits)

text \<open>The value that wins across scopes is determined by the maps.\<close>

lemma vars_get_iff:
  "vars_get v n = Some x \<longleftrightarrow>
   (\<exists>s. layers_map (cv_layers v) s n = Some x \<and> (\<forall>s'<s. layers_map (cv_layers v) s' n = None))"
proof -
  have "vars_get v n = Some x \<longleftrightarrow> (\<exists>y s. lookup_var (new_stack (cv_layers v)) n = Some (y, s) \<and> va_value y = x)"
    by (auto simp: vars_get_def vars_stack_def)
  also have "\<dots> \<longleftrightarrow> (\<exists>y s. first_in (cv_layers v) s n = Some y \<and> va_value y = x
      \<and> (\<forall>l\<in>set (cv_layers v). ly_scope l < s \<longrightarrow> map_of (ly_vars l) n = None))"
    by (auto simp: lookup_new_stack lookup_filter_first_in)
  also have "\<dots> \<longleftrightarrow> (\<exists>s. layers_map (cv_layers v) s n = Some x \<and> (\<forall>s'<s. layers_map (cv_layers v) s' n = None))"
    unfolding layers_map_None_iff by (auto simp: layers_map_def)
  finally show ?thesis .
qed

lemma vars_get_cong:
  assumes "layers_map (cv_layers v) = layers_map (cv_layers w)"
  shows "vars_get v n = vars_get w n"
proof -
  have "vars_get v n = Some x \<longleftrightarrow> vars_get w n = Some x" for x
    by (simp add: vars_get_iff assms)
  then show ?thesis by (metis option.exhaust)
qed


definition demo_vars :: cvars where
  "demo_vars = new_vars
     [\<lparr>ly_scope = ScopeEnvironment, ly_name = ''e'', ly_vars = [(''t'', \<lparr>va_value = ''old'', va_secret = True\<rparr>)]\<rparr>,
      \<lparr>ly_scope = ScopeData, ly_name = ''d'', ly_vars = [(''row'', \<lparr>va_value = ''1'', va_secret = False\<rparr>)]\<rparr>]
     [] (Some new_registry) None"

definition demo_vars_ops :: "vars_op list" where
  "demo_vars_ops = [SetVar ''environment'' ''t'' ''fresh-token'', SetVar ''data'' ''row'' ''2'',
     SetVar ''globals'' ''u'' ''1'', UnsetVar ''globals'' ''u'', SetVar ''globals'' ''u'' ''2'']"


section \<open>The change log\<close>

definition replay_change :: "var_change \<Rightarrow> vars_op" where
  "replay_change c = (if vc_unset c then UnsetVar (vc_scope c) (vc_key c) else SetVar (vc_scope c) (vc_key c) (vc_value c))"

lemma spec_replay: "writable (vc_scope c) \<Longrightarrow> spec_do (replay_change c) m = apply_change c m"
  by (auto simp: replay_change_def apply_change_def writable_iff)

lemma fold_spec_replay:
  "\<forall>c\<in>set cs. writable (vc_scope c) \<Longrightarrow> fold spec_do (map replay_change cs) m = fold apply_change cs m"
  by (induction cs arbitrary: m) (simp_all add: spec_replay)

lemma run_vars_map: "layers_map (cv_layers (run_vars ops v)) = fold spec_do ops (layers_map (cv_layers v))"
  unfolding run_vars_def by (induction ops arbitrary: v) (simp_all add: vars_do_spec)

text \<open>What a log entry tells of a secret.\<close>

definition change_ok :: "registry option \<Rightarrow> var_change \<Rightarrow> bool" where
  "change_ok reg c \<longleftrightarrow>
     (vc_secret c \<longrightarrow> vc_display c = ''[secret]''
        \<and> (reg \<noteq> None \<and> min_secret_len \<le> length (vc_value c) \<longrightarrow> vc_value c \<in>
             (case reg of None \<Rightarrow> {} | Some r \<Rightarrow> set (rg_values r))))
     \<and> (\<not> vc_secret c \<longrightarrow> vc_display c = vc_value c)"

definition change_log_ok :: "cvars \<Rightarrow> bool" where
  "change_log_ok v \<longleftrightarrow> (\<forall>c\<in>set (cv_changes v). change_ok (cv_reg v) c)"

lemma change_ok_add: "change_ok reg c \<Longrightarrow> change_ok (fst (reg_add x reg)) c"
  by (auto simp: change_ok_def reg_add_def split: option.splits)

lemma change_log_ok_set: "set_var scope n x v = Inr v' \<Longrightarrow> change_log_ok v \<Longrightarrow> change_log_ok v'"
proof -
  assume s: "set_var scope n x v = Inr v'" and ok: "change_log_ok v"
  then obtain sc where sc: "scope_of scope = Some sc"
    by (auto simp: set_var_def split: option.splits)
  from set_var_layers(2) [OF s sc] obtain sec where ch: "cv_changes v' = cv_changes v @
       [\<lparr>vc_scope = scope, vc_key = n, vc_value = x, vc_display = (if sec then ''[secret]'' else x),
         vc_unset = False, vc_secret = sec\<rparr>]"
    and reg: "cv_reg v' = (if sec then fst (reg_add x (cv_reg v)) else cv_reg v)" by blast
  have "change_ok (cv_reg v') \<lparr>vc_scope = scope, vc_key = n, vc_value = x,
      vc_display = (if sec then ''[secret]'' else x), vc_unset = False, vc_secret = sec\<rparr>"
    by (auto simp: change_ok_def reg reg_add_def split: option.splits)
  then show ?thesis using ok by (auto simp: change_log_ok_def ch reg change_ok_add)
qed

lemma change_log_ok_unset: "unset_var scope n v = Inr v' \<Longrightarrow> change_log_ok v \<Longrightarrow> change_log_ok v'"
  by (auto simp: unset_var_def change_log_ok_def change_ok_def split: option.splits if_splits)

lemma change_log_ok_unset_all: "change_log_ok v \<Longrightarrow> change_log_ok (snd (unset_all scope ks v))"
  by (induction ks arbitrary: v) (auto split: sum.splits intro: change_log_ok_unset)

lemma change_log_ok_run: "change_log_ok v \<Longrightarrow> change_log_ok (run_vars ops v)"
proof -
  have "change_log_ok v \<Longrightarrow> change_log_ok (vars_do a v)" for a v
    by (cases a) (auto simp: clear_scope_def change_log_ok_unset_all split: sum.splits intro: change_log_ok_set change_log_ok_unset)
  then show "change_log_ok v \<Longrightarrow> change_log_ok (run_vars ops v)"
    unfolding run_vars_def by (induction ops arbitrary: v) auto
qed

text \<open>
  (C26) \<open>Changes\<close> is a complete and minimal account of a session: it has at most one entry per
  variable, only of writable scopes; replaying it on the variables the session started from gives
  every \<open>GetIn\<close> and every \<open>Get\<close> the session ended with; and a secret entry shows \<open>[secret]\<close> while its
  value is in the masking registry.
\<close>

theorem changes_replay:
  assumes "v0 = new_vars base local reg f"
    and "v = run_vars ops v0" and "w = run_vars (map replay_change (vars_changes v)) v0"
  shows "distinct (map (\<lambda>c. (vc_scope c, vc_key c)) (vars_changes v))
    \<and> (\<forall>c\<in>set (vars_changes v). writable (vc_scope c) \<and> change_ok (cv_reg v) c)
    \<and> get_in w scope n = get_in v scope n \<and> vars_get w n = vars_get v n"
proof -
  have ch0: "cv_changes v0 = []" by (simp add: assms(1) new_vars_def)
  obtain cs where cs: "cv_changes v = cs" "\<forall>c\<in>set cs. writable (vc_scope c)"
    "layers_map (cv_layers v) = fold apply_change cs (layers_map (cv_layers v0))"
    using accounts_run [of v0 ops] ch0 by (auto simp: accounts_def assms(2))
  have wr: "\<forall>c\<in>set (last_writes cs). writable (vc_scope c)" using cs(2) last_writes_subset by blast
  have same: "layers_map (cv_layers w) = layers_map (cv_layers v)"
    using fold_spec_replay [OF wr] fold_last_writes [OF cs(2)]
    by (simp add: assms(3) run_vars_map vars_changes_def cs(1,3))
  have "change_log_ok v" using change_log_ok_run [of v0 ops] by (simp add: assms(2) change_log_ok_def ch0)
  then have "\<forall>c\<in>set (last_writes cs). change_ok (cv_reg v) c"
    using last_writes_subset by (auto simp: change_log_ok_def cs(1))
  moreover have "get_in w scope n = get_in v scope n"
    unfolding get_in_def layers_map_def [symmetric] same ..
  ultimately show ?thesis
    using wr last_writes_distinct [OF cs(2)] vars_get_cong [OF same] by (auto simp: vars_changes_def cs(1))
qed

theorem changes_replay_witness:
  "get_in (run_vars (map replay_change (vars_changes (run_vars demo_vars_ops demo_vars))) demo_vars)
     ''environment'' ''t'' = Some ''fresh-token''
   \<and> length (vars_changes (run_vars demo_vars_ops demo_vars)) = 2"
proof -
  have "get_in (run_vars (map replay_change (vars_changes (run_vars demo_vars_ops demo_vars))) demo_vars)
     ''environment'' ''t'' = get_in (run_vars demo_vars_ops demo_vars) ''environment'' ''t''"
    using changes_replay [OF demo_vars_def refl refl, of demo_vars_ops "''environment''" "''t''"]
    by (simp add: demo_vars_def)
  also have "\<dots> = Some ''fresh-token''" by code_simp
  finally show ?thesis by (intro conjI) (assumption, code_simp)
qed

text \<open>
  The secret flag of a variable does not survive \<open>Unset\<close>: set again, it is shown in clear, although
  \<open>Set\<close> keeps the flag of a variable that is there.
\<close>

lemma secret_flag_lost_by_unset:
  "map vc_display (vars_changes (run_vars [SetVar ''environment'' ''t'' ''fresh-token''] demo_vars)) = [''[secret]'']"
  "map vc_display (vars_changes (run_vars [UnsetVar ''environment'' ''t'', SetVar ''environment'' ''t'' ''fresh-token''] demo_vars))
   = [''fresh-token'']"
  by code_simp+

end
