(* ===== verification/Overlay.thy ===== *)
theory Overlay
  imports CollVars
begin

text \<open>
  The copy-on-write variables of a collection run (\<open>internal/collrun/overlay.go\<close>): what the scripts of
  one step write is recorded and laid over the stored layers of the next, and is committed at the
  end or dropped. The nested maps of the code, one per scope, are one map from scope and key.
\<close>

definition overlay_scope :: "string \<Rightarrow> var_scope option" where
  "overlay_scope name =
     (if name = ''environment'' then Some ScopeEnvironment else if name = ''globals'' then Some ScopeGlobal
      else if name = ''collection'' then Some ScopeCollection else None)"

record overlay_val =
  ov_value :: string
  ov_display :: string
  ov_secret :: bool

record overlay =
  o_set :: "((string \<times> string) \<times> overlay_val) list"
  o_unset :: "(string \<times> string) list"
  o_order :: "string list"

definition new_overlay :: overlay where
  "new_overlay = \<lparr>o_set = [], o_unset = [], o_order = []\<rparr>"

definition touch :: "string \<Rightarrow> string \<Rightarrow> overlay \<Rightarrow> overlay" where
  "touch scope key ov =
     (if change_id scope key \<in> set (o_order ov) then ov
      else ov\<lparr>o_order := o_order ov @ [change_id scope key]\<rparr>)"

definition record_one :: "var_change \<Rightarrow> overlay \<Rightarrow> overlay" where
  "record_one c ov =
     (if overlay_scope (vc_scope c) = None then ov
      else
        (let ov1 = touch (vc_scope c) (vc_key c) ov; k = (vc_scope c, vc_key c) in
         if vc_unset c then ov1\<lparr>o_set := AList.delete k (o_set ov1), o_unset := List.insert k (o_unset ov1)\<rparr>
         else ov1\<lparr>o_set := AList.update k
                    \<lparr>ov_value = vc_value c, ov_display = vc_display c, ov_secret = vc_secret c\<rparr> (o_set ov1),
                  o_unset := removeAll k (o_unset ov1)\<rparr>))"

definition overlay_record :: "var_change list \<Rightarrow> overlay \<Rightarrow> overlay" where
  "overlay_record cs ov = fold record_one cs ov"

definition overlay_empty :: "overlay \<Rightarrow> bool" where
  "overlay_empty ov \<longleftrightarrow> o_order ov = []"

text \<open>\<open>splitID\<close>: at the first zero byte.\<close>

definition split_id :: "string \<Rightarrow> string \<times> string" where
  "split_id i = (case cut_byte (CHR 0x00) i of None \<Rightarrow> (i, []) | Some sk \<Rightarrow> sk)"

definition pending_one :: "overlay \<Rightarrow> string \<Rightarrow> var_change list" where
  "pending_one ov i =
     (let (scope, key) = split_id i in
      case map_of (o_set ov) (scope, key) of
        Some x \<Rightarrow> [\<lparr>vc_scope = scope, vc_key = key, vc_value = ov_value x, vc_display = ov_display x,
                   vc_unset = False, vc_secret = ov_secret x\<rparr>]
      | None \<Rightarrow>
          if (scope, key) \<in> set (o_unset ov)
          then [\<lparr>vc_scope = scope, vc_key = key, vc_value = [], vc_display = [], vc_unset = True, vc_secret = False\<rparr>]
          else [])"

definition overlay_pending :: "overlay \<Rightarrow> var_change list" where
  "overlay_pending ov = concat (map (pending_one ov) (o_order ov))"

fun set_in_layers :: "var_scope \<Rightarrow> string \<Rightarrow> overlay_val \<Rightarrow> layer list \<Rightarrow> layer list" where
  "set_in_layers sc key x [] =
     [\<lparr>ly_scope = sc, ly_name = scope_name sc, ly_vars = [(key, \<lparr>va_value = ov_value x, va_secret = ov_secret x\<rparr>)]\<rparr>]"
| "set_in_layers sc key x (l # ls) =
     (if ly_scope l = sc then
        put_var key \<lparr>va_value = ov_value x,
          va_secret = ((case map_of (ly_vars l) key of None \<Rightarrow> False | Some cur \<Rightarrow> va_secret cur) \<or> ov_secret x)\<rparr> l # ls
      else l # set_in_layers sc key x ls)"

text \<open>One scope of \<open>Apply\<close>: the deletions, then the values.\<close>

definition apply_scope :: "overlay \<Rightarrow> string \<Rightarrow> layer list \<Rightarrow> layer list" where
  "apply_scope ov name ls =
     (case overlay_scope name of None \<Rightarrow> ls
      | Some sc \<Rightarrow>
          (let ls1 = fold (\<lambda>(n, k) ls. if n = name then map (\<lambda>l. if ly_scope l = sc then drop_var k l else l) ls else ls)
                (o_unset ov) ls
           in fold (\<lambda>((n, k), x) ls. if n = name then set_in_layers sc k x ls else ls) (o_set ov) ls1))"

definition overlay_apply :: "overlay \<Rightarrow> layer list \<Rightarrow> layer list" where
  "overlay_apply ov ls = fold (apply_scope ov) [''collection'', ''environment'', ''globals''] ls"

definition data_layer :: "(string \<times> string) list \<Rightarrow> layer" where
  "data_layer row =
     \<lparr>ly_scope = ScopeData, ly_name = ''data'', ly_vars = map (\<lambda>(k, v). (k, \<lparr>va_value = v, va_secret = False\<rparr>)) row\<rparr>"

section \<open>Invariant\<close>

text \<open>
  Every key that is set or unset is in the order, once, and never both; only the three scopes
  occur.
\<close>

definition overlay_inv :: "overlay \<Rightarrow> bool" where
  "overlay_inv ov \<longleftrightarrow>
     distinct (map fst (o_set ov)) \<and> distinct (o_unset ov) \<and> distinct (o_order ov)
     \<and> fst ` set (o_set ov) \<inter> set (o_unset ov) = {}
     \<and> set (o_order ov) = (\<lambda>(s, k). change_id s k) ` (fst ` set (o_set ov) \<union> set (o_unset ov))
     \<and> (\<forall>(s, k)\<in>fst ` set (o_set ov) \<union> set (o_unset ov). overlay_scope s \<noteq> None)"

lemma overlay_scope_cases: "overlay_scope s \<noteq> None \<longleftrightarrow> s \<in> {''collection'', ''environment'', ''globals''}"
  by (auto simp: overlay_scope_def)

lemma overlay_scope_of: "overlay_scope s = Some sc \<Longrightarrow> scope_of s = Some sc"
  by (auto simp: overlay_scope_def scope_of_def split: if_splits)

lemma overlay_scope_inject: "overlay_scope s = Some sc \<Longrightarrow> overlay_scope s' = Some sc \<Longrightarrow> s = s'"
  by (auto simp: overlay_scope_def split: if_splits)

lemma change_id_split: "overlay_scope s \<noteq> None \<Longrightarrow> split_id (change_id s k) = (s, k)"
  unfolding overlay_scope_cases by (auto simp: split_id_def change_id_def cut_byte_def)

lemma change_id_inject:
  "overlay_scope s \<noteq> None \<Longrightarrow> overlay_scope s' \<noteq> None \<Longrightarrow> change_id s k = change_id s' k' \<longleftrightarrow> s = s' \<and> k = k'"
  by (metis change_id_split prod.inject)

lemma overlay_inv_new: "overlay_inv new_overlay"
  by (simp add: overlay_inv_def new_overlay_def)

lemma dom_update_fst: "fst ` set (AList.update k x al) = insert k (fst ` set al)"
  by (metis AList.dom_update dom_map_of_conv_image_fst fun_upd_apply AList.update_conv' dom_fun_upd option.distinct(1))

lemma dom_delete_fst: "fst ` set (AList.delete k al) = fst ` set al - {k}"
  by (induction al) auto

lemma touch_order:
  "set (o_order (touch s k ov)) = insert (change_id s k) (set (o_order ov))"
  "distinct (o_order ov) \<Longrightarrow> distinct (o_order (touch s k ov))"
  "o_set (touch s k ov) = o_set ov" "o_unset (touch s k ov) = o_unset ov"
  by (auto simp: touch_def)

lemma overlay_inv_record: "overlay_inv ov \<Longrightarrow> overlay_inv (record_one c ov)"
proof (cases "overlay_scope (vc_scope c) = None")
  case False
  assume inv: "overlay_inv ov"
  define k where "k = (vc_scope c, vc_key c)"
  define ks where "ks = fst ` set (o_set ov) \<union> set (o_unset ov)"
  have ord: "set (o_order (touch (vc_scope c) (vc_key c) ov)) = (\<lambda>(s, k). change_id s k) ` insert k ks"
    using inv by (auto simp: touch_order overlay_inv_def ks_def k_def)
  have ids: "\<forall>(s, n)\<in>insert k ks. overlay_scope s \<noteq> None"
    using inv False by (auto simp: overlay_inv_def ks_def k_def)
  define ov' where "ov' = record_one c ov"
  have rec: "ov' = (let ov1 = touch (vc_scope c) (vc_key c) ov in
         if vc_unset c then ov1\<lparr>o_set := AList.delete k (o_set ov1), o_unset := List.insert k (o_unset ov1)\<rparr>
         else ov1\<lparr>o_set := AList.update k
                    \<lparr>ov_value = vc_value c, ov_display = vc_display c, ov_secret = vc_secret c\<rparr> (o_set ov1),
                  o_unset := removeAll k (o_unset ov1)\<rparr>)"
    unfolding ov'_def record_one_def Let_def k_def using False by (cases "overlay_scope (vc_scope c)") simp_all
  have un: "fst ` set (o_set ov') \<union> set (o_unset ov') = insert k ks"
    by (auto simp: rec Let_def touch_order ks_def dom_delete_fst dom_update_fst)
  have "set (o_order ov') = (\<lambda>(s, k). change_id s k) ` insert k ks" "distinct (o_order ov')"
    using ord inv by (simp_all add: rec Let_def touch_order overlay_inv_def)
  moreover have "distinct (map fst (o_set ov'))" "distinct (o_unset ov')"
      "fst ` set (o_set ov') \<inter> set (o_unset ov') = {}"
    using inv by (auto simp: rec Let_def touch_order overlay_inv_def AList.distinct_delete AList.distinct_update
        distinct_removeAll dom_delete_fst dom_update_fst)
  ultimately show ?thesis using ids unfolding overlay_inv_def ov'_def [symmetric] un by simp
qed (simp add: record_one_def)

lemma overlay_inv_run: "overlay_inv ov \<Longrightarrow> overlay_inv (overlay_record cs ov)"
  unfolding overlay_record_def by (induction cs arbitrary: ov) (auto intro: overlay_inv_record)

section \<open>Effect\<close>

text \<open>The overlay as a function on the abstract view of the layers.\<close>

definition overlay_map :: "overlay \<Rightarrow> scope_map \<Rightarrow> scope_map" where
  "overlay_map ov m sc n =
     (case List.find (\<lambda>s. overlay_scope s = Some sc) [''collection'', ''environment'', ''globals''] of
        None \<Rightarrow> m sc n
      | Some s \<Rightarrow>
          (case map_of (o_set ov) (s, n) of
             Some x \<Rightarrow> Some (ov_value x)
           | None \<Rightarrow> if (s, n) \<in> set (o_unset ov) then None else m sc n))"

lemma overlay_map_None: "(\<And>s. overlay_scope s \<noteq> Some sc) \<Longrightarrow> overlay_map ov m sc n = m sc n"
  by (simp add: overlay_map_def)

lemma overlay_map_Some:
  "overlay_scope s = Some sc \<Longrightarrow>
   overlay_map ov m sc n =
     (case map_of (o_set ov) (s, n) of
        Some x \<Rightarrow> Some (ov_value x)
      | None \<Rightarrow> if (s, n) \<in> set (o_unset ov) then None else m sc n)"
  by (auto simp: overlay_map_def overlay_scope_def split: if_splits)

definition persistent :: "var_change \<Rightarrow> bool" where
  "persistent c \<longleftrightarrow> overlay_scope (vc_scope c) \<noteq> None"

lemma map_of_update: "map_of (AList.update k x al) = (map_of al)(k \<mapsto> x)"
  by (simp add: AList.update_conv')

lemma map_of_delete: "map_of (AList.delete k al) = (map_of al)(k := None)"
  by (simp add: AList.delete_conv')

lemma overlay_map_record:
  "overlay_map (record_one c ov) m = (if persistent c then apply_change c (overlay_map ov m) else overlay_map ov m)"
proof (cases "overlay_scope (vc_scope c)")
  case None
  then show ?thesis by (simp add: record_one_def persistent_def)
next
  case (Some sc)
  have "overlay_map (record_one c ov) m sc' n = apply_change c (overlay_map ov m) sc' n" for sc' n
  proof (cases "\<exists>s. overlay_scope s = Some sc'")
    case False
    then have "sc' \<noteq> sc" using Some by auto
    then show ?thesis using False overlay_scope_of [OF Some]
      by (simp add: overlay_map_None apply_change_def scope_put_def)
  next
    case True
    then obtain s where s: "overlay_scope s = Some sc'" by blast
    show ?thesis
    proof (cases "vc_scope c = s")
      case True
      with s Some overlay_scope_of [OF Some] show ?thesis
        by (auto simp: overlay_map_Some [OF Some] apply_change_def scope_put_def record_one_def Let_def touch_order
            map_of_update map_of_delete split: option.split)
    next
      case False
      then have "sc' \<noteq> sc" using s Some overlay_scope_inject by auto
      with False s Some overlay_scope_of [OF Some] show ?thesis
        by (auto simp: overlay_map_Some [OF s] apply_change_def scope_put_def record_one_def Let_def touch_order
            map_of_update map_of_delete split: option.split)
    qed
  qed
  then show ?thesis using Some by (simp add: persistent_def fun_eq_iff)
qed

lemma overlay_map_run:
  "overlay_map (overlay_record cs ov) m = fold apply_change (filter persistent cs) (overlay_map ov m)"
  unfolding overlay_record_def by (induction cs arbitrary: ov) (simp_all add: overlay_map_record)

lemma overlay_map_new: "overlay_map new_overlay m = m"
  by (intro ext) (simp add: overlay_map_def new_overlay_def split: option.split)

section \<open>Applying and committing\<close>

lemma layers_map_drop:
  "layers_map (map (\<lambda>l. if ly_scope l = sc then drop_var k l else l) ls) = scope_put sc k None (layers_map ls)"
  by (intro ext) (simp add: layers_map_def first_in_drop scope_put_def)

lemma layers_map_set_in: "layers_map (set_in_layers sc k x ls) = scope_put sc k (Some (ov_value x)) (layers_map ls)"
proof (induction ls)
  case Nil
  show ?case by (intro ext) (simp add: layers_map_def scope_put_def)
next
  case (Cons l ls)
  show ?case
  proof (cases "ly_scope l = sc")
    case True
    then show ?thesis
      by (intro ext) (auto simp: layers_map_def scope_put_def put_var_def map_of_update split: option.split)
  next
    case False
    have "layers_map (set_in_layers sc k x ls) sc' n = scope_put sc k (Some (ov_value x)) (layers_map ls) sc' n" for sc' n
      using Cons by simp
    with False show ?thesis
      by (intro ext) (auto simp: layers_map_def scope_put_def split: option.split)
  qed
qed

lemma layers_map_unset_fold:
  "layers_map (fold (\<lambda>(n, k) ls. if n = name then map (\<lambda>l. if ly_scope l = sc then drop_var k l else l) ls else ls) us ls)
   = (layers_map ls)(sc := (\<lambda>n. if (name, n) \<in> set us then None else layers_map ls sc n))"
proof (induction us arbitrary: ls)
  case (Cons u us)
  show ?case by (cases u) (auto simp: Cons.IH layers_map_drop scope_put_def fun_eq_iff)
qed (simp add: fun_eq_iff)

lemma layers_map_set_fold:
  "distinct (map fst xs) \<Longrightarrow>
   layers_map (fold (\<lambda>((n, k), x) ls. if n = name then set_in_layers sc k x ls else ls) xs ls)
   = (layers_map ls)(sc := (\<lambda>n. case map_of xs (name, n) of Some x \<Rightarrow> Some (ov_value x) | None \<Rightarrow> layers_map ls sc n))"
proof (induction xs arbitrary: ls)
  case (Cons y xs)
  obtain s k x where y: "y = ((s, k), x)" by (metis surj_pair)
  have no: "map_of xs (s, k) = None" using Cons.prems y by (auto simp: map_of_eq_None_iff)
  have IH: "layers_map (fold (\<lambda>((n, k), x) ls. if n = name then set_in_layers sc k x ls else ls) xs ls')
   = (layers_map ls')(sc := (\<lambda>n. case map_of xs (name, n) of Some x \<Rightarrow> Some (ov_value x) | None \<Rightarrow> layers_map ls' sc n))" for ls'
    by (rule Cons.IH) (use Cons.prems in simp)
  show ?case
    using no by (auto simp: y IH layers_map_set_in scope_put_def fun_eq_iff split: option.split)
qed (simp add: fun_eq_iff)

lemma apply_scope_map:
  assumes "overlay_inv ov" "overlay_scope s = Some sc"
  shows "layers_map (apply_scope ov s ls) = (layers_map ls)(sc := overlay_map ov (layers_map ls) sc)"
proof -
  have d: "distinct (map fst (o_set ov))" using assms(1) by (simp add: overlay_inv_def)
  show ?thesis
    by (auto simp: apply_scope_def assms(2) Let_def layers_map_set_fold [OF d] layers_map_unset_fold fun_eq_iff
        overlay_map_Some [OF assms(2)] split: option.split)
qed

lemma overlay_map_local:
  "m sc n = m' sc n \<Longrightarrow> overlay_map ov m sc n = overlay_map ov m' sc n"
  by (auto simp: overlay_map_def split: option.split)

lemma overlay_apply_map:
  assumes "overlay_inv ov"
  shows "layers_map (overlay_apply ov ls) = overlay_map ov (layers_map ls)"
proof -
  have sc: "overlay_scope ''collection'' = Some ScopeCollection" "overlay_scope ''environment'' = Some ScopeEnvironment"
    "overlay_scope ''globals'' = Some ScopeGlobal" by (simp_all add: overlay_scope_def)
  have other: "overlay_map ov m s = m s" if "s \<notin> {ScopeCollection, ScopeEnvironment, ScopeGlobal}" for m s
  proof
    fix n
    have "overlay_scope t \<noteq> Some s" for t using that by (auto simp: overlay_scope_def)
    then show "overlay_map ov m s n = m s n" by (rule overlay_map_None)
  qed
  have upd: "overlay_map ov (f(a := g)) b = overlay_map ov f b" if "a \<noteq> b" for f :: scope_map and a b g
    using that by (intro ext overlay_map_local) simp
  show ?thesis
    unfolding overlay_apply_def
    by (intro ext, rename_tac s n, case_tac s)
      (simp_all add: apply_scope_map [OF assms sc(1)] apply_scope_map [OF assms sc(2)] apply_scope_map [OF assms sc(3)]
        upd other)
qed

lemma pending_one_id:
  "overlay_scope s \<noteq> None \<Longrightarrow>
   pending_one ov (change_id s k) =
     (case map_of (o_set ov) (s, k) of
        Some x \<Rightarrow> [\<lparr>vc_scope = s, vc_key = k, vc_value = ov_value x, vc_display = ov_display x,
                   vc_unset = False, vc_secret = ov_secret x\<rparr>]
      | None \<Rightarrow>
          if (s, k) \<in> set (o_unset ov)
          then [\<lparr>vc_scope = s, vc_key = k, vc_value = [], vc_display = [], vc_unset = True, vc_secret = False\<rparr>]
          else [])"
  by (simp add: pending_one_def change_id_split)

text \<open>What committing a list of ids writes: each id sets its own variable.\<close>

lemma fold_pending:
  assumes "\<forall>i\<in>set ids. \<exists>s k. i = change_id s k \<and> overlay_scope s \<noteq> None"
    and "overlay_scope s = Some sc"
  shows "fold apply_change (concat (map (pending_one ov) ids)) m sc n =
     (if change_id s n \<in> set ids then overlay_map ov m sc n else m sc n)"
  using assms(1)
proof (induction ids arbitrary: m)
  case (Cons i ids)
  obtain t k where i: "i = change_id t k" "overlay_scope t \<noteq> None" using Cons.prems by auto
  define m1 where "m1 = fold apply_change (pending_one ov i) m"
  have "fold apply_change (concat (map (pending_one ov) ids)) m1 sc n
      = (if change_id s n \<in> set ids then overlay_map ov m1 sc n else m1 sc n)"
    by (rule Cons.IH) (use Cons.prems in simp)
  moreover have "(s, n) = (t, k) \<Longrightarrow> m1 sc n = overlay_map ov m sc n \<and> overlay_map ov m1 sc n = overlay_map ov m sc n"
  proof -
    assume "(s, n) = (t, k)"
    then have st: "t = s" "k = n" by auto
    have p: "pending_one ov i = (case map_of (o_set ov) (s, n) of
        Some x \<Rightarrow> [\<lparr>vc_scope = s, vc_key = n, vc_value = ov_value x, vc_display = ov_display x,
                   vc_unset = False, vc_secret = ov_secret x\<rparr>]
      | None \<Rightarrow>
          if (s, n) \<in> set (o_unset ov)
          then [\<lparr>vc_scope = s, vc_key = n, vc_value = [], vc_display = [], vc_unset = True, vc_secret = False\<rparr>]
          else [])" using i st by (simp add: pending_one_id)
    have "m1 sc n = overlay_map ov m sc n"
      unfolding m1_def p overlay_map_Some [OF assms(2)]
      by (auto simp: apply_change_def scope_put_def overlay_scope_of [OF assms(2)] split: option.split)
    then show ?thesis by (auto simp: overlay_map_Some [OF assms(2)] split: option.split)
  qed
  moreover have "(s, n) \<noteq> (t, k) \<Longrightarrow> m1 sc n = m sc n"
  proof -
    assume ne: "(s, n) \<noteq> (t, k)"
    obtain tc where tc: "overlay_scope t = Some tc" using i(2) by auto
    have sk: "s \<noteq> t \<Longrightarrow> sc \<noteq> tc" using overlay_scope_inject [OF assms(2)] tc by auto
    show "m1 sc n = m sc n" using ne sk i
      by (auto simp: m1_def pending_one_id apply_change_def scope_put_def overlay_scope_of [OF tc] split: option.split)
  qed
  moreover have "change_id s n = i \<longleftrightarrow> (s, n) = (t, k)"
    using change_id_inject [of s t n k] assms(2) i by auto
  ultimately show ?case using overlay_map_local [of m1 sc n m ov]
    by (auto simp: m1_def [symmetric] fold_append)
qed simp

lemma fold_apply_elsewhere:
  "\<forall>c\<in>set cs. scope_of (vc_scope c) \<noteq> Some sc \<Longrightarrow> fold apply_change cs m sc n = m sc n"
proof (induction cs arbitrary: m)
  case (Cons c cs)
  then show ?case by (simp add: apply_change_other)
qed simp

lemma pending_map:
  assumes inv: "overlay_inv ov"
  shows "fold apply_change (overlay_pending ov) m = overlay_map ov m"
proof (intro ext)
  fix sc n
  have ids: "\<forall>i\<in>set (o_order ov). \<exists>s k. i = change_id s k \<and> overlay_scope s \<noteq> None"
  proof
    fix i assume "i \<in> set (o_order ov)"
    then obtain p where p: "p \<in> fst ` set (o_set ov) \<union> set (o_unset ov)" "i = (case p of (s, k) \<Rightarrow> change_id s k)"
      using inv unfolding overlay_inv_def by blast
    obtain s k where sk: "p = (s, k)" by force
    have "overlay_scope s \<noteq> None" using inv p(1) unfolding overlay_inv_def sk by blast
    then show "\<exists>s k. i = change_id s k \<and> overlay_scope s \<noteq> None" using p(2) sk by auto
  qed
  show "fold apply_change (overlay_pending ov) m sc n = overlay_map ov m sc n"
  proof (cases "\<exists>s. overlay_scope s = Some sc")
    case True
    then obtain s where s: "overlay_scope s = Some sc" by blast
    have "change_id s n \<notin> set (o_order ov) \<Longrightarrow> overlay_map ov m sc n = m sc n"
    proof -
      assume no: "change_id s n \<notin> set (o_order ov)"
      then have "(s, n) \<notin> fst ` set (o_set ov) \<union> set (o_unset ov)"
        using inv unfolding overlay_inv_def by (metis (mono_tags, lifting) case_prod_conv imageI)
      then have "map_of (o_set ov) (s, n) = None" "(s, n) \<notin> set (o_unset ov)"
        by (auto simp: map_of_eq_None_iff)
      then show ?thesis by (simp add: overlay_map_Some [OF s])
    qed
    then show ?thesis unfolding overlay_pending_def fold_pending [OF ids s] by auto
  next
    case False
    have "\<forall>c\<in>set (overlay_pending ov). overlay_scope (vc_scope c) \<noteq> None"
      using ids by (auto simp: overlay_pending_def pending_one_id split: option.splits if_splits)
    then have "\<forall>c\<in>set (overlay_pending ov). scope_of (vc_scope c) \<noteq> Some sc"
      using False overlay_scope_of by (metis not_None_eq option.inject)
    then have "fold apply_change (overlay_pending ov) m sc n = m sc n"
      by (rule fold_apply_elsewhere)
    then show ?thesis using False by (simp add: overlay_map_None)
  qed
qed

lemma order_entry:
  assumes "overlay_inv ov" "i \<in> set (o_order ov)"
  shows "\<exists>c. pending_one ov i = [c] \<and> change_id (vc_scope c) (vc_key c) = i \<and> persistent c"
proof -
  obtain p where p: "p \<in> fst ` set (o_set ov) \<union> set (o_unset ov)" "i = (case p of (s, k) \<Rightarrow> change_id s k)"
    using assms unfolding overlay_inv_def by blast
  obtain s k where sk: "p = (s, k)" by force
  have sc: "overlay_scope s \<noteq> None" using assms(1) p(1) unfolding overlay_inv_def sk by blast
  have "map_of (o_set ov) (s, k) \<noteq> None \<or> (s, k) \<in> set (o_unset ov)"
    using p(1) sk by (auto simp: map_of_eq_None_iff)
  then show ?thesis using p(2) sk pending_one_id [OF sc, of ov k] sc
    by (auto simp: persistent_def split: option.splits)
qed

lemma pending_ids:
  assumes "overlay_inv ov"
  shows "map (\<lambda>c. change_id (vc_scope c) (vc_key c)) (overlay_pending ov) = o_order ov
    \<and> (\<forall>c\<in>set (overlay_pending ov). persistent c)"
proof -
  have "set ids \<subseteq> set (o_order ov) \<Longrightarrow>
      map (\<lambda>c. change_id (vc_scope c) (vc_key c)) (concat (map (pending_one ov) ids)) = ids
      \<and> (\<forall>c\<in>set (concat (map (pending_one ov) ids)). persistent c)" for ids
  proof (induction ids)
    case (Cons i ids)
    obtain c where "pending_one ov i = [c]" "change_id (vc_scope c) (vc_key c) = i" "persistent c"
      using order_entry [OF assms, of i] Cons.prems by auto
    with Cons show ?case by simp
  qed simp
  from this [of "o_order ov"] show ?thesis by (simp add: overlay_pending_def)
qed

lemma order_record: "set (o_order (record_one c ov)) =
    (if persistent c then insert (change_id (vc_scope c) (vc_key c)) (set (o_order ov)) else set (o_order ov))"
  by (cases "overlay_scope (vc_scope c)")
    (simp_all add: record_one_def persistent_def Let_def touch_order)

lemma order_run:
  "set (o_order (overlay_record cs ov)) =
   set (o_order ov) \<union> (\<lambda>c. change_id (vc_scope c) (vc_key c)) ` set (filter persistent cs)"
  unfolding overlay_record_def by (induction cs arbitrary: ov) (auto simp: order_record)

lemma record_concat: "fold overlay_record css ov = overlay_record (concat css) ov"
  by (induction css arbitrary: ov) (simp_all add: overlay_record_def)

text \<open>
  (C24) The overlay of a run is the run's writes, in order: after the changes of any steps were recorded,
  the layers it gives the next step hold what applying every environment, globals and collection
  change one after the other to the stored layers gives; committing its pending changes leaves the same
  in the store; they list each variable once, in the order it was first written; and the overlay is
  empty exactly if nothing of these scopes was written.
\<close>

theorem overlay_is_sequential_writes:
  assumes "ov = fold overlay_record css new_overlay"
  shows "layers_map (overlay_apply ov base) = fold apply_change (filter persistent (concat css)) (layers_map base)
    \<and> fold apply_change (overlay_pending ov) m = fold apply_change (filter persistent (concat css)) m
    \<and> distinct (map (\<lambda>c. (vc_scope c, vc_key c)) (overlay_pending ov))
    \<and> (\<lambda>c. (vc_scope c, vc_key c)) ` set (overlay_pending ov)
        = (\<lambda>c. (vc_scope c, vc_key c)) ` set (filter persistent (concat css))
    \<and> (overlay_empty ov \<longleftrightarrow> filter persistent (concat css) = [])"
proof -
  have ov: "ov = overlay_record (concat css) new_overlay" by (simp add: assms record_concat)
  have inv: "overlay_inv ov" unfolding ov by (rule overlay_inv_run [OF overlay_inv_new])
  have eff: "overlay_map ov m' = fold apply_change (filter persistent (concat css)) m'" for m'
    by (simp add: ov overlay_map_run overlay_map_new)
  define ident where "ident = (\<lambda>c :: var_change. change_id (vc_scope c) (vc_key c))"
  define pair where "pair = (\<lambda>c :: var_change. (vc_scope c, vc_key c))"
  have ids: "map ident (overlay_pending ov) = o_order ov" "\<forall>c\<in>set (overlay_pending ov). persistent c"
    using pending_ids [OF inv] by (simp_all add: ident_def)
  have ident: "ident = (\<lambda>(s, k). change_id s k) \<circ> pair" by (simp add: ident_def pair_def fun_eq_iff)
  have "distinct (map ident (overlay_pending ov))" using ids(1) inv by (simp add: overlay_inv_def)
  then have dist: "distinct (map pair (overlay_pending ov))"
    unfolding ident by (metis distinct_map list.map_comp)
  have ord: "set (o_order ov) = ident ` set (filter persistent (concat css))"
    using order_run [of "concat css" new_overlay] by (simp add: ov new_overlay_def ident_def)
  then have "(\<lambda>(s, k). change_id s k) ` pair ` set (overlay_pending ov)
      = (\<lambda>(s, k). change_id s k) ` pair ` set (filter persistent (concat css))"
    using ids(1) by (metis ident image_comp list.set_map)
  moreover have "inj_on (\<lambda>(s, k). change_id s k) {(s, k). overlay_scope s \<noteq> None}"
    by (auto simp: inj_on_def change_id_inject)
  moreover have "pair ` set (overlay_pending ov) \<subseteq> {(s, k). overlay_scope s \<noteq> None}"
    "pair ` set (filter persistent (concat css)) \<subseteq> {(s, k). overlay_scope s \<noteq> None}"
    using ids(2) by (auto simp: pair_def persistent_def)
  ultimately have "pair ` set (overlay_pending ov) = pair ` set (filter persistent (concat css))"
    by (metis inj_on_image_eq_iff)
  moreover have "overlay_empty ov \<longleftrightarrow> filter persistent (concat css) = []"
    using ord by (metis image_is_empty overlay_empty_def set_empty)
  ultimately show ?thesis
    using overlay_apply_map [OF inv, of base] pending_map [OF inv, of m] eff dist by (simp add: pair_def)
qed

definition demo_change :: "string \<Rightarrow> string \<Rightarrow> string option \<Rightarrow> var_change" where
  "demo_change s k x = \<lparr>vc_scope = s, vc_key = k, vc_value = (case x of None \<Rightarrow> [] | Some v \<Rightarrow> v),
     vc_display = (case x of None \<Rightarrow> [] | Some v \<Rightarrow> v), vc_unset = (x = None), vc_secret = False\<rparr>"

theorem overlay_is_sequential_writes_witness:
  "layers_map (overlay_apply (fold overlay_record
      [[demo_change ''environment'' ''t'' (Some ''1''), demo_change ''local'' ''t'' (Some ''0'')],
       [demo_change ''globals'' ''g'' None], [demo_change ''environment'' ''t'' (Some ''2'')]] new_overlay)
      (cv_layers demo_vars)) ScopeEnvironment ''t'' = Some ''2''"
  by (subst conjunct1 [OF overlay_is_sequential_writes [OF refl]])
    (simp add: demo_change_def persistent_def overlay_scope_def apply_change_def scope_of_def scope_put_def)

end
