(* ===== verification/CookieJar.thy ===== *)
theory CookieJar
  imports GoNet "HOL-Library.AList" "HOL-Library.Word" "HOL-Library.Multiset"
begin

text \<open>
  The cookie jar of a collection (\<open>internal/collexec/jar.go\<close>). A URL is what the code reads from it: host
  name, scheme and escaped path. Times are integers in nanoseconds and \<open>None\<close> is the zero time; a duration
  wraps at 64 bits as \<open>time.Duration\<close> does. The map of the jar is an association list with distinct
  keys.
\<close>

record jar_url =
  ju_host :: string
  ju_scheme :: string
  ju_path :: string

text \<open>What the jar uses of \<open>http.Cookie\<close>.\<close>

record set_cookie =
  sc_name :: string
  sc_value :: string
  sc_domain :: string
  sc_path :: string
  sc_secure :: bool
  sc_http_only :: bool
  sc_max_age :: int
  sc_expires :: "int option"

record jar_cookie =
  jc_name :: string
  jc_value :: string
  jc_domain :: string
  jc_path :: string
  jc_host_only :: bool
  jc_secure :: bool
  jc_http_only :: bool
  jc_expires :: "int option"
  jc_created :: nat

record jar =
  j_cookies :: "(string \<times> jar_cookie) list"
  j_seq :: nat

definition max_jar_cookies :: nat where "max_jar_cookies = 3000"

definition new_jar :: jar where "new_jar = \<lparr>j_cookies = [], j_seq = 0\<rparr>"

definition jar_key :: "jar_cookie \<Rightarrow> string" where
  "jar_key c = jc_domain c @ CHR 0x00 # jc_path c @ CHR 0x00 # jc_name c"

definition default_path :: "jar_url \<Rightarrow> string" where
  "default_path u =
     (let p = ju_path u in
      if p = [] \<or> hd p \<noteq> CHR ''/'' then ''/''
      else (case last_byte_index (CHR ''/'') p of
              None \<Rightarrow> ''/'' | Some i \<Rightarrow> if i = 0 then ''/'' else take i p))"

definition is_ip :: "string \<Rightarrow> bool" where
  "is_ip h \<longleftrightarrow> parse_ip h \<noteq> None"

text \<open>The cookie's domain: host-only or the named domain, or \<open>None\<close> when it does not cover the sender.\<close>

definition cookie_domain :: "string \<Rightarrow> set_cookie \<Rightarrow> (string \<times> bool) option" where
  "cookie_domain host c =
     (let d = to_lower (trim_prefix (sc_domain c) ''.'') in
      if d = [] \<or> is_ip host \<and> d \<noteq> host then Some (host, True)
      else if host = d \<or> has_suffix host (CHR ''.'' # d) then Some (d, False)
      else None)"

definition cookie_path :: "jar_url \<Rightarrow> set_cookie \<Rightarrow> string" where
  "cookie_path u c = (if sc_path c = [] \<or> hd (sc_path c) \<noteq> CHR ''/'' then default_path u else sc_path c)"

text \<open>\<open>time.Duration(n) * time.Second\<close>\<close>

definition seconds :: "int \<Rightarrow> int" where
  "seconds n = sint (word_of_int n * 1000000000 :: 64 word)"

datatype lifetime = Deleted | Lives "int option"

definition cookie_life :: "int \<Rightarrow> set_cookie \<Rightarrow> lifetime" where
  "cookie_life now c =
     (if sc_max_age c < 0 then Deleted
      else if sc_max_age c > 0 then Lives (Some (now + seconds (sc_max_age c)))
      else (case sc_expires c of
              None \<Rightarrow> Lives None
            | Some e \<Rightarrow> if e > now then Lives (Some e) else Deleted))"

text \<open>One cookie of \<open>Store\<close>.\<close>

definition store_one :: "jar_url \<Rightarrow> int \<Rightarrow> set_cookie \<Rightarrow> jar \<Rightarrow> jar" where
  "store_one u now c j =
     (if sc_name c = [] then j
      else (case cookie_domain (to_lower (ju_host u)) c of
        None \<Rightarrow> j
      | Some (d, ho) \<Rightarrow>
          (let jc = \<lparr>jc_name = sc_name c, jc_value = sc_value c, jc_domain = d, jc_path = cookie_path u c,
                     jc_host_only = ho, jc_secure = sc_secure c, jc_http_only = sc_http_only c,
                     jc_expires = None, jc_created = 0\<rparr>;
               k = jar_key jc in
           case cookie_life now c of
             Deleted \<Rightarrow> j\<lparr>j_cookies := AList.delete k (j_cookies j)\<rparr>
           | Lives e \<Rightarrow>
               (case map_of (j_cookies j) k of
                  Some old \<Rightarrow>
                    j\<lparr>j_cookies := AList.update k (jc\<lparr>jc_expires := e, jc_created := jc_created old\<rparr>) (j_cookies j)\<rparr>
                | None \<Rightarrow>
                    if length (j_cookies j) \<ge> max_jar_cookies then j
                    else \<lparr>j_cookies = AList.update k (jc\<lparr>jc_expires := e, jc_created := j_seq j + 1\<rparr>) (j_cookies j),
                          j_seq = j_seq j + 1\<rparr>))))"

definition store_cookies :: "jar_url \<Rightarrow> set_cookie list \<Rightarrow> int \<Rightarrow> jar \<Rightarrow> jar" where
  "store_cookies u cs now j = fold (store_one u now) cs j"

definition path_match :: "string \<Rightarrow> string \<Rightarrow> bool" where
  "path_match req0 cp \<longleftrightarrow>
     (let req = (if req0 = [] then ''/'' else req0) in
      req = cp \<or> has_prefix req cp \<and> (has_suffix cp ''/'' \<or> req ! length cp = CHR ''/''))"

definition unexpired :: "int \<Rightarrow> jar_cookie \<Rightarrow> bool" where
  "unexpired now c \<longleftrightarrow> (case jc_expires c of None \<Rightarrow> True | Some e \<Rightarrow> e > now)"

definition cookie_matches :: "jar_url \<Rightarrow> int \<Rightarrow> jar_cookie \<Rightarrow> bool" where
  "cookie_matches u now c \<longleftrightarrow>
     (let host = to_lower (ju_host u) in
      (if jc_host_only c then host = jc_domain c
       else host = jc_domain c \<or> has_suffix host (CHR ''.'' # jc_domain c))
      \<and> (jc_secure c \<longrightarrow> ju_scheme u = ''https'') \<and> unexpired now c \<and> path_match (ju_path u) (jc_path c))"

text \<open>The cookies sent, in the order of the header: longer paths first, then older ones.\<close>

definition sent_cookies :: "jar_url \<Rightarrow> int \<Rightarrow> jar \<Rightarrow> jar_cookie list" where
  "sent_cookies u now j =
     sort_key (\<lambda>c. - int (length (jc_path c)))
       (sort_key jc_created (filter (cookie_matches u now) (map snd (j_cookies j))))"

definition jar_header :: "jar_url \<Rightarrow> int \<Rightarrow> jar \<Rightarrow> string" where
  "jar_header u now j = str_join ''; '' (map (\<lambda>c. jc_name c @ ''='' @ jc_value c) (sent_cookies u now j))"

definition jar_list :: "int \<Rightarrow> jar \<Rightarrow> jar_cookie list" where
  "jar_list now j =
     sort_key jc_domain (sort_key jc_path (sort_key jc_name (filter (unexpired now) (map snd (j_cookies j)))))"

definition jar_clear :: "jar \<Rightarrow> jar" where
  "jar_clear j = j\<lparr>j_cookies := []\<rparr>"

definition jar_export :: "jar \<Rightarrow> jar_cookie list" where
  "jar_export j = sort_key jc_created (map snd (j_cookies j))"

definition replace_one :: "jar_cookie \<Rightarrow> jar \<Rightarrow> jar" where
  "replace_one c j =
     (if jc_name c = [] \<or> jc_domain c = [] then j
      else
        (let c' = (if jc_created c = 0 then c\<lparr>jc_created := j_seq j + 1\<rparr> else c)
         in \<lparr>j_cookies = AList.update (jar_key c') c' (j_cookies j), j_seq = max (j_seq j) (jc_created c')\<rparr>))"

definition jar_replace :: "jar_cookie list \<Rightarrow> jar \<Rightarrow> jar" where
  "jar_replace cs j = fold replace_one cs (j\<lparr>j_cookies := []\<rparr>)"

text \<open>The jars of the partitions, created on first use from what was persisted.\<close>

definition partition_key :: "string \<Rightarrow> string \<Rightarrow> string \<Rightarrow> string" where
  "partition_key coll env ident = coll @ CHR 0x00 # env @ CHR 0x00 # ident"

definition jar_for ::
    "(string \<Rightarrow> string \<Rightarrow> string \<Rightarrow> jar_cookie list) option \<Rightarrow> string \<Rightarrow> string \<Rightarrow> string \<Rightarrow>
     (string \<times> jar) list \<Rightarrow> jar \<times> (string \<times> jar) list" where
  "jar_for loader coll env ident js =
     (case map_of js (partition_key coll env ident) of
        Some j \<Rightarrow> (j, js)
      | None \<Rightarrow>
          (let j = (case loader of None \<Rightarrow> new_jar | Some f \<Rightarrow> jar_replace (f coll env ident) new_jar)
           in (j, AList.update (partition_key coll env ident) j js)))"

section \<open>Sessions of a jar\<close>

datatype jar_op = JStore jar_url "set_cookie list" int | JClear | JReplace "jar_cookie list"

fun jar_do :: "jar_op \<Rightarrow> jar \<Rightarrow> jar" where
  "jar_do (JStore u cs now) j = store_cookies u cs now j"
| "jar_do JClear j = jar_clear j"
| "jar_do (JReplace cs) j = jar_replace cs j"

definition run_jar :: "jar_op list \<Rightarrow> jar" where
  "run_jar ops = fold jar_do ops new_jar"

text \<open>The map of the jar is keyed by the cookies' keys, each once.\<close>

definition jar_keys_ok :: "jar \<Rightarrow> bool" where
  "jar_keys_ok j \<longleftrightarrow>
     distinct (map fst (j_cookies j)) \<and> (\<forall>(k, c)\<in>set (j_cookies j). k = jar_key c \<and> jc_name c \<noteq> [])"

text \<open>Cookies of a jar that was not restored: distinct creation numbers up to the sequence number.\<close>

definition jar_fresh :: "jar \<Rightarrow> bool" where
  "jar_fresh j \<longleftrightarrow>
     distinct (map (\<lambda>(k, c). jc_created c) (j_cookies j))
     \<and> (\<forall>(k, c)\<in>set (j_cookies j). 0 < jc_created c \<and> jc_created c \<le> j_seq j)
     \<and> length (j_cookies j) \<le> max_jar_cookies"

lemma set_update: "distinct (map fst al) \<Longrightarrow> set (AList.update k v al) = insert (k, v) {(k', v')\<in>set al. k' \<noteq> k}"
  by (induction al) (auto simp: image_iff)

lemma update_fresh: "k \<notin> fst ` set al \<Longrightarrow> AList.update k v al = al @ [(k, v)]"
  by (induction al) auto

lemma map_update_present:
  "map_of al k = Some old \<Longrightarrow> g v = g old \<Longrightarrow> map (\<lambda>(k, c). g c) (AList.update k v al) = map (\<lambda>(k, c). g c) al"
  by (induction al) (auto split: if_splits)

lemma set_delete: "set (AList.delete k al) = {(k', v')\<in>set al. k' \<noteq> k}"
  by (induction al) auto

lemma distinct_map_delete: "distinct (map f al) \<Longrightarrow> distinct (map f (AList.delete k al))"
  by (induction al) (auto simp: set_delete)

lemma length_update: "map_of al k = Some old \<Longrightarrow> length (AList.update k v al) = length al"
  by (induction al) auto

lemma length_delete: "length (AList.delete k al) \<le> length al"
  by (induction al) auto

text \<open>What a step does to the cookies: some are dropped, at most one is put.\<close>

lemma store_one_cases:
  obtains (same) "store_one u now c j = j"
  | (deleted) k where "store_one u now c j = j\<lparr>j_cookies := AList.delete k (j_cookies j)\<rparr>"
  | (updated) jc old where "store_one u now c j = j\<lparr>j_cookies := AList.update (jar_key jc) jc (j_cookies j)\<rparr>"
      "map_of (j_cookies j) (jar_key jc) = Some old" "jc_created jc = jc_created old"
      "jc_name jc = sc_name c" "jc_value jc = sc_value c" "sc_name c \<noteq> []"
      "cookie_domain (to_lower (ju_host u)) c = Some (jc_domain jc, jc_host_only jc)"
      "jc_secure jc = sc_secure c"
  | (added) jc where "store_one u now c j = \<lparr>j_cookies = AList.update (jar_key jc) jc (j_cookies j), j_seq = j_seq j + 1\<rparr>"
      "map_of (j_cookies j) (jar_key jc) = None" "jc_created jc = j_seq j + 1" "length (j_cookies j) < max_jar_cookies"
      "jc_name jc = sc_name c" "jc_value jc = sc_value c" "sc_name c \<noteq> []"
      "cookie_domain (to_lower (ju_host u)) c = Some (jc_domain jc, jc_host_only jc)"
      "jc_secure jc = sc_secure c"
proof (cases "sc_name c = [] \<or> cookie_domain (to_lower (ju_host u)) c = None")
  case True
  then show ?thesis using same by (auto simp: store_one_def)
next
  case False
  then obtain d ho where d: "cookie_domain (to_lower (ju_host u)) c = Some (d, ho)" and n: "sc_name c \<noteq> []" by auto
  define jc0 where "jc0 = \<lparr>jc_name = sc_name c, jc_value = sc_value c, jc_domain = d, jc_path = cookie_path u c,
                     jc_host_only = ho, jc_secure = sc_secure c, jc_http_only = sc_http_only c,
                     jc_expires = None, jc_created = 0\<rparr>"
  have key: "jar_key (jc0\<lparr>jc_expires := e, jc_created := m\<rparr>) = jar_key jc0" for e m by (simp add: jar_key_def)
  show ?thesis
  proof (cases "cookie_life now c")
    case Deleted
    then have "store_one u now c j = j\<lparr>j_cookies := AList.delete (jar_key jc0) (j_cookies j)\<rparr>"
      using d n by (simp add: store_one_def jc0_def Let_def)
    then show ?thesis by (rule deleted)
  next
    case (Lives e)
    show ?thesis
    proof (cases "map_of (j_cookies j) (jar_key jc0)")
      case (Some old)
      define jc where "jc = jc0\<lparr>jc_expires := e, jc_created := jc_created old\<rparr>"
      have "store_one u now c j = j\<lparr>j_cookies := AList.update (jar_key jc) jc (j_cookies j)\<rparr>"
        using d n Lives Some unfolding jc_def key by (simp add: store_one_def jc0_def Let_def)
      then show ?thesis
        by (rule updated) (use Some d n in \<open>simp_all add: jc_def key, simp_all add: jc0_def\<close>)
    next
      case None
      define jc where "jc = jc0\<lparr>jc_expires := e, jc_created := j_seq j + 1\<rparr>"
      show ?thesis
      proof (cases "length (j_cookies j) \<ge> max_jar_cookies")
        case True
        then have "store_one u now c j = j"
          using d n Lives None by (simp add: store_one_def jc0_def Let_def)
        then show ?thesis by (rule same)
      next
        case full: False
        have "store_one u now c j = \<lparr>j_cookies = AList.update (jar_key jc) jc (j_cookies j), j_seq = j_seq j + 1\<rparr>"
          using d n Lives None full unfolding jc_def key by (simp add: store_one_def jc0_def Let_def)
        then show ?thesis
          by (rule added) (use None d n full in \<open>simp_all add: jc_def key, simp_all add: jc0_def\<close>)
      qed
    qed
  qed
qed

lemma keys_ok_update:
  "jar_keys_ok j \<Longrightarrow> jc_name jc \<noteq> [] \<Longrightarrow> jar_keys_ok (j\<lparr>j_cookies := AList.update (jar_key jc) jc (j_cookies j)\<rparr>)"
  by (auto simp: jar_keys_ok_def AList.distinct_update set_update)

lemma keys_ok_seq: "jar_keys_ok \<lparr>j_cookies = cs, j_seq = n\<rparr> = jar_keys_ok (j\<lparr>j_cookies := cs\<rparr>)"
  by (simp add: jar_keys_ok_def)

lemma keys_ok_store_one: "jar_keys_ok j \<Longrightarrow> jar_keys_ok (store_one u now c j)"
proof (cases rule: store_one_cases [of u now c j])
  case (deleted k)
  assume "jar_keys_ok j"
  then show ?thesis unfolding deleted by (auto simp: jar_keys_ok_def AList.distinct_delete set_delete)
next
  case (updated jc old)
  assume "jar_keys_ok j"
  then show ?thesis unfolding updated(1) using updated(4,6) by (intro keys_ok_update) simp_all
next
  case (added jc)
  assume "jar_keys_ok j"
  then show ?thesis unfolding added(1) keys_ok_seq [of _ _ j] using added(5,7) by (intro keys_ok_update) simp_all
qed simp

lemma keys_ok_replace_one: "jar_keys_ok j \<Longrightarrow> jar_keys_ok (replace_one c j)"
proof (cases "jc_name c = [] \<or> jc_domain c = []")
  case False
  assume ok: "jar_keys_ok j"
  define c' where "c' = (if jc_created c = 0 then c\<lparr>jc_created := j_seq j + 1\<rparr> else c)"
  have "replace_one c j = \<lparr>j_cookies = AList.update (jar_key c') c' (j_cookies j), j_seq = max (j_seq j) (jc_created c')\<rparr>"
    using False by (simp add: replace_one_def c'_def Let_def)
  moreover have "jc_name c' \<noteq> []" using False by (simp add: c'_def)
  ultimately show ?thesis using keys_ok_update [OF ok, of c'] keys_ok_seq [of _ _ j] by simp
qed (auto simp: replace_one_def)

lemma keys_ok_do: "jar_keys_ok j \<Longrightarrow> jar_keys_ok (jar_do a j)"
proof (cases a)
  case (JStore u cs now)
  have "jar_keys_ok j \<Longrightarrow> jar_keys_ok (fold (store_one u now) cs j)" for j
    by (induction cs arbitrary: j) (auto intro: keys_ok_store_one)
  then show "jar_keys_ok j \<Longrightarrow> ?thesis" using JStore by (simp add: store_cookies_def)
next
  case (JReplace cs)
  have "jar_keys_ok j \<Longrightarrow> jar_keys_ok (fold replace_one cs j)" for j
    by (induction cs arbitrary: j) (auto intro: keys_ok_replace_one)
  from this [of "j\<lparr>j_cookies := []\<rparr>"] have "jar_keys_ok (fold replace_one cs (j\<lparr>j_cookies := []\<rparr>))"
    by (simp add: jar_keys_ok_def [of "j\<lparr>j_cookies := []\<rparr>"])
  then show ?thesis using JReplace by (simp add: jar_replace_def)
qed (simp add: jar_clear_def jar_keys_ok_def)

lemma keys_ok_run: "jar_keys_ok (run_jar ops)"
proof -
  have "jar_keys_ok j \<Longrightarrow> jar_keys_ok (fold jar_do ops j)" for j
    by (induction ops arbitrary: j) (auto intro: keys_ok_do)
  moreover have "jar_keys_ok new_jar" by (simp add: jar_keys_ok_def new_jar_def)
  ultimately show ?thesis by (simp add: run_jar_def)
qed

section \<open>Where a cookie comes from\<close>


definition came_from :: "jar_op list \<Rightarrow> jar_cookie \<Rightarrow> bool" where
  "came_from ops c \<longleftrightarrow>
     (\<exists>u cs now sc. JStore u cs now \<in> set ops \<and> sc \<in> set cs \<and> sc_name sc = jc_name c \<and> sc_value sc = jc_value c
        \<and> sc_secure sc = jc_secure c
        \<and> cookie_domain (to_lower (ju_host u)) sc = Some (jc_domain c, jc_host_only c))
     \<or> (\<exists>cs c0. JReplace cs \<in> set ops \<and> c0 \<in> set cs \<and> c = c0\<lparr>jc_created := jc_created c\<rparr>)"

lemma came_from_mono: "came_from ops c \<Longrightarrow> set ops \<subseteq> set ops' \<Longrightarrow> came_from ops' c"
  unfolding came_from_def by blast

lemma store_one_origin:
  "(k, c) \<in> set (j_cookies (store_one u now sc j)) \<Longrightarrow> jar_keys_ok j \<Longrightarrow>
   (k, c) \<in> set (j_cookies j) \<or> came_from [JStore u [sc] now] c"
proof (cases rule: store_one_cases [of u now sc j])
  case (deleted k')
  assume "(k, c) \<in> set (j_cookies (store_one u now sc j))"
  then show ?thesis by (auto simp: deleted set_delete)
next
  case (updated jc old)
  assume "(k, c) \<in> set (j_cookies (store_one u now sc j))" "jar_keys_ok j"
  then have "(k, c) \<in> set (j_cookies j) \<or> c = jc" by (auto simp: updated(1) set_update jar_keys_ok_def)
  then show ?thesis using updated by (auto simp: came_from_def)
next
  case (added jc)
  assume "(k, c) \<in> set (j_cookies (store_one u now sc j))" "jar_keys_ok j"
  then have "(k, c) \<in> set (j_cookies j) \<or> c = jc" by (auto simp: added(1) set_update jar_keys_ok_def)
  then show ?thesis using added by (auto simp: came_from_def)
qed simp

lemma store_origin:
  "(k, c) \<in> set (j_cookies (fold (store_one u now) scs j)) \<Longrightarrow> jar_keys_ok j \<Longrightarrow> set scs \<subseteq> set all \<Longrightarrow>
   (k, c) \<in> set (j_cookies j) \<or> came_from [JStore u all now] c"
proof (induction scs arbitrary: j)
  case (Cons sc scs)
  have "(k, c) \<in> set (j_cookies (store_one u now sc j)) \<or> came_from [JStore u all now] c"
    using Cons.IH [of "store_one u now sc j"] Cons.prems keys_ok_store_one by simp
  moreover have "came_from [JStore u [sc] now] c \<Longrightarrow> came_from [JStore u all now] c"
    using Cons.prems(3) by (auto simp: came_from_def)
  ultimately show ?case using store_one_origin Cons.prems(2) by blast
qed simp

lemma replace_origin:
  "(k, c) \<in> set (j_cookies (fold replace_one cs j)) \<Longrightarrow> jar_keys_ok j \<Longrightarrow> set cs \<subseteq> set all \<Longrightarrow>
   (k, c) \<in> set (j_cookies j) \<or> came_from [JReplace all] c"
proof (induction cs arbitrary: j)
  case (Cons c0 cs)
  have "(k, c) \<in> set (j_cookies (replace_one c0 j)) \<or> came_from [JReplace all] c"
    using Cons.IH [of "replace_one c0 j"] Cons.prems keys_ok_replace_one by simp
  moreover have "(k, c) \<in> set (j_cookies (replace_one c0 j)) \<Longrightarrow> (k, c) \<in> set (j_cookies j) \<or> came_from [JReplace all] c"
  proof (cases "jc_name c0 = [] \<or> jc_domain c0 = []")
    case False
    define c' where "c' = (if jc_created c0 = 0 then c0\<lparr>jc_created := j_seq j + 1\<rparr> else c0)"
    assume "(k, c) \<in> set (j_cookies (replace_one c0 j))"
    then have "(k, c) \<in> set (j_cookies j) \<or> c = c'"
      using False Cons.prems(2) by (auto simp: replace_one_def Let_def c'_def set_update jar_keys_ok_def split: if_splits)
    moreover have "c' = c0\<lparr>jc_created := jc_created c'\<rparr>" by (simp add: c'_def)
    ultimately show ?thesis using Cons.prems(3) by (auto simp: came_from_def)
  qed (auto simp: replace_one_def)
  ultimately show ?case by blast
qed simp

lemma run_origin: "(k, c) \<in> set (j_cookies (run_jar ops)) \<Longrightarrow> came_from ops c"
proof (induction ops rule: rev_induct)
  case Nil
  then show ?case by (simp add: run_jar_def new_jar_def)
next
  case (snoc a ops)
  have r: "run_jar (ops @ [a]) = jar_do a (run_jar ops)" by (simp add: run_jar_def)
  note pr = snoc.prems [unfolded r]
  have ok: "jar_keys_ok (run_jar ops)" by (rule keys_ok_run)
  have "(k, c) \<in> set (j_cookies (run_jar ops)) \<or> came_from [a] c"
  proof (cases a)
    case (JStore u cs now)
    then show ?thesis using pr store_origin [OF _ ok, of k c u now cs cs] by (simp add: JStore store_cookies_def)
  next
    case JClear
    then show ?thesis using pr by (simp add: JClear jar_clear_def)
  next
    case (JReplace cs)
    have "jar_keys_ok (run_jar ops\<lparr>j_cookies := []\<rparr>)" by (simp add: jar_keys_ok_def)
    then show ?thesis using pr replace_origin [of k c cs "run_jar ops\<lparr>j_cookies := []\<rparr>" cs]
      by (simp add: JReplace jar_replace_def)
  qed
  then show ?case using snoc.IH came_from_mono by (metis Un_iff set_append subsetI)
qed



definition demo_url :: "string \<Rightarrow> jar_url" where
  "demo_url h = \<lparr>ju_host = h, ju_scheme = ''https'', ju_path = ''/a/b''\<rparr>"

definition demo_cookie :: "string \<Rightarrow> string \<Rightarrow> string \<Rightarrow> set_cookie" where
  "demo_cookie n v d = \<lparr>sc_name = n, sc_value = v, sc_domain = d, sc_path = [], sc_secure = True, sc_http_only = False,
     sc_max_age = 0, sc_expires = None\<rparr>"

definition demo_jar_ops :: "jar_op list" where
  "demo_jar_ops = [JStore (demo_url ''A.x'') [demo_cookie ''s'' ''1'' [], demo_cookie ''t'' ''2'' ''.x'',
     demo_cookie ''bad'' ''3'' ''y''] 5]"


section \<open>Order, bound and round trip\<close>

lemma jar_fresh_store_one:
  assumes "jar_fresh j" "jar_keys_ok j"
  shows "jar_fresh (store_one u now sc j)"
proof (cases rule: store_one_cases [of u now sc j])
  case (deleted k)
  show ?thesis unfolding deleted using assms(1) length_delete [of k "j_cookies j"]
    by (auto simp: jar_fresh_def set_delete distinct_map_delete)
next
  case (updated jc old)
  have old: "(jar_key jc, old) \<in> set (j_cookies j)" using updated(2) by (rule map_of_SomeD)
  show ?thesis unfolding updated(1)
    using assms old updated(3)
    by (auto simp: jar_fresh_def jar_keys_ok_def length_update [OF updated(2)] set_update
        map_update_present [OF updated(2), of jc_created])
next
  case (added jc)
  have k: "jar_key jc \<notin> fst ` set (j_cookies j)" using added(2) by (simp add: map_of_eq_None_iff)
  have u: "AList.update (jar_key jc) jc (j_cookies j) = j_cookies j @ [(jar_key jc, jc)]" by (rule update_fresh [OF k])
  have "Suc (j_seq j) \<notin> (\<lambda>(k, c). jc_created c) ` set (j_cookies j)"
    using assms(1) by (auto simp: jar_fresh_def)
  then show ?thesis unfolding added(1) u
    using assms(1) added(3,4) by (auto simp: jar_fresh_def)
qed (use assms in simp)

definition stores_only :: "jar_op list \<Rightarrow> bool" where
  "stores_only ops \<longleftrightarrow> list_all (\<lambda>a. case a of JStore u cs now \<Rightarrow> ju_host u \<noteq> [] | JClear \<Rightarrow> True | JReplace cs \<Rightarrow> False) ops"

lemma jar_fresh_run: "stores_only ops \<Longrightarrow> jar_fresh (run_jar ops)"
proof (induction ops rule: rev_induct)
  case Nil
  show ?case by (simp add: run_jar_def new_jar_def jar_fresh_def)
next
  case (snoc a ops)
  have r: "run_jar (ops @ [a]) = jar_do a (run_jar ops)" by (simp add: run_jar_def)
  have fr: "jar_fresh (run_jar ops)" using snoc by (simp add: stores_only_def)
  have ok: "jar_keys_ok (run_jar ops)" by (rule keys_ok_run)
  show ?case
  proof (cases a)
    case (JStore u cs now)
    have "jar_fresh j \<Longrightarrow> jar_keys_ok j \<Longrightarrow> jar_fresh (fold (store_one u now) cs j)" for j
      by (induction cs arbitrary: j) (auto intro: jar_fresh_store_one keys_ok_store_one)
    then show ?thesis using JStore fr ok unfolding r by (simp add: store_cookies_def)
  next
    case JClear
    then show ?thesis unfolding r by (simp add: jar_clear_def jar_fresh_def)
  next
    case (JReplace cs)
    then show ?thesis using snoc.prems by (simp add: stores_only_def)
  qed
qed

lemma domains_nonempty:
  assumes "stores_only ops" "(k, c) \<in> set (j_cookies (run_jar ops))"
  shows "jc_domain c \<noteq> []"
proof -
  have no: "JReplace cs \<notin> set ops" for cs
    using assms(1) by (force simp: stores_only_def list_all_iff)
  from run_origin [OF assms(2)] no obtain u cs now sc where st: "JStore u cs now \<in> set ops"
    "cookie_domain (to_lower (ju_host u)) sc = Some (jc_domain c, jc_host_only c)"
    unfolding came_from_def by blast
  from st(1) assms(1) have "ju_host u \<noteq> []" by (force simp: stores_only_def list_all_iff)
  then have "to_lower (ju_host u) \<noteq> []" by simp
  with st(2) show ?thesis unfolding cookie_domain_def Let_def by (simp split: if_splits) (metis to_lower_Nil_iff)+
qed

lemma sort_key_sorted_filter: "sort_key f (filter P (sort_key f xs)) = sort_key f (filter P xs)"
  by (simp add: filter_sort sort_key_id_if_sorted)

lemma replace_fold:
  "\<forall>c\<in>set cs. jc_name c \<noteq> [] \<and> jc_domain c \<noteq> [] \<and> jc_created c \<noteq> 0 \<Longrightarrow>
   distinct (map fst (j_cookies j) @ map jar_key cs) \<Longrightarrow>
   j_cookies (fold replace_one cs j) = j_cookies j @ map (\<lambda>c. (jar_key c, c)) cs"
proof (induction cs arbitrary: j)
  case (Cons c cs)
  have c: "replace_one c j = \<lparr>j_cookies = j_cookies j @ [(jar_key c, c)], j_seq = max (j_seq j) (jc_created c)\<rparr>"
    using Cons.prems by (auto simp: replace_one_def update_fresh)
  show ?case using Cons.IH [of "replace_one c j"] Cons.prems by (simp add: c)
qed simp

text \<open>
  A jar that was filled by responses and never restored, from hosts with a name: it holds at
  most 3000 cookies; what it sends is each matching cookie once, longer paths first
  and among equal paths the older cookie first; and putting its export into any jar gives a jar with the
  same export that sends the same header to every URL at every time.
\<close>

theorem jar_order_bound_roundtrip:
  assumes "stores_only ops" and "j = run_jar ops"
  shows "length (j_cookies j) \<le> max_jar_cookies
    \<and> distinct (sent_cookies u now j)
    \<and> set (sent_cookies u now j) = {c \<in> snd ` set (j_cookies j). cookie_matches u now c}
    \<and> sorted_wrt (\<lambda>a b. length (jc_path a) > length (jc_path b)
          \<or> length (jc_path a) = length (jc_path b) \<and> jc_created a < jc_created b) (sent_cookies u now j)
    \<and> jar_export (jar_replace (jar_export j) j') = jar_export j
    \<and> jar_header u now (jar_replace (jar_export j) j') = jar_header u now j"
proof -
  have fr: "jar_fresh j" and ok: "jar_keys_ok j"
    using assms jar_fresh_run keys_ok_run by simp_all
  have cd: "distinct (map jc_created (map snd (j_cookies j)))"
    using fr by (simp add: jar_fresh_def comp_def case_prod_unfold)
  then have dc: "distinct (map snd (j_cookies j))" by (rule distinct_map [THEN iffD1, THEN conjunct1])
  define ms where "ms = sort_key jc_created (filter (cookie_matches u now) (map snd (j_cookies j)))"
  have sent: "sent_cookies u now j = sort_key (\<lambda>c. - int (length (jc_path c))) ms"
    by (simp add: sent_cookies_def ms_def)
  have dist: "distinct (sent_cookies u now j)" using dc by (simp add: sent ms_def)
  have inj: "inj_on jc_created (set (map snd (j_cookies j)))"
    using cd by (rule distinct_map [THEN iffD1, THEN conjunct2])
  have "sorted_wrt (\<lambda>x y. jc_created x \<le> jc_created y) ms"
    using sorted_sort_key [of jc_created] by (simp add: ms_def sorted_map)
  from sort_key_lex [OF this, of "\<lambda>c. - int (length (jc_path c))"]
  have lex: "sorted_wrt (\<lambda>x y. - int (length (jc_path x)) < - int (length (jc_path y))
      \<or> - int (length (jc_path x)) = - int (length (jc_path y)) \<and> jc_created x \<le> jc_created y) (sent_cookies u now j)"
    by (simp add: sent)
  have sub: "set (sent_cookies u now j) = {c \<in> snd ` set (j_cookies j). cookie_matches u now c}"
    by (auto simp: sent_cookies_def)
  have strict: "sorted_wrt (\<lambda>a b. length (jc_path a) > length (jc_path b)
          \<or> length (jc_path a) = length (jc_path b) \<and> jc_created a < jc_created b) (sent_cookies u now j)"
    unfolding sorted_wrt_iff_nth_less
  proof (intro allI impI)
    fix i k assume ik: "i < k" "k < length (sent_cookies u now j)"
    let ?a = "sent_cookies u now j ! i" and ?b = "sent_cookies u now j ! k"
    have "?a \<noteq> ?b" using dist ik by (simp add: nth_eq_iff_index_eq)
    moreover have "?a \<in> set (map snd (j_cookies j))" "?b \<in> set (map snd (j_cookies j))"
      using ik nth_mem [of i "sent_cookies u now j"] nth_mem [of k "sent_cookies u now j"] sub by auto
    ultimately have "jc_created ?a \<noteq> jc_created ?b" using inj by (meson inj_onD)
    moreover have "length (jc_path ?a) > length (jc_path ?b)
        \<or> length (jc_path ?a) = length (jc_path ?b) \<and> jc_created ?a \<le> jc_created ?b"
      using lex ik unfolding sorted_wrt_iff_nth_less by auto
    ultimately show "length (jc_path ?a) > length (jc_path ?b)
        \<or> length (jc_path ?a) = length (jc_path ?b) \<and> jc_created ?a < jc_created ?b" by linarith
  qed
  have ex: "set (jar_export j) = snd ` set (j_cookies j)" by (simp add: jar_export_def)
  have good: "\<forall>c\<in>set (jar_export j). jc_name c \<noteq> [] \<and> jc_domain c \<noteq> [] \<and> jc_created c \<noteq> 0"
  proof
    fix c assume "c \<in> set (jar_export j)"
    then obtain k where k: "(k, c) \<in> set (j_cookies j)" unfolding ex by force
    have "jc_name c \<noteq> []" using ok k by (auto simp: jar_keys_ok_def)
    moreover have "0 < jc_created c" using fr k by (auto simp: jar_fresh_def)
    moreover have "jc_domain c \<noteq> []" using domains_nonempty [OF assms(1)] k assms(2) by blast
    ultimately show "jc_name c \<noteq> [] \<and> jc_domain c \<noteq> [] \<and> jc_created c \<noteq> 0" by simp
  qed
  have "distinct (map jar_key (map snd (j_cookies j)))"
  proof -
    have "map jar_key (map snd (j_cookies j)) = map fst (j_cookies j)"
      using ok by (auto simp: jar_keys_ok_def)
    moreover have "distinct (map fst (j_cookies j))" using ok by (simp add: jar_keys_ok_def)
    ultimately show ?thesis by metis
  qed
  moreover have "mset (map jar_key (jar_export j)) = mset (map jar_key (map snd (j_cookies j)))"
    by (simp only: jar_export_def mset_map mset_sort)
  ultimately have "distinct (map jar_key (jar_export j))"
    using mset_eq_imp_distinct_iff by blast
  then have rep: "map snd (j_cookies (jar_replace (jar_export j) j')) = jar_export j"
    using replace_fold [OF good, of "j'\<lparr>j_cookies := []\<rparr>"] by (simp add: jar_replace_def comp_def)
  have "jar_export (jar_replace (jar_export j) j') = jar_export j"
    unfolding jar_export_def [of "jar_replace (jar_export j) j'"] rep
    by (simp add: jar_export_def sort_key_id_if_sorted)
  moreover have "jar_header u now (jar_replace (jar_export j) j') = jar_header u now j"
    unfolding jar_header_def sent_cookies_def rep by (simp add: jar_export_def sort_key_sorted_filter)
  ultimately show ?thesis using fr dist sub strict by (simp add: jar_fresh_def)
qed

theorem jar_order_bound_roundtrip_witness:
  "jar_header (demo_url ''a.x'') 7 (jar_replace (jar_export (run_jar demo_jar_ops)) new_jar) = ''s=1; t=2''"
proof -
  have "stores_only demo_jar_ops" by (simp add: stores_only_def demo_jar_ops_def demo_url_def)
  from jar_order_bound_roundtrip [OF this refl, of "demo_url ''a.x''" 7 new_jar]
  have "jar_header (demo_url ''a.x'') 7 (jar_replace (jar_export (run_jar demo_jar_ops)) new_jar)
      = jar_header (demo_url ''a.x'') 7 (run_jar demo_jar_ops)" by blast
  also have "\<dots> = ''s=1; t=2''" by code_simp
  finally show ?thesis .
qed

section \<open>Corners\<close>

text \<open>
  Expired cookies are not removed and count: a jar full of them takes no new cookie.
\<close>

lemma full_jar_of_expired_cookies_refuses:
  assumes "max_jar_cookies \<le> length (j_cookies j)" "\<forall>c\<in>snd ` set (j_cookies j). \<not> unexpired now c"
    and "sc_domain sc = []" "sc_path sc = ''/''" "sc_name sc \<noteq> []" "sc_max_age sc = 0" "sc_expires sc = None"
    and "map_of (j_cookies j) (to_lower (ju_host u) @ CHR 0x00 # ''/'' @ CHR 0x00 # sc_name sc) = None"
  shows "store_cookies u [sc] now j = j \<and> sent_cookies u now (store_cookies u [sc] now j) = []"
proof -
  have d: "cookie_domain (to_lower (ju_host u)) sc = Some (to_lower (ju_host u), True)"
    using assms(3) by (simp add: cookie_domain_def trim_prefix_def)
  have "store_one u now sc j = j"
    using assms d by (simp add: store_one_def cookie_life_def cookie_path_def jar_key_def Let_def)
  then have "store_cookies u [sc] now j = j" by (simp add: store_cookies_def)
  moreover have "filter (cookie_matches u now) (map snd (j_cookies j)) = []"
    using assms(2) by (force simp: filter_empty_conv cookie_matches_def Let_def)
  ultimately show ?thesis by (simp add: sent_cookies_def)
qed

text \<open>A lifetime of more than about 292 years wraps around and is in the past.\<close>

lemma huge_max_age_is_expired:
  "cookie_life now ((demo_cookie ''n'' ''v'' [])\<lparr>sc_max_age := 10000000000\<rparr>) = Lives (Some (now - 8446744073709551616))"
proof -
  have "seconds 10000000000 = - 8446744073709551616" by (simp add: seconds_def)
  then show ?thesis by (simp add: cookie_life_def demo_cookie_def)
qed

end
