(* ===== verification/CollTree.thy ===== *)
theory CollTree
  imports GoBase "HOL-Library.Product_Lexorder" "HOL-Library.Monad_Syntax" "HOL-Library.Multiset"
begin

text \<open>
  The tree of a collection and the plan of a run over it: \<open>BuildTree\<close> of
  \<open>internal/collection/collection.go\<close>, \<open>ChainFromItems\<close> of \<open>internal/collexec/model.go\<close>, and
  \<open>PlanItems\<close>, \<open>FolderPath\<close>, \<open>nextIndex\<close> and \<open>FailedItemUIDs\<close> of \<open>internal/collrun/plan.go\<close>. Of an
  item the model has the columns this code reads. The recursion over the nodes does not end
  for an arbitrary list of items (two items may share an id), so it is a partial function with the
  value \<open>None\<close> for a run that does not return.
\<close>

section \<open>Items and nodes\<close>

record coll_item =
  it_uid :: string
  it_parent :: string
  it_kind :: string
  it_rank :: string
  it_name :: string
  it_method :: string
  it_events :: string

datatype coll_node = Node (node_item: coll_item) (node_children: "coll_node list")

text \<open>The map of \<open>BuildTree\<close>: a later item with the same id replaces an earlier one.\<close>

definition by_uid :: "coll_item list \<Rightarrow> string \<Rightarrow> coll_item option" where
  "by_uid items u = map_of (rev (map (\<lambda>it. (it_uid it, it)) items)) u"

definition has_parent :: "coll_item list \<Rightarrow> coll_item \<Rightarrow> bool" where
  "has_parent items it \<longleftrightarrow>
     by_uid items (it_parent it) \<noteq> None \<and> it_parent it \<noteq> [] \<and> it_parent it \<noteq> it_uid it"

definition roots_of :: "coll_item list \<Rightarrow> coll_item list" where
  "roots_of items = List.map_filter (\<lambda>it. if has_parent items it then None else by_uid items (it_uid it)) items"

definition children_of :: "coll_item list \<Rightarrow> string \<Rightarrow> coll_item list" where
  "children_of items u =
     List.map_filter (\<lambda>it. if has_parent items it \<and> it_parent it = u then by_uid items (it_uid it) else None) items"

text \<open>\<open>sort.SliceStable\<close> by rank, then id.\<close>

definition sort_siblings :: "coll_item list \<Rightarrow> coll_item list" where
  "sort_siblings its = sort_key it_rank (sort_key it_uid its)"

partial_function (option) build_nodes :: "coll_item list \<Rightarrow> coll_item list \<Rightarrow> coll_node list option" where
  "build_nodes items its =
     (case its of
        [] \<Rightarrow> Some []
      | it # rest \<Rightarrow>
          do { cs \<leftarrow> build_nodes items (sort_siblings (children_of items (it_uid it)));
               ns \<leftarrow> build_nodes items rest;
               Some (Node it cs # ns) })"

declare build_nodes.simps [code]

definition build_tree :: "coll_item list \<Rightarrow> coll_node list option" where
  "build_tree items = build_nodes items (sort_siblings (roots_of items))"

section \<open>The plan of a run\<close>

text \<open>The walk over a tree: a node before its children.\<close>

fun flat_node :: "coll_node \<Rightarrow> coll_item list" where
  "flat_node (Node it cs) = it # concat (map flat_node cs)"

definition flat_nodes :: "coll_node list \<Rightarrow> coll_item list" where
  "flat_nodes ns = concat (map flat_node ns)"

definition walk_requests :: "coll_node list \<Rightarrow> coll_item list" where
  "walk_requests ns = filter (\<lambda>it. it_kind it = ''request'') (flat_nodes ns)"

fun find_node :: "coll_node \<Rightarrow> string \<Rightarrow> coll_node option" and
    find_nodes :: "coll_node list \<Rightarrow> string \<Rightarrow> coll_node option" where
  "find_node (Node it cs) u = (if it_uid it = u then Some (Node it cs) else find_nodes cs u)"
| "find_nodes [] u = None"
| "find_nodes (n # ns) u = (case find_node n u of Some f \<Rightarrow> Some f | None \<Rightarrow> find_nodes ns u)"

definition plan_items :: "coll_item list \<Rightarrow> string \<Rightarrow> string list \<Rightarrow> coll_item list option" where
  "plan_items items folder pick =
     do { roots \<leftarrow> build_tree items;
          let all = (if folder = [] then walk_requests roots
                     else case find_nodes roots folder of
                            None \<Rightarrow> []
                          | Some f \<Rightarrow> if it_kind (node_item f) = ''folder'' then walk_requests (node_children f) else []);
          Some (if pick = [] then all else filter (\<lambda>it. it_uid it \<in> set pick) all) }"

text \<open>
  The loop of \<open>FolderPath\<close>, \<open>ChainFromItems\<close> and \<open>planScripts\<close> up the parents, guarded by the set of
  ids seen: the ancestors, outermost first.
\<close>

function climb :: "coll_item list \<Rightarrow> string set \<Rightarrow> string \<Rightarrow> coll_item list" where
  "climb items seen p =
     (if p = [] then []
      else case by_uid items p of
             None \<Rightarrow> []
           | Some f \<Rightarrow> if p \<in> seen then [] else climb items (insert p seen) (it_parent f) @ [f])"
  by pat_completeness auto
termination
proof (relation "measure (\<lambda>(items, seen, p). card (dom (by_uid items) - seen))", goal_cases)
  case (2 items seen p f)
  have "finite (dom (by_uid items))" unfolding by_uid_def by (rule finite_dom_map_of)
  then show ?case using 2 by (auto intro!: psubset_card_mono)
qed auto

declare climb.simps [simp del]

definition folder_path :: "coll_item list \<Rightarrow> string \<Rightarrow> string" where
  "folder_path items u =
     str_join '' / ''
       (map it_name (climb items {u} (case by_uid items u of None \<Rightarrow> [] | Some it \<Rightarrow> it_parent it)))"

record coll_chain =
  ch_folders :: "coll_item list"
  ch_item :: coll_item

datatype chain_error = ItemNotFound string | ItemIsFolder string

definition chain_from_items :: "coll_item list \<Rightarrow> string \<Rightarrow> chain_error + coll_chain" where
  "chain_from_items items u =
     (case by_uid items u of
        None \<Rightarrow> Inl (ItemNotFound u)
      | Some it \<Rightarrow>
          if it_kind it = ''folder'' then Inl (ItemIsFolder u)
          else Inr \<lparr>ch_folders = climb items {it_uid it} (it_parent it), ch_item = it\<rparr>)"

text \<open>\<open>nextIndex\<close>: an id before a name, the first match of each.\<close>

fun find_from :: "nat \<Rightarrow> (coll_item \<Rightarrow> bool) \<Rightarrow> coll_item list \<Rightarrow> nat option" where
  "find_from i P [] = None"
| "find_from i P (it # its) = (if P it then Some i else find_from (i + 1) P its)"

definition next_index :: "coll_item list \<Rightarrow> string \<Rightarrow> nat option" where
  "next_index plan target =
     (case find_from 0 (\<lambda>it. it_uid it = target) plan of
        Some i \<Rightarrow> Some i
      | None \<Rightarrow> find_from 0 (\<lambda>it. it_name it = target) plan)"

section \<open>Parents\<close>

definition unique_ids :: "coll_item list \<Rightarrow> bool" where
  "unique_ids items \<longleftrightarrow> distinct (map it_uid items)"

definition parents :: "coll_item list \<Rightarrow> (coll_item \<times> coll_item) set" where
  "parents items = {(c, p). c \<in> set items \<and> p \<in> set items \<and> has_parent items c \<and> it_parent c = it_uid p}"

definition is_root :: "coll_item list \<Rightarrow> coll_item \<Rightarrow> bool" where
  "is_root items it \<longleftrightarrow> it \<in> set items \<and> \<not> has_parent items it"

definition rooted :: "coll_item list \<Rightarrow> nat \<Rightarrow> coll_item \<Rightarrow> bool" where
  "rooted items d it \<longleftrightarrow> (\<exists>r. (it, r) \<in> parents items ^^ d \<and> is_root items r)"

text \<open>The items that hang from a root: the rest are on, or under, a cycle of parents.\<close>

definition anchored :: "coll_item list \<Rightarrow> coll_item \<Rightarrow> bool" where
  "anchored items it \<longleftrightarrow> (\<exists>r. (it, r) \<in> (parents items)\<^sup>* \<and> is_root items r)"

text \<open>Where an item stands in the tree: ranks and ids of the chain down to it.\<close>

definition sort_pair :: "coll_item \<Rightarrow> string \<times> string" where
  "sort_pair it = (it_rank it, it_uid it)"

definition item_chain :: "coll_item list \<Rightarrow> coll_item \<Rightarrow> coll_item list" where
  "item_chain items it = climb items {it_uid it} (it_parent it)"

definition path_key :: "coll_item list \<Rightarrow> coll_item \<Rightarrow> (string \<times> string) list" where
  "path_key items it = map sort_pair (item_chain items it @ [it])"

lemma by_uid_Some: "by_uid items u = Some it \<Longrightarrow> it \<in> set items \<and> it_uid it = u"
  unfolding by_uid_def by (drule map_of_SomeD) auto

lemma by_uid_iff: "unique_ids items \<Longrightarrow> by_uid items u = Some it \<longleftrightarrow> it \<in> set items \<and> it_uid it = u"
  unfolding by_uid_def unique_ids_def
  by (subst map_of_eq_Some_iff) (auto simp: rev_map o_def distinct_map)

lemma by_uid_self [simp]: "unique_ids items \<Longrightarrow> it \<in> set items \<Longrightarrow> by_uid items (it_uid it) = Some it"
  by (simp add: by_uid_iff)

lemma uid_inject: "unique_ids items \<Longrightarrow> a \<in> set items \<Longrightarrow> b \<in> set items \<Longrightarrow> it_uid a = it_uid b \<Longrightarrow> a = b"
  using inj_on_eq_iff by (fastforce simp: unique_ids_def distinct_map)

lemma map_filter_filter:
  "(\<And>x. x \<in> set xs \<Longrightarrow> f x = Some x) \<Longrightarrow> List.map_filter (\<lambda>x. if P x then f x else None) xs = filter P xs"
  by (induction xs) (auto simp: List.map_filter_simps)

lemma roots_of_filter: "unique_ids items \<Longrightarrow> roots_of items = filter (\<lambda>it. \<not> has_parent items it) items"
proof -
  assume u: "unique_ids items"
  have "roots_of items = List.map_filter (\<lambda>it. if \<not> has_parent items it then by_uid items (it_uid it) else None) items"
    unfolding roots_of_def by (rule arg_cong [where f = "\<lambda>f. List.map_filter f items"]) (rule ext, simp)
  also have "\<dots> = filter (\<lambda>it. \<not> has_parent items it) items" by (rule map_filter_filter) (simp add: u)
  finally show ?thesis .
qed

lemma children_of_filter:
  "unique_ids items \<Longrightarrow> children_of items u = filter (\<lambda>it. has_parent items it \<and> it_parent it = u) items"
  unfolding children_of_def by (rule map_filter_filter) simp

lemma parents_single: "unique_ids items \<Longrightarrow> single_valued (parents items)"
  by (auto simp: single_valued_def parents_def intro: uid_inject)

lemma parents_items: "(c, p) \<in> parents items \<Longrightarrow> c \<in> set items \<and> p \<in> set items \<and> has_parent items c"
  by (simp add: parents_def)

lemma has_parent_parents: "it \<in> set items \<Longrightarrow> has_parent items it \<Longrightarrow> \<exists>p. (it, p) \<in> parents items"
  using by_uid_Some by (fastforce simp: has_parent_def parents_def)

lemma children_parents:
  "unique_ids items \<Longrightarrow> p \<in> set items \<Longrightarrow> c \<in> set (children_of items (it_uid p)) \<longleftrightarrow> (c, p) \<in> parents items"
  by (auto simp: children_of_filter parents_def)

lemma rooted_0: "rooted items 0 it \<longleftrightarrow> is_root items it"
  by (auto simp: rooted_def)

lemma rooted_Suc: "rooted items (Suc d) it \<longleftrightarrow> (\<exists>p. (it, p) \<in> parents items \<and> rooted items d p)"
  unfolding rooted_def by (meson relpow_Suc_D2 relpow_Suc_I2)

lemma rooted_in: "rooted items d it \<Longrightarrow> it \<in> set items"
  by (cases d) (auto simp: rooted_0 rooted_Suc is_root_def dest: parents_items)

lemma rooted_root_iff: "unique_ids items \<Longrightarrow> rooted items d it \<Longrightarrow> has_parent items it \<longleftrightarrow> d \<noteq> 0"
  by (cases d) (auto simp: rooted_0 rooted_Suc is_root_def dest: parents_items)

lemma rooted_unique: "unique_ids items \<Longrightarrow> rooted items d it \<Longrightarrow> rooted items e it \<Longrightarrow> d = e"
proof (induction d arbitrary: e it)
  case 0
  then show ?case using rooted_root_iff by metis
next
  case (Suc d)
  then obtain e' where e: "e = Suc e'" using rooted_root_iff by (metis not0_implies_Suc nat.distinct(1))
  from Suc.prems(2) obtain p where p: "(it, p) \<in> parents items" "rooted items d p" by (auto simp: rooted_Suc)
  from Suc.prems(3) e obtain q where q: "(it, q) \<in> parents items" "rooted items e' q" by (auto simp: rooted_Suc)
  have "p = q" using parents_single [OF Suc.prems(1)] p(1) q(1) by (auto dest: single_valuedD)
  then show ?case using Suc.IH [OF Suc.prems(1) p(2)] q(2) e by auto
qed

lemma anchored_rooted: "anchored items it \<longleftrightarrow> (\<exists>d. rooted items d it)"
  by (auto simp: anchored_def rooted_def rtrancl_is_UN_relpow)

lemma rooted_above:
  "rooted items d it \<Longrightarrow> k \<le> d \<Longrightarrow> \<exists>p. (it, p) \<in> (parents items)\<^sup>* \<and> rooted items k p"
proof (induction d arbitrary: it)
  case 0
  then show ?case by auto
next
  case (Suc d)
  show ?case
  proof (cases "k = Suc d")
    case True
    with Suc.prems show ?thesis by auto
  next
    case False
    from Suc.prems(1) obtain p where p: "(it, p) \<in> parents items" "rooted items d p" by (auto simp: rooted_Suc)
    from Suc.IH [OF p(2)] Suc.prems(2) False obtain q where "(p, q) \<in> (parents items)\<^sup>*" "rooted items k q" by auto
    with p(1) show ?thesis by (meson converse_rtrancl_into_rtrancl)
  qed
qed

lemma rooted_bound:
  assumes u: "unique_ids items" and r: "rooted items d it"
  shows "d < length items"
proof -
  have "\<forall>k\<in>{..d}. \<exists>p. rooted items k p" using rooted_above [OF r] by blast
  then obtain f where f: "\<forall>k\<in>{..d}. rooted items k (f k)" by metis
  have inj: "inj_on f {..d}" by (rule inj_onI) (use f rooted_unique [OF u] in metis)
  have "card (f ` {..d}) \<le> card (set items)"
    by (rule card_mono) (use f rooted_in in auto)
  then have "Suc d \<le> card (set items)" using inj by (simp add: card_image)
  then show ?thesis using card_length [of items] by simp
qed

lemma above_rooted:
  assumes u: "unique_ids items" and "(x, a) \<in> (parents items)\<^sup>*" "rooted items d a"
  shows "\<exists>e. rooted items (d + e) x \<and> (e = 0 \<longrightarrow> x = a)"
  using assms(2)
proof (induction rule: converse_rtrancl_induct)
  case base
  show ?case by (rule exI [of _ 0]) (use assms(3) in simp)
next
  case (step y z)
  then obtain e where "rooted items (d + e) z" by blast
  then have "rooted items (d + Suc e) y" using step.hyps(1) by (auto simp: rooted_Suc)
  then show ?case by (intro exI [of _ "Suc e"]) simp
qed

lemma same_depth_ancestors:
  assumes u: "unique_ids items" and x: "(x, a) \<in> (parents items)\<^sup>*" "(x, b) \<in> (parents items)\<^sup>*"
    and d: "rooted items d a" "rooted items d b"
  shows "a = b"
proof -
  have eq: "v = w" if vw: "(v, w) \<in> (parents items)\<^sup>*" and dv: "rooted items d v" and dw: "rooted items d w" for v w
  proof -
    obtain e where e: "rooted items (d + e) v" "e = 0 \<longrightarrow> v = w" using above_rooted [OF u vw dw] by blast
    with rooted_unique [OF u dv e(1)] show ?thesis by simp
  qed
  from single_valued_confluent [OF parents_single [OF u] x] eq d show ?thesis by blast
qed

section \<open>Chains\<close>

text \<open>On an item that hangs from a root the guard of \<open>climb\<close> never stops the loop.\<close>

lemma above_uid:
  assumes "unique_ids items" "(it, a) \<in> (parents items)\<^sup>+" "rooted items d it"
  shows "it_uid a \<noteq> it_uid it" "a \<in> set items"
proof -
  obtain p where p: "(it, p) \<in> parents items" "(p, a) \<in> (parents items)\<^sup>*"
    using assms(2) by (meson tranclD)
  have a: "a \<in> set items" using assms(2) by (induction rule: trancl_induct) (auto dest: parents_items)
  then show "a \<in> set items" .
  show "it_uid a \<noteq> it_uid it"
  proof
    assume "it_uid a = it_uid it"
    with uid_inject [OF assms(1) a rooted_in [OF assms(3)]] have "a = it" by simp
    with p(2) obtain e where "rooted items (d + e) p" using above_rooted [OF assms(1)] assms(3) by blast
    with p(1) have "rooted items (Suc (d + e)) it" by (auto simp: rooted_Suc)
    with rooted_unique [OF assms(1,3)] show False by fastforce
  qed
qed

lemma climb_root:
  assumes "unique_ids items" "is_root items it" "it_uid it \<in> seen"
  shows "climb items seen (it_parent it) = []"
  using assms by (subst climb.simps) (auto simp: is_root_def has_parent_def split: option.split)

lemma climb_parent:
  assumes "unique_ids items" "(it, p) \<in> parents items" "it_uid p \<notin> seen"
  shows "climb items seen (it_parent it) = climb items (insert (it_uid p) seen) (it_parent p) @ [p]"
  using assms by (subst climb.simps) (auto simp: parents_def has_parent_def)

lemma climb_seen:
  assumes u: "unique_ids items"
  shows "rooted items d it \<Longrightarrow> it_uid it \<in> seen \<Longrightarrow> \<forall>a. (it, a) \<in> (parents items)\<^sup>+ \<longrightarrow> it_uid a \<notin> seen \<Longrightarrow>
         climb items seen (it_parent it) = item_chain items it"
proof (induction d arbitrary: it seen)
  case 0
  then show ?case unfolding item_chain_def by (simp add: climb_root [OF u] rooted_0)
next
  case (Suc d)
  then obtain p where p: "(it, p) \<in> parents items" and rp: "rooted items d p" by (auto simp: rooted_Suc)
  have up: "\<And>a. (p, a) \<in> (parents items)\<^sup>+ \<Longrightarrow> (it, a) \<in> (parents items)\<^sup>+"
    using p by (meson trancl_into_trancl2)
  have ps: "it_uid p \<notin> seen" using Suc.prems(3) p by blast
  have pi: "it_uid p \<notin> {it_uid it}" using above_uid(1) [OF u _ Suc.prems(1)] p by blast
  have above: "it_uid a \<noteq> it_uid p \<and> it_uid a \<noteq> it_uid it" if a: "(p, a) \<in> (parents items)\<^sup>+" for a
    using above_uid(1) [OF u a rp] above_uid(1) [OF u up [OF a] Suc.prems(1)] by blast
  have "climb items (insert (it_uid p) seen) (it_parent p) = item_chain items p"
    by (rule Suc.IH [OF rp]) (use above up Suc.prems(3) in auto)
  moreover have "climb items (insert (it_uid p) {it_uid it}) (it_parent p) = item_chain items p"
    by (rule Suc.IH [OF rp]) (use above in auto)
  ultimately show ?case
    using climb_parent [OF u p ps] climb_parent [OF u p pi] unfolding item_chain_def by simp
qed

lemma item_chain_root: "unique_ids items \<Longrightarrow> is_root items it \<Longrightarrow> item_chain items it = []"
  unfolding item_chain_def by (simp add: climb_root)

lemma item_chain_parent:
  assumes u: "unique_ids items" and p: "(it, p) \<in> parents items" and r: "rooted items d p"
  shows "item_chain items it = item_chain items p @ [p]"
proof -
  have ri: "rooted items (Suc d) it" using p r by (auto simp: rooted_Suc)
  have up: "\<And>a. (p, a) \<in> (parents items)\<^sup>+ \<Longrightarrow> (it, a) \<in> (parents items)\<^sup>+"
    using p by (meson trancl_into_trancl2)
  have "it_uid p \<notin> {it_uid it}" using above_uid(1) [OF u _ ri] p by blast
  from climb_parent [OF u p this]
  have "item_chain items it = climb items (insert (it_uid p) {it_uid it}) (it_parent p) @ [p]"
    by (simp add: item_chain_def)
  moreover have "climb items (insert (it_uid p) {it_uid it}) (it_parent p) = item_chain items p"
    by (rule climb_seen [OF u r]) (use above_uid(1) [OF u _ r] above_uid(1) [OF u up ri] in auto)
  ultimately show ?thesis by simp
qed

lemma path_key_above:
  assumes u: "unique_ids items" and x: "(x, a) \<in> (parents items)\<^sup>*" and r: "rooted items d a"
  shows "\<exists>w. path_key items x = path_key items a @ w \<and> (w = [] \<longrightarrow> x = a)"
  using x
proof (induction rule: converse_rtrancl_induct)
  case base
  show ?case by simp
next
  case (step y z)
  then obtain w e where w: "path_key items z = path_key items a @ w" and e: "rooted items (d + e) z"
    using above_rooted [OF u _ r] by blast
  have "path_key items y = path_key items z @ [sort_pair y]"
    using item_chain_parent [OF u step.hyps(1) e] by (simp add: path_key_def)
  with w show ?case by simp
qed

lemma append_less: "a < b \<Longrightarrow> w @ a # r < w @ b # r'" for a :: "'a::linorder"
  by (induction w) auto

lemma sort_siblings_set [simp]: "set (sort_siblings its) = set its" "length (sort_siblings its) = length its"
  by (simp_all add: sort_siblings_def)

lemma sort_siblings_distinct [simp]: "distinct (sort_siblings its) = distinct its"
  by (simp add: sort_siblings_def)

lemma sort_siblings_sorted: "sorted (map sort_pair (sort_siblings its))"
proof -
  have "sorted_wrt (\<lambda>x y. it_uid x \<le> it_uid y) (sort_key it_uid its)"
    using sorted_sort_key [of it_uid its] by (simp add: sorted_map)
  then have "sorted_wrt (\<lambda>x y. it_rank x < it_rank y \<or> it_rank x = it_rank y \<and> it_uid x \<le> it_uid y) (sort_siblings its)"
    unfolding sort_siblings_def by (rule sort_key_lex)
  then show ?thesis
    unfolding sorted_map by (rule sorted_wrt_mono_rel [rotated]) (auto simp: sort_pair_def less_eq_prod_def)
qed

section \<open>What the tree holds\<close>

definition below :: "coll_item list \<Rightarrow> coll_item list \<Rightarrow> coll_item set" where
  "below items its = {x. \<exists>a\<in>set its. (x, a) \<in> (parents items)\<^sup>*}"

lemma below_Nil [simp]: "below items [] = {}"
  by (simp add: below_def)

lemma below_Cons: 
  assumes u: "unique_ids items" and "it \<in> set items"
  shows "below items (it # rest) = insert it (below items (children_of items (it_uid it))) \<union> below items rest"
proof -
  have "(x, it) \<in> (parents items)\<^sup>* \<longleftrightarrow> x = it \<or> (\<exists>c\<in>set (children_of items (it_uid it)). (x, c) \<in> (parents items)\<^sup>*)" for x
  proof
    assume "(x, it) \<in> (parents items)\<^sup>*"
    then show "x = it \<or> (\<exists>c\<in>set (children_of items (it_uid it)). (x, c) \<in> (parents items)\<^sup>*)"
      by (cases rule: rtranclE) (auto simp: children_parents [OF assms])
  next
    assume "x = it \<or> (\<exists>c\<in>set (children_of items (it_uid it)). (x, c) \<in> (parents items)\<^sup>*)"
    then show "(x, it) \<in> (parents items)\<^sup>*"
      by (auto simp: children_parents [OF assms] intro: rtrancl_into_rtrancl)
  qed
  then show ?thesis by (auto simp: below_def)
qed

lemma flat_nodes_simps [simp]:
  "flat_nodes [] = []" "flat_nodes (n # ns) = flat_node n @ flat_nodes ns"
  by (simp_all add: flat_nodes_def)

lemma flat_node_flat [simp]: "flat_node (Node it cs) = it # flat_nodes cs"
  by (simp add: flat_nodes_def)

declare flat_node.simps [simp del]

lemma less_append: "w < w @ b # r" for w :: "'a::linorder list"
  by (induction w) auto

lemma build_nodes_spec:
  assumes u: "unique_ids items"
  shows "\<forall>x\<in>set its. rooted items d x \<Longrightarrow> distinct its \<Longrightarrow> sorted (map sort_pair its) \<Longrightarrow>
    \<forall>x\<in>set its. item_chain items x = w \<Longrightarrow>
    \<exists>ns. build_nodes items its = Some ns \<and> map node_item ns = its \<and> set (flat_nodes ns) = below items its
       \<and> sorted_wrt (<) (map (path_key items) (flat_nodes ns))"
proof (induction "length items - d" arbitrary: d its w rule: less_induct)
  case less
  note outer = less.hyps
  show ?case using less.prems
  proof (induction its)
    case Nil
    then show ?case by (simp add: build_nodes.simps)
  next
    case (Cons it rest)
    let ?cs = "sort_siblings (children_of items (it_uid it))"
    have ri: "rooted items d it" using Cons.prems(1) by simp
    have it: "it \<in> set items" using rooted_in [OF ri] .
    have cp: "\<And>c. c \<in> set ?cs \<Longrightarrow> (c, it) \<in> parents items" by (simp add: children_parents [OF u it])
    have cr: "\<forall>c\<in>set ?cs. rooted items (Suc d) c" using cp ri by (auto simp: rooted_Suc)
    have dc: "distinct ?cs" using u by (simp add: children_of_filter unique_ids_def distinct_map)
    have cc: "\<forall>c\<in>set ?cs. item_chain items c = item_chain items it @ [it]"
      using item_chain_parent [OF u cp ri] by blast
    have "length items - Suc d < length items - d" using rooted_bound [OF u ri] by simp
    from outer [OF this cr dc sort_siblings_sorted cc] obtain cs where cs:
      "build_nodes items ?cs = Some cs" "set (flat_nodes cs) = below items ?cs"
      "sorted_wrt (<) (map (path_key items) (flat_nodes cs))" by blast
    have "\<exists>ns. build_nodes items rest = Some ns \<and> map node_item ns = rest \<and> set (flat_nodes ns) = below items rest
       \<and> sorted_wrt (<) (map (path_key items) (flat_nodes ns))"
      by (rule Cons.IH) (use Cons.prems in auto)
    then obtain ns where ns: "build_nodes items rest = Some ns" "map node_item ns = rest"
      "set (flat_nodes ns) = below items rest" "sorted_wrt (<) (map (path_key items) (flat_nodes ns))" by blast
    have desc: "\<exists>v. path_key items x = map sort_pair w @ sort_pair it # v" if "x \<in> insert it (below items ?cs)" for x
    proof -
      have "(x, it) \<in> (parents items)\<^sup>*" using that cp by (auto simp: below_def intro: rtrancl_into_rtrancl)
      from path_key_above [OF u this ri] obtain v where "path_key items x = path_key items it @ v" by blast
      then show ?thesis using Cons.prems(4) by (simp add: path_key_def)
    qed
    have own: "path_key items it < path_key items x" if "x \<in> below items ?cs" for x
    proof -
      from that obtain c where c: "c \<in> set ?cs" "(x, c) \<in> (parents items)\<^sup>*" by (auto simp: below_def)
      obtain v where "path_key items x = path_key items c @ v"
        using path_key_above [OF u c(2)] cr c(1) by blast
      then show ?thesis using cc c(1) less_append [of "path_key items it"] by (simp add: path_key_def)
    qed
    have other: "path_key items x < path_key items y"
      if x: "x \<in> insert it (below items ?cs)" and y: "y \<in> below items rest" for x y
    proof -
      from y obtain a where a: "a \<in> set rest" "(y, a) \<in> (parents items)\<^sup>*" by (auto simp: below_def)
      have ra: "rooted items d a" using Cons.prems(1) a(1) by simp
      obtain v where v: "path_key items y = path_key items a @ v" using path_key_above [OF u a(2) ra] by blast
      have "a \<noteq> it" using Cons.prems(2) a(1) by auto
      then have "it_uid a \<noteq> it_uid it" using uid_inject [OF u rooted_in [OF ra] it] by blast
      moreover have "sort_pair it \<le> sort_pair a" using Cons.prems(3) a(1) by simp
      ultimately have "sort_pair it < sort_pair a" by (auto simp: sort_pair_def less_eq_prod_def less_prod_def)
      moreover obtain v' where "path_key items x = map sort_pair w @ sort_pair it # v'" using desc [OF x] by blast
      ultimately show ?thesis using v Cons.prems(4) a(1) by (simp add: path_key_def append_less)
    qed
    have "build_nodes items (it # rest) = Some (Node it cs # ns)"
      using cs(1) ns(1) by (subst build_nodes.simps) simp
    moreover have "set (flat_nodes (Node it cs # ns)) = below items (it # rest)"
      using cs(2) ns(3) by (simp add: below_Cons [OF u it]) (auto simp: below_def)
    moreover have "sorted_wrt (<) (map (path_key items) (flat_nodes (Node it cs # ns)))"
    proof -
      have "\<forall>x\<in>set (flat_nodes cs). path_key items it < path_key items x" using own cs(2) by blast
      moreover have "\<forall>x\<in>insert it (set (flat_nodes cs)). \<forall>y\<in>set (flat_nodes ns). path_key items x < path_key items y"
        using other cs(2) ns(3) by blast
      ultimately show ?thesis using cs(3) ns(4) by (auto simp: sorted_wrt_append)
    qed
    ultimately show ?case using ns(2) by (intro exI [of _ "Node it cs # ns"]) simp
  qed
qed

lemma build_tree_spec:
  assumes u: "unique_ids items"
  shows "\<exists>ns. build_tree items = Some ns \<and> map node_item ns = sort_siblings (roots_of items)
       \<and> set (flat_nodes ns) = {it \<in> set items. anchored items it}
       \<and> sorted_wrt (<) (map (path_key items) (flat_nodes ns))"
proof -
  let ?r = "sort_siblings (roots_of items)"
  have r: "set ?r = {it. is_root items it}" by (auto simp: roots_of_filter [OF u] is_root_def)
  have d: "distinct ?r" using u by (simp add: roots_of_filter unique_ids_def distinct_map)
  have "\<exists>ns. build_nodes items ?r = Some ns \<and> map node_item ns = ?r \<and> set (flat_nodes ns) = below items ?r
       \<and> sorted_wrt (<) (map (path_key items) (flat_nodes ns))"
    by (rule build_nodes_spec [OF u, of _ 0 "[]"])
       (use r d item_chain_root [OF u] in \<open>auto simp: rooted_0 sort_siblings_sorted\<close>)
  moreover have "below items ?r = {it \<in> set items. anchored items it}"
    unfolding below_def r by (auto simp: anchored_def) (meson anchored_def anchored_rooted rooted_in)
  ultimately show ?thesis by (simp add: build_tree_def)
qed

text \<open>Every node of a built tree carries the built tree of its children.\<close>

fun deep :: "coll_item list \<Rightarrow> coll_node \<Rightarrow> bool" where
  "deep items (Node it cs) \<longleftrightarrow>
     build_nodes items (sort_siblings (children_of items (it_uid it))) = Some cs \<and> (\<forall>c\<in>set cs. deep items c)"

lemma build_nodes_deep: "build_nodes items its = Some ns \<Longrightarrow> n \<in> set ns \<Longrightarrow> deep items n"
proof (induction ns arbitrary: its n rule: measure_induct_rule [of "size_list size"])
  case (less ns)
  show ?case
  proof (cases its)
    case Nil
    with less.prems show ?thesis by (simp add: build_nodes.simps)
  next
    case (Cons it rest)
    with less.prems(1) obtain cs ns' where
      cs: "build_nodes items (sort_siblings (children_of items (it_uid it))) = Some cs"
      and ns': "build_nodes items rest = Some ns'" and ns: "ns = Node it cs # ns'"
      by (subst (asm) build_nodes.simps) (auto simp: bind_eq_Some_conv)
    have "\<forall>c\<in>set cs. deep items c" using less.IH [of cs] cs ns by simp
    moreover have "n \<in> set ns' \<Longrightarrow> deep items n" using less.IH [of ns'] ns' ns by simp
    ultimately show ?thesis using less.prems(2) ns cs by auto
  qed
qed

lemma find_nodes_spec:
  "(case find_node n u of
      Some f \<Rightarrow> it_uid (node_item f) = u \<and> node_item f \<in> set (flat_node n) \<and> (deep items n \<longrightarrow> deep items f)
    | None \<Rightarrow> u \<notin> it_uid ` set (flat_node n))"
  "(case find_nodes ns u of
      Some f \<Rightarrow> it_uid (node_item f) = u \<and> node_item f \<in> set (flat_nodes ns)
        \<and> ((\<forall>n\<in>set ns. deep items n) \<longrightarrow> deep items f)
    | None \<Rightarrow> u \<notin> it_uid ` set (flat_nodes ns))"
  by (induction n u and ns u rule: find_node_find_nodes.induct) (auto split: option.splits)

lemma below_children:
  assumes u: "unique_ids items" and f: "f \<in> set items"
  shows "below items (sort_siblings (children_of items (it_uid f))) = {x. (x, f) \<in> (parents items)\<^sup>+}"
  unfolding below_def
  using children_parents [OF u f] by (auto intro: rtrancl_into_trancl1) (meson tranclD2)

lemma anchored_above: "anchored items a \<Longrightarrow> (x, a) \<in> (parents items)\<^sup>* \<Longrightarrow> anchored items x"
  unfolding anchored_def by (meson rtrancl_trans)

lemma anchored_below: "unique_ids items \<Longrightarrow> anchored items x \<Longrightarrow> (x, a) \<in> (parents items)\<^sup>* \<Longrightarrow> anchored items a"
proof -
  assume u: "unique_ids items" and x: "anchored items x" and a: "(x, a) \<in> (parents items)\<^sup>*"
  from x obtain r where r: "(x, r) \<in> (parents items)\<^sup>*" "is_root items r" by (auto simp: anchored_def)
  from single_valued_confluent [OF parents_single [OF u] a r(1)] show ?thesis
  proof
    assume "(a, r) \<in> (parents items)\<^sup>*"
    with r(2) show ?thesis by (auto simp: anchored_def)
  next
    assume "(r, a) \<in> (parents items)\<^sup>*"
    then have "a = r" using r(2) by (cases rule: converse_rtranclE) (auto simp: is_root_def dest: parents_items)
    with r(2) show ?thesis by (auto simp: anchored_def)
  qed
qed

lemma folder_requests:
  assumes u: "unique_ids items" and t: "build_tree items = Some ns"
  shows "\<exists>all. (case find_nodes ns folder of None \<Rightarrow> []
      | Some f \<Rightarrow> if it_kind (node_item f) = ''folder'' then walk_requests (node_children f) else []) = all
    \<and> set all = {it \<in> set items. it_kind it = ''request'' \<and> anchored items it
        \<and> (\<exists>f\<in>set items. it_uid f = folder \<and> it_kind f = ''folder'' \<and> (it, f) \<in> (parents items)\<^sup>+)}
    \<and> sorted_wrt (<) (map (path_key items) all)"
proof -
  from build_tree_spec [OF u] t have fl: "set (flat_nodes ns) = {it \<in> set items. anchored items it}" by auto
  have dp: "\<forall>n\<in>set ns. deep items n" using build_nodes_deep t by (auto simp: build_tree_def)
  show ?thesis
  proof (cases "find_nodes ns folder")
    case None
    with find_nodes_spec(2) [where ns = ns and u = folder and items = items]
    have "folder \<notin> it_uid ` set (flat_nodes ns)" by simp
    then have no: "\<not> anchored items f" if "f \<in> set items" "it_uid f = folder" for f
      using that fl by auto
    have "\<not> (f \<in> set items \<and> it_uid f = folder \<and> anchored items x \<and> (x, f) \<in> (parents items)\<^sup>+)" for x f
      using no anchored_below [OF u, of x f] trancl_into_rtrancl [of x f] by blast
    then have "{it \<in> set items. it_kind it = ''request'' \<and> anchored items it
        \<and> (\<exists>f\<in>set items. it_uid f = folder \<and> it_kind f = ''folder'' \<and> (it, f) \<in> (parents items)\<^sup>+)} = {}"
      by blast
    then show ?thesis using None by simp
  next
    case (Some f)
    obtain it cs where f: "f = Node it cs" by (cases f)
    from find_nodes_spec(2) [where ns = ns and u = folder and items = items] Some dp
    have "it_uid (node_item f) = folder \<and> node_item f \<in> set (flat_nodes ns) \<and> deep items f" by simp
    note ff = this
    have it: "it_uid it = folder" "it \<in> set items" "anchored items it" using ff f fl by simp_all
    have cs: "build_nodes items (sort_siblings (children_of items (it_uid it))) = Some cs" 
      using ff unfolding f deep.simps coll_node.sel by (elim conjE)
    from it(3) obtain d where d: "rooted items d it" by (auto simp: anchored_rooted)
    have "\<exists>cs'. build_nodes items (sort_siblings (children_of items (it_uid it))) = Some cs' \<and>
        map node_item cs' = sort_siblings (children_of items (it_uid it)) \<and>
        set (flat_nodes cs') = below items (sort_siblings (children_of items (it_uid it))) \<and>
        sorted_wrt (<) (map (path_key items) (flat_nodes cs'))"
    proof (rule build_nodes_spec [OF u, of _ "Suc d" "item_chain items it @ [it]"])
      show "\<forall>x\<in>set (sort_siblings (children_of items (it_uid it))). rooted items (Suc d) x"
        using d by (auto simp: children_parents [OF u it(2)] rooted_Suc)
      show "distinct (sort_siblings (children_of items (it_uid it)))"
        using u by (simp add: children_of_filter unique_ids_def distinct_map)
      show "\<forall>x\<in>set (sort_siblings (children_of items (it_uid it))). item_chain items x = item_chain items it @ [it]"
        using item_chain_parent [OF u _ d] by (simp add: children_parents [OF u it(2)])
    qed (rule sort_siblings_sorted)
    with cs have s: "set (flat_nodes cs) = {x. (x, it) \<in> (parents items)\<^sup>+}"
      "sorted_wrt (<) (map (path_key items) (flat_nodes cs))" by (auto simp: below_children [OF u it(2)])
    have un: "\<And>f. f \<in> set items \<Longrightarrow> it_uid f = folder \<Longrightarrow> f = it"
      by (rule uid_inject [OF u _ it(2)]) (simp_all add: it(1))
    have "set (walk_requests cs) = {x \<in> set items. it_kind x = ''request'' \<and> anchored items x \<and> (x, it) \<in> (parents items)\<^sup>+}"
    proof -
      have "x \<in> set items \<and> anchored items x" if "(x, it) \<in> (parents items)\<^sup>+" for x
        using that anchored_above [OF it(3) trancl_into_rtrancl [OF that]] tranclD [OF that] parents_items by blast
      then show ?thesis using s(1) unfolding walk_requests_def by simp blast
    qed
    moreover have "sorted_wrt (<) (map (path_key items) (walk_requests cs))"
      using s(2) by (auto simp: walk_requests_def sorted_wrt_map intro: sorted_wrt_filter)
    moreover have "(\<exists>f\<in>set items. it_uid f = folder \<and> it_kind f = ''folder'' \<and> (x, f) \<in> (parents items)\<^sup>+)
        \<longleftrightarrow> it_kind it = ''folder'' \<and> (x, it) \<in> (parents items)\<^sup>+" for x
      using un it(1,2) by blast
    ultimately show ?thesis using Some f by simp
  qed
qed

lemma by_uid_mset:
  assumes "unique_ids items" "mset items' = mset items"
  shows "by_uid items' = by_uid items" "unique_ids items'"
proof -
  show u: "unique_ids items'"
    using assms by (metis mset_map mset_eq_imp_distinct_iff unique_ids_def)
  have "by_uid items' x = by_uid items x" for x
    using by_uid_iff [OF assms(1)] by_uid_iff [OF u] mset_eq_setD [OF assms(2)] by (metis not_Some_eq)
  then show "by_uid items' = by_uid items" by (rule ext)
qed

lemma climb_by_uid: "by_uid items' = by_uid items \<Longrightarrow> climb items' seen p = climb items seen p"
proof (induction items seen p rule: climb.induct)
  case (1 items seen p)
  then show ?case by (subst (1 2) climb.simps) (auto split: option.split)
qed

lemma tree_mset:
  assumes "unique_ids items" "mset items' = mset items"
  shows "set items' = set items" "parents items' = parents items" "anchored items' = anchored items"
    "path_key items' = path_key items"
proof -
  show s: "set items' = set items" by (rule mset_eq_setD [OF assms(2)])
  have hp: "has_parent items' = has_parent items"
    by (rule ext) (simp add: has_parent_def by_uid_mset(1) [OF assms])
  show p: "parents items' = parents items" by (simp add: parents_def s hp)
  show "anchored items' = anchored items" by (rule ext) (simp add: anchored_def p is_root_def s hp)
  show "path_key items' = path_key items"
    by (rule ext) (simp add: path_key_def item_chain_def climb_by_uid [OF by_uid_mset(1) [OF assms]])
qed

section \<open>The plan\<close>

definition selected :: "coll_item list \<Rightarrow> string \<Rightarrow> coll_item \<Rightarrow> bool" where
  "selected items folder it \<longleftrightarrow>
     it \<in> set items \<and> it_kind it = ''request'' \<and> anchored items it
     \<and> (folder \<noteq> [] \<longrightarrow>
          (\<exists>f\<in>set items. it_uid f = folder \<and> it_kind f = ''folder'' \<and> (it, f) \<in> (parents items)\<^sup>+))"

definition planned :: "coll_item list \<Rightarrow> string \<Rightarrow> string list \<Rightarrow> coll_item \<Rightarrow> bool" where
  "planned items folder pick it \<longleftrightarrow> selected items folder it \<and> (pick \<noteq> [] \<longrightarrow> it_uid it \<in> set pick)"

lemma plan_items_spec:
  assumes u: "unique_ids items"
  shows "\<exists>plan. plan_items items folder pick = Some plan \<and> set plan = Collect (planned items folder pick)
    \<and> sorted_wrt (<) (map (path_key items) plan)"
proof -
  obtain ns where t: "build_tree items = Some ns" and fl: "set (flat_nodes ns) = {it \<in> set items. anchored items it}"
    and so: "sorted_wrt (<) (map (path_key items) (flat_nodes ns))" using build_tree_spec [OF u] by blast
  define all where "all = (if folder = [] then walk_requests ns
      else case find_nodes ns folder of None \<Rightarrow> []
        | Some f \<Rightarrow> if it_kind (node_item f) = ''folder'' then walk_requests (node_children f) else [])"
  have all: "set all = Collect (selected items folder) \<and> sorted_wrt (<) (map (path_key items) all)"
  proof (cases "folder = []")
    case True
    then have "all = walk_requests ns" by (simp add: all_def)
    moreover have "sorted_wrt (<) (map (path_key items) (walk_requests ns))"
      using so by (simp add: walk_requests_def sorted_wrt_map sorted_wrt_filter)
    moreover have "set (walk_requests ns) = {it \<in> set items. it_kind it = ''request'' \<and> anchored items it}"
      unfolding walk_requests_def set_filter fl by blast
    ultimately show ?thesis using True by (simp add: selected_def [abs_def])
  next
    case False
    then have e: "(case find_nodes ns folder of None \<Rightarrow> []
        | Some f \<Rightarrow> if it_kind (node_item f) = ''folder'' then walk_requests (node_children f) else []) = all"
      by (simp add: all_def)
    have "Collect (selected items folder) = {it \<in> set items. it_kind it = ''request'' \<and> anchored items it
        \<and> (\<exists>f\<in>set items. it_uid f = folder \<and> it_kind f = ''folder'' \<and> (it, f) \<in> (parents items)\<^sup>+)}"
      using False by (simp add: selected_def [abs_def])
    with folder_requests [OF u t, of folder] show ?thesis unfolding e by simp
  qed
  have p: "plan_items items folder pick = Some (if pick = [] then all else filter (\<lambda>it. it_uid it \<in> set pick) all)"
    unfolding plan_items_def Let_def t all_def by simp
  have so': "sorted_wrt (<) (map (path_key items) (filter (\<lambda>it. it_uid it \<in> set pick) all))"
    using all by (simp add: sorted_wrt_map sorted_wrt_filter)
  have "Collect (planned items folder pick) = {it \<in> Collect (selected items folder). pick \<noteq> [] \<longrightarrow> it_uid it \<in> set pick}"
    by (simp add: planned_def [abs_def])
  with all so' show ?thesis unfolding p by simp
qed

lemma sorted_keys_unique:
  "sorted_wrt (<) (map f xs) \<Longrightarrow> sorted_wrt (<) (map f ys) \<Longrightarrow> set xs = set ys \<Longrightarrow> xs = ys"
  for f :: "'a \<Rightarrow> 'b::linorder"
proof -
  assume a: "sorted_wrt (<) (map f xs)" "sorted_wrt (<) (map f ys)" and s: "set xs = set ys"
  have "map f xs = map f ys"
    by (rule sorted_distinct_set_unique) (use a s in \<open>auto simp: strict_sorted_iff\<close>)
  moreover have "inj_on f (set xs)" using a(1) by (simp add: strict_sorted_iff distinct_map)
  ultimately show ?thesis using s by (metis map_inj_on Un_absorb)
qed

text \<open>
  (C28) The plan of a run. Over items with distinct ids \<open>PlanItems\<close> returns; it selects exactly the
  requests that hang from a root, lie below the chosen folder when one is named and are picked when there
  is a pick, each once; and it runs them in tree order: in the lexicographic order of the ranks and ids
  on the way from the root. The order in which the store lists the items has no influence.
\<close>

theorem plan_is_tree_order:
  assumes "unique_ids items"
  shows "\<exists>plan. plan_items items folder pick = Some plan \<and> distinct plan
    \<and> set plan = Collect (planned items folder pick)
    \<and> sorted_wrt (<) (map (path_key items) plan)
    \<and> (\<forall>items'. mset items' = mset items \<longrightarrow> plan_items items' folder pick = Some plan)"
proof -
  obtain plan where p: "plan_items items folder pick = Some plan" "set plan = Collect (planned items folder pick)"
    "sorted_wrt (<) (map (path_key items) plan)" using plan_items_spec [OF assms] by blast
  have "plan_items items' folder pick = Some plan" if m: "mset items' = mset items" for items'
  proof -
    note same = tree_mset [OF assms m]
    obtain plan' where p': "plan_items items' folder pick = Some plan'" "set plan' = Collect (planned items' folder pick)"
      "sorted_wrt (<) (map (path_key items') plan')" using plan_items_spec [OF by_uid_mset(2) [OF assms m]] by blast
    have "planned items' folder pick = planned items folder pick"
      by (rule ext) (simp add: planned_def selected_def same)
    with p p' same(4) have "plan' = plan" by (metis sorted_keys_unique)
    with p'(1) show ?thesis by simp
  qed
  moreover have "distinct plan" using p(3) by (auto simp: strict_sorted_iff distinct_map)
  ultimately show ?thesis using p by blast
qed

definition demo_coll_item :: "string \<Rightarrow> string \<Rightarrow> string \<Rightarrow> string \<Rightarrow> coll_item" where
  "demo_coll_item u p k r = \<lparr>it_uid = u, it_parent = p, it_kind = k, it_rank = r, it_name = u, it_method = ''GET'', it_events = []\<rparr>"

definition demo_items :: "coll_item list" where
  "demo_items = [demo_coll_item ''r2'' ''f'' ''request'' ''b'', demo_coll_item ''r1'' ''f'' ''request'' ''a'',
     demo_coll_item ''f'' [] ''folder'' ''m'', demo_coll_item ''r0'' ''gone'' ''request'' ''c'',
     demo_coll_item ''x'' ''y'' ''request'' ''a'', demo_coll_item ''y'' ''x'' ''folder'' ''a'']"

text \<open>
  The witness has a folder with two requests out of order, a request whose parent is missing, and two
  items that are each other's parent and appear in no plan.
\<close>

theorem plan_is_tree_order_witness:
  "\<exists>plan. plan_items demo_items [] [] = Some plan \<and> map it_uid plan = [''r0'', ''r1'', ''r2'']
     \<and> sorted_wrt (<) (map (path_key demo_items) plan) \<and> plan_items (rev demo_items) [] [] = Some plan"
proof -
  have u: "unique_ids demo_items" by code_simp
  have "map_option (map it_uid) (plan_items demo_items [] []) = Some [''r0'', ''r1'', ''r2'']" by code_simp
  with plan_is_tree_order [OF u, of "[]" "[]"] show ?thesis by auto
qed

text \<open>The folders of a request's chain are its way down the tree, and its path is their names.\<close>

lemma chain_of_planned:
  assumes u: "unique_ids items" and it: "anchored items it" "it_kind it \<noteq> ''folder''"
  shows "chain_from_items items (it_uid it) = Inr \<lparr>ch_folders = item_chain items it, ch_item = it\<rparr>
    \<and> folder_path items (it_uid it) = str_join '' / '' (map it_name (item_chain items it))
    \<and> (\<forall>i < length (item_chain items it).
         ((item_chain items it @ [it]) ! Suc i, (item_chain items it @ [it]) ! i) \<in> parents items)
    \<and> is_root items (hd (item_chain items it @ [it]))"
proof -
  from it(1) obtain d where d: "rooted items d it" by (auto simp: anchored_rooted)
  have "(\<forall>i < length (item_chain items it).
         ((item_chain items it @ [it]) ! Suc i, (item_chain items it @ [it]) ! i) \<in> parents items)
    \<and> is_root items (hd (item_chain items it @ [it]))"
    using d
  proof (induction d arbitrary: it)
    case 0
    then show ?case by (simp add: rooted_0 item_chain_root [OF u])
  next
    case (Suc d)
    then obtain p where p: "(it, p) \<in> parents items" "rooted items d p" by (auto simp: rooted_Suc)
    note c = item_chain_parent [OF u p]
    from Suc.IH [OF p(2)] p(1) show ?case
      unfolding c by (auto simp: nth_append less_Suc_eq hd_append split: if_splits)
  qed
  with it rooted_in [OF d] show ?thesis
    by (simp add: chain_from_items_def folder_path_def by_uid_self [OF u] item_chain_def)
qed

text \<open>An id wins over a name; a target that is found is an index of the plan.\<close>

lemma find_from_Some: "find_from i P its = Some j \<Longrightarrow> i \<le> j \<and> j - i < length its \<and> P (its ! (j - i))"
  by (induction i P its rule: find_from.induct) (fastforce split: if_splits simp: Suc_diff_le nth_Cons')+

lemma next_index_Some:
  "next_index plan t = Some j \<Longrightarrow> j < length plan \<and> (it_uid (plan ! j) = t \<or> it_name (plan ! j) = t)"
  unfolding next_index_def by (auto split: option.splits dest: find_from_Some)

end
