(* ===== verification/CollScripts.thy ===== *)
theory CollScripts
  imports CollTree
begin

text \<open>
  The scripts of a collection and their trust: \<open>ScriptHash\<close>, \<open>EventSources\<close> and
  \<open>UntrustedScripts\<close> of \<open>internal/collection/collection.go\<close>, the preflight of a run in
  \<open>internal/collrun/trust.go\<close>, and the script chain and trust gate of a step in
  \<open>internal/collexec/model.go\<close> and \<open>step.go\<close>. What \<open>json.Unmarshal\<close> reads from the stored columns
  and the digest are parameters.
\<close>

section \<open>Hashes\<close>

definition write_part :: "string \<Rightarrow> string list \<Rightarrow> string" where
  "write_part tag parts = tag @ concat (map (Cons (CHR 0x00)) parts) @ [CHR 0x01]"

definition hash_input :: "string \<Rightarrow> string list \<Rightarrow> string list \<Rightarrow> string" where
  "hash_input source libs caps =
     write_part ''src'' [source] @ write_part ''libs'' (sort libs) @ write_part ''caps'' (sort caps)"

definition script_hash :: "(string \<Rightarrow> string) \<Rightarrow> string \<Rightarrow> string list \<Rightarrow> string list \<Rightarrow> string" where
  "script_hash sha source libs caps = sha (hash_input source libs caps)"

section \<open>Scripts in the stored columns\<close>

text \<open>
  One element of an events column; \<open>se_exec\<close> is the source as a list of lines, a single string being a list
  of one, and \<open>None\<close> when it is neither.
\<close>

record script_event =
  se_listen :: string
  se_disabled :: bool
  se_exec :: "string list option"

text \<open>The decoder: an events column, and a capability column as a list of names or as a map.\<close>

record script_decoder =
  sd_events :: "string \<Rightarrow> script_event list option"
  sd_cap_list :: "string \<Rightarrow> string list option"
  sd_cap_map :: "string \<Rightarrow> (string \<times> bool) list option"
  sd_sha :: "string \<Rightarrow> string"

record collection =
  co_uid :: string
  co_name :: string
  co_events :: string
  co_caps :: string
  co_scope_policy :: string

record script_ref =
  sf_owner :: string
  sf_name :: string
  sf_item :: string
  sf_listen :: string
  sf_source :: string
  sf_hash :: string

text \<open>\<open>EventSources\<close> and \<open>UntrustedScripts\<close>: every script of a column, disabled or blank ones too.\<close>

definition event_sources :: "script_decoder \<Rightarrow> string \<Rightarrow> string list" where
  "event_sources sd events =
     (if events = [] then []
      else case sd_events sd events of
             None \<Rightarrow> []
           | Some evs \<Rightarrow>
               List.map_filter
                 (\<lambda>e. map_option (\<lambda>ls. se_listen e @ CHR 0x0A # str_join [CHR 0x0A] ls) (se_exec e)) evs)"

fun untrusted_hashes :: "(string \<Rightarrow> 'e + bool) \<Rightarrow> string list \<Rightarrow> 'e + string list" where
  "untrusted_hashes trust [] = Inr []"
| "untrusted_hashes trust (h # hs) =
     (case trust h of
        Inl e \<Rightarrow> Inl e
      | Inr ok \<Rightarrow>
          (case untrusted_hashes trust hs of Inl e \<Rightarrow> Inl e | Inr out \<Rightarrow> Inr (if ok then out else h # out)))"

definition untrusted_scripts ::
    "script_decoder \<Rightarrow> (string \<Rightarrow> string \<Rightarrow> 'e + bool) \<Rightarrow> string \<Rightarrow> string \<Rightarrow> string list \<Rightarrow> 'e + string list" where
  "untrusted_scripts sd trust coll events caps =
     untrusted_hashes (trust coll) (map (\<lambda>src. script_hash (sd_sha sd) src [] caps) (event_sources sd events))"

text \<open>\<open>capNames\<close> sorts the names of the map form, \<open>capSet\<close> takes them as the map yields them.\<close>

definition cap_names :: "script_decoder \<Rightarrow> string \<Rightarrow> string list" where
  "cap_names sd raw =
     (case sd_cap_list sd raw of
        Some names \<Rightarrow> names
      | None \<Rightarrow> (case sd_cap_map sd raw of Some m \<Rightarrow> sort (map fst (filter snd m)) | None \<Rightarrow> []))"

definition cap_set :: "script_decoder \<Rightarrow> string \<Rightarrow> string list" where
  "cap_set sd raw =
     (case sd_cap_list sd raw of
        Some names \<Rightarrow> names
      | None \<Rightarrow> (case sd_cap_map sd raw of Some m \<Rightarrow> map fst (filter snd m) | None \<Rightarrow> []))"

definition event_ref ::
    "script_decoder \<Rightarrow> string \<Rightarrow> string \<Rightarrow> string \<Rightarrow> string list \<Rightarrow> script_event \<Rightarrow> script_ref option" where
  "event_ref sd owner name item caps e =
     (case se_exec e of
        None \<Rightarrow> None
      | Some ls \<Rightarrow>
          (let src = str_join [CHR 0x0A] ls in
           if trim_space src = [] then None
           else Some \<lparr>sf_owner = owner, sf_name = name, sf_item = item, sf_listen = se_listen e, sf_source = src,
                      sf_hash = script_hash (sd_sha sd) (se_listen e @ CHR 0x0A # src) [] caps\<rparr>))"

text \<open>\<open>eventRefs\<close> of the preflight.\<close>

definition event_refs ::
    "script_decoder \<Rightarrow> string \<Rightarrow> string \<Rightarrow> string \<Rightarrow> string \<Rightarrow> string list \<Rightarrow> script_ref list" where
  "event_refs sd owner name item events caps =
     (if events = [] then []
      else case sd_events sd events of
             None \<Rightarrow> []
           | Some evs \<Rightarrow>
               List.map_filter
                 (\<lambda>e. if se_disabled e \<or> se_listen e \<noteq> ''prerequest'' \<and> se_listen e \<noteq> ''test'' then None
                      else event_ref sd owner name item caps e) evs)"

text \<open>\<open>CollectionScripts\<close>, over the tree.\<close>

definition node_owner :: "coll_item \<Rightarrow> string" where
  "node_owner it = (if it_kind it = ''folder'' then ''folder'' else ''request'')"

definition collection_scripts :: "script_decoder \<Rightarrow> collection \<Rightarrow> coll_item list \<Rightarrow> script_ref list option" where
  "collection_scripts sd coll items =
     do { roots \<leftarrow> build_tree items;
          let caps = cap_names sd (co_caps coll);
          Some (event_refs sd ''collection'' (co_name coll) [] (co_events coll) caps @
            concat (map (\<lambda>it. event_refs sd (node_owner it) (it_name it) (it_uid it) (it_events it) caps)
              (flat_nodes roots))) }"

text \<open>\<open>planScripts\<close>: each script of the plan once.\<close>

definition ref_key :: "script_ref \<Rightarrow> string" where
  "ref_key r = sf_owner r @ CHR 0x00 # sf_item r @ CHR 0x00 # sf_hash r"

definition add_ref :: "script_ref list \<Rightarrow> script_ref \<Rightarrow> script_ref list" where
  "add_ref out r = (if ref_key r \<in> ref_key ` set out then out else out @ [r])"

definition item_refs :: "script_decoder \<Rightarrow> string list \<Rightarrow> coll_item list \<Rightarrow> coll_item \<Rightarrow> script_ref list" where
  "item_refs sd caps items it =
     concat (map (\<lambda>f. event_refs sd ''folder'' (it_name f) (it_uid f) (it_events f) caps)
       (climb items {it_uid it} (it_parent it))) @
     event_refs sd ''request'' (it_name it) (it_uid it) (it_events it) caps"

definition plan_scripts :: "script_decoder \<Rightarrow> collection \<Rightarrow> coll_item list \<Rightarrow> coll_item list \<Rightarrow> script_ref list" where
  "plan_scripts sd coll items plan =
     (let caps = cap_names sd (co_caps coll) in
      foldl add_ref []
        (event_refs sd ''collection'' (co_name coll) [] (co_events coll) caps @
         concat (map (item_refs sd caps items) plan)))"

record quarantined_script =
  qs_owner :: string
  qs_name :: string
  qs_listen :: string
  qs_hash :: string

definition quarantine_one ::
    "(string \<Rightarrow> bool) \<Rightarrow> quarantined_script list \<Rightarrow> script_ref \<Rightarrow> quarantined_script list" where
  "quarantine_one trusted out r =
     (if sf_hash r \<in> qs_hash ` set out \<or> trusted (sf_hash r) then out
      else out @ [\<lparr>qs_owner = sf_owner r, qs_name = sf_name r, qs_listen = sf_listen r, qs_hash = sf_hash r\<rparr>])"

definition untrusted_in_plan ::
    "script_decoder \<Rightarrow> (string \<Rightarrow> string \<Rightarrow> bool) \<Rightarrow> collection \<Rightarrow> coll_item list \<Rightarrow> coll_item list \<Rightarrow>
     quarantined_script list" where
  "untrusted_in_plan sd trusted coll items plan =
     foldl (quarantine_one (trusted (co_uid coll))) [] (plan_scripts sd coll items plan)"

section \<open>The scripts of a step\<close>

definition event_scripts ::
    "script_decoder \<Rightarrow> string \<Rightarrow> string \<Rightarrow> string \<Rightarrow> string list \<Rightarrow> string \<Rightarrow> script_ref list" where
  "event_scripts sd owner name events caps listen =
     (if events = [] then []
      else case sd_events sd events of
             None \<Rightarrow> []
           | Some evs \<Rightarrow>
               List.map_filter
                 (\<lambda>e. if se_listen e \<noteq> listen \<or> se_disabled e then None
                      else event_ref sd owner name [] caps e) evs)"

definition chain_scripts :: "script_decoder \<Rightarrow> collection \<Rightarrow> coll_chain \<Rightarrow> string \<Rightarrow> script_ref list" where
  "chain_scripts sd coll c listen =
     (let caps = cap_set sd (co_caps coll) in
      event_scripts sd ''collection'' (co_name coll) (co_events coll) caps listen @
      concat (map (\<lambda>f. event_scripts sd ''folder'' (it_name f) (it_events f) caps listen) (ch_folders c)) @
      event_scripts sd ''request'' (it_name (ch_item c)) (it_events (ch_item c)) caps listen)"

record script_note =
  sn_owner :: string
  sn_name :: string
  sn_listen :: string
  sn_hash :: string
  sn_reason :: string

definition note_script :: "script_ref \<Rightarrow> string \<Rightarrow> script_note" where
  "note_script s reason =
     \<lparr>sn_owner = sf_owner s, sn_name = sf_name s, sn_listen = sf_listen s, sn_hash = sf_hash s, sn_reason = reason\<rparr>"

text \<open>
  The gate of a step: \<open>Inl\<close> the notes of a step that is blocked, \<open>Inr\<close> which hashes may run. A missing
  trust checker or one that fails trusts nothing.
\<close>

definition gate_trusts :: "bool \<Rightarrow> (string \<Rightarrow> string \<Rightarrow> 'e + bool) option \<Rightarrow> string \<Rightarrow> string \<Rightarrow> bool" where
  "gate_trusts no_scripts trust coll h \<longleftrightarrow>
     \<not> no_scripts \<and> (case trust of None \<Rightarrow> False | Some f \<Rightarrow> (case f coll h of Inl _ \<Rightarrow> False | Inr t \<Rightarrow> t))"

definition step_gate ::
    "bool \<Rightarrow> bool \<Rightarrow> (string \<Rightarrow> string \<Rightarrow> 'e + bool) option \<Rightarrow> string \<Rightarrow> script_ref list \<Rightarrow>
     script_note list + (string \<Rightarrow> bool)" where
  "step_gate no_scripts fail_on_quarantine trust coll refs =
     (let ok = gate_trusts no_scripts trust coll;
          quarantined = list_ex (\<lambda>s. \<not> ok (sf_hash s) \<and> \<not> no_scripts) refs
      in if quarantined \<and> fail_on_quarantine
         then Inl (map (\<lambda>s. note_script s ''quarantined'') (filter (\<lambda>s. \<not> ok (sf_hash s)) refs))
         else Inr (\<lambda>h. h \<in> sf_hash ` set refs \<and> ok h))"

section \<open>The hash identifies a script\<close>

lemma split_at: "c \<notin> set a \<Longrightarrow> c \<notin> set b \<Longrightarrow> a @ c # r = b @ c # s \<longleftrightarrow> a = b \<and> r = s"
proof (induction a arbitrary: b)
  case Nil
  then show ?case by (cases b) auto
next
  case (Cons x a)
  then show ?case by (cases b) auto
qed






text \<open>
  Without that restriction the input of the hash is ambiguous: a source that contains the separator bytes,
  with no capability, hashes like a shorter source with the capability \<open>net\<close>.
\<close>

lemma trust_hash_ambiguous:
  "script_hash sha (''a'' @ CHR 0x01 # ''libs'' @ CHR 0x01 # ''caps'' @ CHR 0x00 # ''net'' @ CHR 0x00 # ''z'') [] []
     = script_hash sha ''a'' [] [''net'', ''z'' @ CHR 0x01 # ''libs'' @ CHR 0x01 # ''caps'']"
proof -
  have "sort [''net'', ''z'' @ CHR 0x01 # ''libs'' @ CHR 0x01 # ''caps'']
      = [''net'', ''z'' @ CHR 0x01 # ''libs'' @ CHR 0x01 # ''caps'']" by code_simp
  then show ?thesis by (simp add: script_hash_def hash_input_def write_part_def)
qed

section \<open>The preflight\<close>

text \<open>The capabilities the preflight and the pipeline bind agree up to order, and so do their hashes.\<close>

lemma hash_caps: "script_hash sha src [] (cap_names sd raw) = script_hash sha src [] (cap_set sd raw)"
proof -
  have "mset (cap_names sd raw) = mset (cap_set sd raw)"
    by (auto simp: cap_names_def cap_set_def split: option.split)
  then have "sort (cap_names sd raw) = sort (cap_set sd raw)" by (simp add: properties_for_sort)
  then show ?thesis by (simp add: script_hash_def hash_input_def)
qed

definition phases :: "string set" where "phases = {''prerequest'', ''test''}"

lemma event_ref_hash:
  "map_option sf_hash (event_ref sd owner name item (cap_names sd raw) e) =
   map_option sf_hash (event_ref sd owner' name' item' (cap_set sd raw) e)"
  by (simp add: event_ref_def Let_def hash_caps split: option.split)

lemma map_filter_hashes:
  "f ` set (List.map_filter g xs) = {h. \<exists>x\<in>set xs. map_option f (g x) = Some h}"
  by (induction xs) (auto simp: List.map_filter_simps split: option.splits)

lemma event_refs_scripts:
  "sf_hash ` set (event_refs sd owner name item events (cap_names sd raw)) =
     (\<Union>l\<in>phases. sf_hash ` set (event_scripts sd owner' name' events (cap_set sd raw) l))"
proof (cases "events = [] \<or> sd_events sd events = None")
  case True
  then show ?thesis by (auto simp: event_refs_def event_scripts_def)
next
  case False
  then obtain evs where e: "events \<noteq> []" "sd_events sd events = Some evs" by auto
  define H where "H x = map_option sf_hash (event_ref sd owner' name' [] (cap_set sd raw) x)" for x
  have h: "map_option sf_hash (event_ref sd owner name item (cap_names sd raw) x) = H x" for x
    unfolding H_def by (rule event_ref_hash)
  have p: "map_option sf_hash (if se_disabled x \<or> se_listen x \<noteq> ''prerequest'' \<and> se_listen x \<noteq> ''test''
      then None else event_ref sd owner name item (cap_names sd raw) x) = Some h
    \<longleftrightarrow> \<not> se_disabled x \<and> se_listen x \<in> phases \<and> H x = Some h" for x h
    unfolding h [symmetric] phases_def
    by (cases "se_disabled x"; cases "se_listen x = ''prerequest''"; cases "se_listen x = ''test''") simp_all
  have q: "map_option sf_hash (if se_listen x \<noteq> l \<or> se_disabled x then None
      else event_ref sd owner' name' [] (cap_set sd raw) x) = Some h
    \<longleftrightarrow> \<not> se_disabled x \<and> se_listen x = l \<and> H x = Some h" for x h l
    unfolding H_def by (cases "se_disabled x"; cases "se_listen x = l") simp_all
  have r: "sf_hash ` set (event_refs sd owner name item events (cap_names sd raw)) =
      {h. \<exists>x\<in>set evs. \<not> se_disabled x \<and> se_listen x \<in> phases \<and> H x = Some h}"
    unfolding event_refs_def e(2) option.case map_filter_hashes if_not_P [OF e(1)] p ..
  have s: "sf_hash ` set (event_scripts sd owner' name' events (cap_set sd raw) l) =
      {h. \<exists>x\<in>set evs. \<not> se_disabled x \<and> se_listen x = l \<and> H x = Some h}" for l
    unfolding event_scripts_def e(2) option.case map_filter_hashes if_not_P [OF e(1)] q ..
  show ?thesis unfolding r s by blast
qed

definition hex_digest :: "(string \<Rightarrow> string) \<Rightarrow> bool" where
  "hex_digest sha \<longleftrightarrow> (\<forall>x. CHR 0x00 \<notin> set (sha x))"

lemma key_hash:
  assumes "ref_key r = ref_key q" "CHR 0x00 \<notin> set (sf_hash r)" "CHR 0x00 \<notin> set (sf_hash q)"
  shows "sf_hash r = sf_hash q"
proof -
  have "rev (sf_hash r) @ CHR 0x00 # rev (sf_item r) @ CHR 0x00 # rev (sf_owner r)
      = rev (sf_hash q) @ CHR 0x00 # rev (sf_item q) @ CHR 0x00 # rev (sf_owner q)"
    using arg_cong [OF assms(1), of rev] by (simp add: ref_key_def)
  then have "rev (sf_hash r) = rev (sf_hash q)"
    using split_at [of "CHR 0x00" "rev (sf_hash r)" "rev (sf_hash q)"] assms(2,3) by simp
  then show ?thesis by simp
qed

lemma foldl_add_ref:
  "\<forall>r\<in>set out \<union> set rs. CHR 0x00 \<notin> set (sf_hash r) \<Longrightarrow>
   sf_hash ` set (foldl add_ref out rs) = sf_hash ` (set out \<union> set rs)"
proof (induction rs arbitrary: out)
  case Nil
  then show ?case by simp
next
  case (Cons r rs)
  have "sf_hash r \<in> sf_hash ` set out" if dup: "ref_key r \<in> ref_key ` set out"
  proof -
    from dup obtain q where "q \<in> set out" "ref_key r = ref_key q" by blast
    with key_hash [of r q] Cons.prems show ?thesis by auto
  qed
  then have "sf_hash ` set (add_ref out r) = insert (sf_hash r) (sf_hash ` set out)"
    by (auto simp: add_ref_def)
  moreover have "set (add_ref out r) \<subseteq> insert r (set out)" by (auto simp: add_ref_def)
  ultimately show ?case using Cons.IH [of "add_ref out r"] Cons.prems by (auto simp: image_Un)
qed

lemma foldl_quarantine:
  "qs_hash ` set (foldl (quarantine_one trusted) out rs) =
     qs_hash ` set out \<union> {h \<in> sf_hash ` set rs. \<not> trusted h}"
  by (induction rs arbitrary: out) (auto simp: quarantine_one_def)

lemma quarantine_distinct:
  "distinct (map qs_hash out) \<Longrightarrow> distinct (map qs_hash (foldl (quarantine_one trusted) out rs))"
  by (induction rs arbitrary: out) (auto simp: quarantine_one_def)

lemma map_filter_Some: "r \<in> set (List.map_filter g xs) \<Longrightarrow> \<exists>x\<in>set xs. g x = Some r"
  by (induction xs) (auto simp: List.map_filter_simps split: option.splits)

lemma event_ref_digest:
  "hex_digest (sd_sha sd) \<Longrightarrow> event_ref sd owner name item caps e = Some r \<Longrightarrow> CHR 0x00 \<notin> set (sf_hash r)"
  by (auto simp: event_ref_def Let_def script_hash_def hex_digest_def split: option.splits if_splits)

lemma event_refs_digest:
  assumes "hex_digest (sd_sha sd)" "r \<in> set (event_refs sd owner name item events caps)"
  shows "CHR 0x00 \<notin> set (sf_hash r)"
proof -
  have "\<exists>e. event_ref sd owner name item caps e = Some r"
    using assms(2) by (auto simp: event_refs_def split: if_splits option.splits dest!: map_filter_Some)
  with event_ref_digest [OF assms(1)] show ?thesis by blast
qed

text \<open>The hashes of all scripts of a step, of both phases.\<close>

definition step_hashes :: "script_decoder \<Rightarrow> collection \<Rightarrow> coll_chain \<Rightarrow> string set" where
  "step_hashes sd coll c = (\<Union>l\<in>phases. sf_hash ` set (chain_scripts sd coll c l))"

lemma plan_hashes:
  assumes x: "hex_digest (sd_sha sd)" and u: "unique_ids items"
    and p: "plan \<noteq> []" "\<forall>it\<in>set plan. it \<in> set items \<and> it_kind it = ''request''"
  shows "sf_hash ` set (plan_scripts sd coll items plan)
    = (\<Union>it\<in>set plan. step_hashes sd coll \<lparr>ch_folders = climb items {it_uid it} (it_parent it), ch_item = it\<rparr>)"
proof -
  let ?caps = "cap_names sd (co_caps coll)"
  let ?c = "event_refs sd ''collection'' (co_name coll) [] (co_events coll) ?caps"
  let ?rs = "?c @ concat (map (item_refs sd ?caps items) plan)"
  have "\<forall>r\<in>set ?rs. CHR 0x00 \<notin> set (sf_hash r)"
    using event_refs_digest [OF x] by (auto simp: item_refs_def)
  then have "sf_hash ` set (plan_scripts sd coll items plan) = sf_hash ` set ?rs"
    using foldl_add_ref [of "[]" ?rs] by (simp add: plan_scripts_def Let_def)
  also have "\<dots> = (\<Union>it\<in>set plan. sf_hash ` set ?c \<union> sf_hash ` set (item_refs sd ?caps items it))"
    using p(1) by (cases plan) (auto simp: image_Un image_UN)
  also have "\<dots> = (\<Union>it\<in>set plan. step_hashes sd coll \<lparr>ch_folders = climb items {it_uid it} (it_parent it), ch_item = it\<rparr>)"
  proof (rule SUP_cong [OF refl])
    fix it :: coll_item
    define fs where "fs = climb items {it_uid it} (it_parent it)"
    define C where "C l = sf_hash ` set (event_scripts sd ''collection'' (co_name coll) (co_events coll) (cap_set sd (co_caps coll)) l)" for l
    define F where "F f l = sf_hash ` set (event_scripts sd ''folder'' (it_name f) (it_events f) (cap_set sd (co_caps coll)) l)" for f :: coll_item and l
    define I where "I l = sf_hash ` set (event_scripts sd ''request'' (it_name it) (it_events it) (cap_set sd (co_caps coll)) l)" for l
    have c: "sf_hash ` set ?c = (\<Union>l\<in>phases. C l)" unfolding C_def by (rule event_refs_scripts)
    have f: "sf_hash ` set (event_refs sd ''folder'' (it_name f) (it_uid f) (it_events f) ?caps) = (\<Union>l\<in>phases. F f l)" for f
      unfolding F_def by (rule event_refs_scripts)
    have i: "sf_hash ` set (event_refs sd ''request'' (it_name it) (it_uid it) (it_events it) ?caps) = (\<Union>l\<in>phases. I l)"
      unfolding I_def by (rule event_refs_scripts)
    have "sf_hash ` set (item_refs sd ?caps items it) = (\<Union>f\<in>set fs. \<Union>l\<in>phases. F f l) \<union> (\<Union>l\<in>phases. I l)"
      unfolding item_refs_def set_append image_Un set_concat set_map image_UN i fs_def [symmetric] by (simp add: f)
    moreover have "sf_hash ` set (chain_scripts sd coll \<lparr>ch_folders = fs, ch_item = it\<rparr> l) = C l \<union> (\<Union>f\<in>set fs. F f l) \<union> I l" for l
      unfolding chain_scripts_def Let_def set_append image_Un set_concat set_map image_UN C_def F_def I_def by (simp add: Un_assoc)
    ultimately show "sf_hash ` set ?c \<union> sf_hash ` set (item_refs sd ?caps items it)
        = step_hashes sd coll \<lparr>ch_folders = climb items {it_uid it} (it_parent it), ch_item = it\<rparr>"
      unfolding step_hashes_def fs_def [symmetric] c by auto
  qed
  finally show ?thesis .
qed

text \<open>
  (C34) The preflight of a headless run covers what its steps run. Over a plan of requests with distinct ids,
  the list of untrusted scripts has each untrusted hash once and holds exactly the untrusted hashes of the
  scripts that the steps of the plan would run, of the collection, the folders above each request and the
  request, in both phases. It is empty exactly when all of them are trusted, and then the trust
  gate of every step lets the step through with all its scripts.
\<close>

theorem preflight_covers_steps:
  assumes "hex_digest (sd_sha sd)" "unique_ids items"
    and "plan \<noteq> []" "\<forall>it\<in>set plan. it \<in> set items \<and> it_kind it = ''request''"
  shows "distinct (map qs_hash (untrusted_in_plan sd trusted coll items plan))
    \<and> qs_hash ` set (untrusted_in_plan sd trusted coll items plan) =
       {h. \<not> trusted (co_uid coll) h
         \<and> (\<exists>it\<in>set plan. \<exists>c. chain_from_items items (it_uid it) = Inr c \<and> h \<in> step_hashes sd coll c)}
    \<and> (untrusted_in_plan sd trusted coll items plan = [] \<longrightarrow>
       (\<forall>it\<in>set plan. \<exists>c refs. chain_from_items items (it_uid it) = Inr c
         \<and> refs = chain_scripts sd coll c ''prerequest'' @ chain_scripts sd coll c ''test''
         \<and> step_gate False True (Some (\<lambda>u h. Inr (trusted u h) :: unit + bool)) (co_uid coll) refs
             = Inr (\<lambda>h. h \<in> sf_hash ` set refs)))"
proof -
  have ch: "chain_from_items items (it_uid it) = Inr \<lparr>ch_folders = climb items {it_uid it} (it_parent it), ch_item = it\<rparr>"
    if "it \<in> set plan" for it
    using that assms(2,4) by (auto simp: chain_from_items_def)
  have q: "qs_hash ` set (untrusted_in_plan sd trusted coll items plan)
      = {h \<in> sf_hash ` set (plan_scripts sd coll items plan). \<not> trusted (co_uid coll) h}"
    by (simp add: untrusted_in_plan_def foldl_quarantine)
  have u: "qs_hash ` set (untrusted_in_plan sd trusted coll items plan) =
       {h. \<not> trusted (co_uid coll) h
         \<and> (\<exists>it\<in>set plan. \<exists>c. chain_from_items items (it_uid it) = Inr c \<and> h \<in> step_hashes sd coll c)}"
    unfolding q plan_hashes [OF assms] using ch by auto
  have "\<exists>c refs. chain_from_items items (it_uid it) = Inr c
         \<and> refs = chain_scripts sd coll c ''prerequest'' @ chain_scripts sd coll c ''test''
         \<and> step_gate False True (Some (\<lambda>u h. Inr (trusted u h) :: unit + bool)) (co_uid coll) refs
             = Inr (\<lambda>h. h \<in> sf_hash ` set refs)"
    if none: "untrusted_in_plan sd trusted coll items plan = []" and it: "it \<in> set plan" for it
  proof -
    obtain c where c: "chain_from_items items (it_uid it) = Inr c" using ch [OF it] by blast
    let ?refs = "chain_scripts sd coll c ''prerequest'' @ chain_scripts sd coll c ''test''"
    have "\<forall>h\<in>step_hashes sd coll c. trusted (co_uid coll) h" using u none c it by auto
    moreover have "step_hashes sd coll c = sf_hash ` set ?refs" by (auto simp: step_hashes_def phases_def)
    ultimately have t: "\<forall>s\<in>set ?refs. trusted (co_uid coll) (sf_hash s)" by auto
    then have "step_gate False True (Some (\<lambda>u h. Inr (trusted u h) :: unit + bool)) (co_uid coll) ?refs
        = Inr (\<lambda>h. h \<in> sf_hash ` set ?refs)"
      by (auto simp: step_gate_def Let_def gate_trusts_def list_ex_iff fun_eq_iff)
    with c show ?thesis by blast
  qed
  moreover have "distinct (map qs_hash (untrusted_in_plan sd trusted coll items plan))"
    unfolding untrusted_in_plan_def by (rule quarantine_distinct) simp
  ultimately show ?thesis using u by blast
qed

definition demo_events :: "string \<Rightarrow> script_event list option" where
  "demo_events e =
     Some [\<lparr>se_listen = ''prerequest'', se_disabled = False, se_exec = Some [''f()'', e]\<rparr>,
           \<lparr>se_listen = ''test'', se_disabled = True, se_exec = Some [''g()'']\<rparr>]"

definition demo_decoder :: script_decoder where
  "demo_decoder = \<lparr>sd_events = demo_events, sd_cap_list = \<lambda>_. None, sd_cap_map = \<lambda>_. None,
     sd_sha = filter (\<lambda>c. c \<noteq> CHR 0x00)\<rparr>"

definition demo_coll :: collection where
  "demo_coll = \<lparr>co_uid = ''c'', co_name = ''C'', co_events = [], co_caps = [], co_scope_policy = []\<rparr>"

definition demo_script_items :: "coll_item list" where
  "demo_script_items =
     [(demo_coll_item ''f'' [] ''folder'' ''m'')\<lparr>it_events := ''1''\<rparr>, (demo_coll_item ''r1'' ''f'' ''request'' ''a'')\<lparr>it_events := ''2''\<rparr>]"

text \<open>
  The witness: a folder and a request with a script each, of which only one is trusted. The digest
  is the input without its zero bytes.
\<close>

definition demo_hash :: "string \<Rightarrow> string" where
  "demo_hash e = script_hash (sd_sha demo_decoder) (''prerequest'' @ CHR 0x0A # ''f()'' @ CHR 0x0A # e) [] []"

theorem preflight_covers_steps_witness:
  "map qs_hash (untrusted_in_plan demo_decoder (\<lambda>u h. h = demo_hash ''1'') demo_coll demo_script_items
      [demo_script_items ! 1]) = [demo_hash ''2'']
   \<and> (\<exists>c. chain_from_items demo_script_items ''r1'' = Inr c \<and> demo_hash ''2'' \<in> step_hashes demo_decoder demo_coll c)"
proof -
  have x: "hex_digest (sd_sha demo_decoder)" by (simp add: hex_digest_def demo_decoder_def)
  have u: "unique_ids demo_script_items" by code_simp
  have p: "[demo_script_items ! 1] \<noteq> []" by simp
  have i: "\<forall>it\<in>set [demo_script_items ! 1]. it \<in> set demo_script_items \<and> it_kind it = ''request''" by code_simp
  have r: "it_uid (demo_script_items ! 1) = ''r1''" by code_simp
  have m: "map qs_hash (untrusted_in_plan demo_decoder (\<lambda>u h. h = demo_hash ''1'') demo_coll demo_script_items
      [demo_script_items ! 1]) = [demo_hash ''2'']" by code_simp
  have "qs_hash ` set (untrusted_in_plan demo_decoder (\<lambda>u h. h = demo_hash ''1'') demo_coll demo_script_items
      [demo_script_items ! 1]) = {demo_hash ''2''}" using arg_cong [OF m, of set] by simp
  with preflight_covers_steps [OF x u p i, of "\<lambda>u h. h = demo_hash ''1''" demo_coll] m r show ?thesis by auto
qed

end
