(* ===== verification/CollRun.thy ===== *)
theory CollRun
  imports CollScripts Overlay CookieJar Complex_Main
begin

text \<open>
  The collection runner: results and totals of \<open>internal/collexec/result.go\<close> and
  \<open>internal/collrun/model.go\<close>, the run state of \<open>internal/collrun/state.go\<close> and the run of
  \<open>internal/collrun/runner.go\<close>. What a run needs from its host is a record of functions over an opaque world:
  the \<open>Backend\<close>, \<open>RunStore\<close> and \<open>SessionBackend\<close> interfaces of \<open>backend.go\<close>, the clock, the
  cancellation of the context and the waits, each of which lets the world move on. The calls that leave the
  run (stored rows, events, commits) are logged in the state in their order. The rate is a rational
  where the code has a float.
\<close>

section \<open>Results\<close>

datatype outcome = OutcomeSent | OutcomeSkipped | OutcomeBlocked | OutcomeError

datatype block_reason =
  NotBlocked | BlockUnresolved | BlockScope | BlockPin | BlockIPGuard | BlockOwn | BlockQuarantined

datatype test_status = TestPass | TestFail | TestSkip | TestError | TestUnsupported

record test_result =
  ts_name :: string
  ts_status :: test_status
  ts_severity :: string
  ts_subject :: string
  ts_expected :: string
  ts_actual :: string
  ts_message :: string
  ts_source :: string
  ts_owner :: string

record console_line =
  cl_owner :: string
  cl_level :: string
  cl_text :: string

record response_summary =
  rm_status :: int
  rm_status_text :: string
  rm_size :: int
  rm_time :: int
  rm_error :: string

text \<open>\<open>sr_next\<close> is the flow control: a \<open>setNextRequest\<close> call and its target, empty for null.\<close>

record step_result =
  sr_outcome :: outcome
  sr_block :: block_reason
  sr_error :: string
  sr_method :: string
  sr_url :: string
  sr_flow :: int
  sr_response :: "response_summary option"
  sr_tests :: "test_result list"
  sr_console :: "console_line list"
  sr_warnings :: "string list"
  sr_unresolved :: "string list"
  sr_changes :: "var_change list"
  sr_scripts :: "script_note list"
  sr_next :: "string option"

definition error_result :: "string \<Rightarrow> step_result" where
  "error_result msg =
     \<lparr>sr_outcome = OutcomeError, sr_block = NotBlocked, sr_error = msg, sr_method = [], sr_url = [], sr_flow = 0,
      sr_response = None, sr_tests = [], sr_console = [], sr_warnings = [], sr_unresolved = [], sr_changes = [],
      sr_scripts = [], sr_next = None\<rparr>"

record change_view =
  cw_scope :: string
  cw_key :: string
  cw_display :: string
  cw_unset :: bool
  cw_secret :: bool

record item_result =
  ir_seq :: nat
  ir_iteration :: nat
  ir_uid :: string
  ir_name :: string
  ir_path :: string
  ir_method :: string
  ir_url :: string
  ir_outcome :: outcome
  ir_block :: block_reason
  ir_status :: int
  ir_status_text :: string
  ir_duration :: int
  ir_size :: int
  ir_flow :: int
  ir_error :: string
  ir_tests :: "test_result list"
  ir_console :: "console_line list"
  ir_changes :: "change_view list"
  ir_scripts :: "script_note list"
  ir_warnings :: "string list"
  ir_unresolved :: "string list"
  ir_next :: "string option"

definition has_problem :: "item_result \<Rightarrow> bool" where
  "has_problem r \<longleftrightarrow>
     ir_outcome r = OutcomeError \<or> ir_outcome r = OutcomeBlocked
     \<or> list_ex (\<lambda>t. ts_status t = TestFail \<or> ts_status t = TestError \<or> ts_status t = TestUnsupported) (ir_tests r)"

text \<open>\<open>FailedItemUIDs\<close>: rows carry an item's id and its stored result, if that can be decoded.\<close>

definition failed_item_uids :: "(string \<times> item_result option) list \<Rightarrow> string list" where
  "failed_item_uids rows =
     sort (remdups (List.map_filter
       (\<lambda>(u, r). case r of None \<Rightarrow> None | Some it \<Rightarrow> if has_problem it then Some u else None) rows))"

record totals =
  to_requests :: nat
  to_sent :: nat
  to_skipped :: nat
  to_blocked :: nat
  to_errors :: nat
  to_pass :: nat
  to_fail :: nat
  to_test_skip :: nat
  to_test_error :: nat
  to_unsupported :: nat
  to_quarantined :: nat
  to_scope_blocks :: nat
  to_unresolved :: nat

definition zero_totals :: totals where
  "zero_totals =
     \<lparr>to_requests = 0, to_sent = 0, to_skipped = 0, to_blocked = 0, to_errors = 0, to_pass = 0, to_fail = 0,
      to_test_skip = 0, to_test_error = 0, to_unsupported = 0, to_quarantined = 0, to_scope_blocks = 0,
      to_unresolved = 0\<rparr>"

fun add_test :: "test_status \<Rightarrow> totals \<Rightarrow> totals" where
  "add_test TestPass t = t\<lparr>to_pass := to_pass t + 1\<rparr>"
| "add_test TestFail t = t\<lparr>to_fail := to_fail t + 1\<rparr>"
| "add_test TestSkip t = t\<lparr>to_test_skip := to_test_skip t + 1\<rparr>"
| "add_test TestError t = t\<lparr>to_test_error := to_test_error t + 1\<rparr>"
| "add_test TestUnsupported t = t\<lparr>to_unsupported := to_unsupported t + 1\<rparr>"

definition add_outcome :: "item_result \<Rightarrow> totals \<Rightarrow> totals" where
  "add_outcome it t =
     (case ir_outcome it of
        OutcomeSent \<Rightarrow> t\<lparr>to_sent := to_sent t + 1\<rparr>
      | OutcomeSkipped \<Rightarrow> t\<lparr>to_skipped := to_skipped t + 1\<rparr>
      | OutcomeBlocked \<Rightarrow>
          (let t = t\<lparr>to_blocked := to_blocked t + 1\<rparr> in
           if ir_block it = BlockUnresolved then t\<lparr>to_unresolved := to_unresolved t + 1\<rparr>
           else if ir_block it = BlockQuarantined then t\<lparr>to_quarantined := to_quarantined t + 1\<rparr>
           else t\<lparr>to_scope_blocks := to_scope_blocks t + 1\<rparr>)
      | OutcomeError \<Rightarrow> t\<lparr>to_errors := to_errors t + 1\<rparr>)"

definition add_totals :: "item_result \<Rightarrow> totals \<Rightarrow> totals" where
  "add_totals it t0 =
     (let t1 = add_outcome it (t0\<lparr>to_requests := to_requests t0 + 1\<rparr>);
          t2 = (if ir_block it = BlockQuarantined then t1
                else t1\<lparr>to_quarantined := to_quarantined t1 +
                  length (filter (\<lambda>s. has_prefix (sn_reason s) ''quarantined'') (ir_scripts it))\<rparr>)
      in fold add_test (map ts_status (ir_tests it)) t2)"

section \<open>The report\<close>

datatype run_status =
  StatusRunning | StatusDone | StatusBailed | StatusStopped | StatusAborted | StatusLoopGuard | StatusNotApproved
| StatusBadTarget

datatype stop_reason =
  NoReason | RunAborted | StepLimit nat | VisitLimit string nat | BailedOn string | NextNull | NoSuchTarget string
| ScriptsNotApproved

record persist_info =
  pe_mode :: string
  pe_decision :: string
  pe_pending :: "change_view list"
  pe_committed :: int
  pe_skipped :: "string list"

record report =
  rp_run :: string
  rp_coll :: string
  rp_env :: string
  rp_env_name :: string
  rp_source :: string
  rp_status :: run_status
  rp_reason :: stop_reason
  rp_iterations :: nat
  rp_bail :: string
  rp_scope_policy :: string
  rp_items :: "item_result list"
  rp_totals :: totals
  rp_persist :: persist_info
  rp_quarantined :: "quarantined_script list"
  rp_truncated :: bool
  rp_started :: int
  rp_finished :: int

definition exit_code :: "report \<Rightarrow> nat" where
  "exit_code r =
     (let t = rp_totals r in
      if rp_status r = StatusNotApproved then 3
      else if to_scope_blocks t > 0 then 4
      else if to_errors t > 0 \<or> to_unresolved t > 0 \<or> to_test_error t > 0 \<or> to_unsupported t > 0
              \<or> rp_status r = StatusLoopGuard \<or> rp_status r = StatusBadTarget \<or> rp_status r = StatusAborted then 2
      else if to_fail t > 0 then 1
      else 0)"

section \<open>Options and host\<close>

definition max_iterations :: nat where "max_iterations = 10000"
definition hard_max_steps :: nat where "hard_max_steps = 100000"
definition steps_per_plan :: nat where "steps_per_plan = 10"
definition default_max_visit :: nat where "default_max_visit = 100"
definition max_run_rows :: nat where "max_run_rows = 20000"

text \<open>Nanoseconds: ten minutes.\<close>

definition max_delay :: int where "max_delay = 600000000000"

record run_options =
  op_coll :: string
  op_folder :: string
  op_items :: "string list"
  op_failed_from :: string
  op_env :: string
  op_iterations :: int
  op_data :: "(string \<times> string) list list"
  op_delay :: int
  op_rps :: rat
  op_bail :: string
  op_persist :: string
  op_no_scripts :: bool
  op_fail_on_quarantine :: bool
  op_scope_policy :: string
  op_source :: string
  op_ai :: bool
  op_identity :: string
  op_local :: "(string \<times> string) list"
  op_max_steps :: int
  op_max_visits :: int
  op_max_rows :: int

datatype options_error = BadBail | BadPersist | BadIterations | BadDelay | BadRate

definition validate_options :: "run_options \<Rightarrow> options_error option" where
  "validate_options op =
     (if op_bail op \<notin> {[], ''none'', ''on-failure'', ''on-error''} then Some BadBail
      else if op_persist op \<notin> {[], ''ask'', ''keep'', ''discard''} then Some BadPersist
      else if op_iterations op < 0 \<or> op_iterations op > int max_iterations then Some BadIterations
      else if op_delay op < 0 \<or> op_delay op > max_delay then Some BadDelay
      else if op_rps op < 0 \<or> op_rps op > 10000 then Some BadRate
      else None)"

definition data_row :: "(string \<times> string) list list \<Rightarrow> nat \<Rightarrow> (string \<times> string) list option" where
  "data_row rows i = (if rows = [] then None else Some (rows ! (i mod length rows)))"

definition data_preview :: "(string \<times> string) list list \<Rightarrow> nat \<Rightarrow> (string \<times> string) list list" where
  "data_preview rows n = take n rows"

definition iteration_count :: "run_options \<Rightarrow> nat" where
  "iteration_count op =
     (if op_iterations op > 0 then nat (op_iterations op)
      else if op_data op \<noteq> [] then length (op_data op) else 1)"

record step_input =
  si_coll :: collection
  si_chain :: coll_chain
  si_layers :: "layer list"
  si_local :: "(string \<times> string) list"
  si_source :: string
  si_ai :: bool
  si_scope_policy :: string
  si_no_scripts :: bool
  si_fail_on_quarantine :: bool
  si_run :: string
  si_iteration :: nat
  si_env :: string
  si_env_pin :: string
  si_identity :: string
  si_parent_flow :: int

text \<open>The stored header of a run; the summary is stored as JSON.\<close>

record run_summary =
  ru_status :: run_status
  ru_reason :: stop_reason
  ru_iterations :: nat
  ru_totals :: totals
  ru_persist :: string
  ru_exit :: nat
  ru_truncated :: bool

record run_header =
  rh_uid :: string
  rh_coll :: string
  rh_env :: string
  rh_source :: string
  rh_status :: run_status
  rh_started :: int
  rh_finished :: int
  rh_summary :: "run_summary option"

record 'w host =
  be_load :: "'w \<Rightarrow> string \<Rightarrow> string + collection \<times> coll_item list"
  be_env_name :: "'w \<Rightarrow> string \<Rightarrow> string"
  be_env_pin :: "'w \<Rightarrow> string \<Rightarrow> string"
  be_layers :: "'w \<Rightarrow> collection \<Rightarrow> coll_chain \<Rightarrow> string \<Rightarrow> string + layer list \<times> (string \<times> string) list"
  be_step :: "step_input \<Rightarrow> nat \<Rightarrow> 'w \<Rightarrow> (string + step_result option) \<times> 'w"
  be_commit :: "collection \<Rightarrow> string \<Rightarrow> var_change list \<Rightarrow> 'w \<Rightarrow> string list \<times> 'w"
  be_trusted :: "'w \<Rightarrow> string \<Rightarrow> string \<Rightarrow> bool"
  be_scrub :: "'w \<Rightarrow> string \<Rightarrow> string"
  be_store :: bool
  be_run_rows :: "'w \<Rightarrow> string \<Rightarrow> string + (string \<times> item_result option) list"
  be_decide :: "(change_view list \<Rightarrow> 'w \<Rightarrow> bool \<times> 'w) option"
  be_session :: "(('w \<Rightarrow> jar_cookie list) \<times> (jar_cookie list \<Rightarrow> bool \<Rightarrow> 'w \<Rightarrow> 'w)) option"
  be_put_run :: "run_header \<Rightarrow> 'w \<Rightarrow> string option \<times> 'w"
  be_new_id :: "'w \<Rightarrow> string \<times> 'w"
  be_cancelled :: "'w \<Rightarrow> bool \<times> 'w"
  be_wait_paused :: "'w \<Rightarrow> 'w"
  be_sleep :: "int \<Rightarrow> 'w \<Rightarrow> 'w"
  be_now :: "'w \<Rightarrow> int \<times> 'w"
  be_decoder :: script_decoder

section \<open>The run state\<close>

text \<open>A stored result row: an item, or the one marker of a run that had more results than are kept.\<close>

datatype run_row = RowItem string item_result | RowMarker string nat

datatype run_event =
  EvStart string nat | EvItem string item_result totals | EvDone string totals run_status

record run_cfg =
  rc_options :: run_options
  rc_coll :: collection
  rc_items :: "coll_item list"
  rc_plan :: "coll_item list"
  rc_iterations :: nat

record 'w run_state =
  rs_world :: 'w
  rs_report :: report
  rs_overlay :: overlay
  rs_steps :: nat
  rs_seq :: nat
  rs_next_at :: int
  rs_marker :: bool
  rs_rows :: "run_row list"
  rs_events :: "run_event list"
  rs_commits :: "var_change list list"

definition max_steps :: "run_cfg \<Rightarrow> nat" where
  "max_steps c =
     min hard_max_steps
       (if op_max_steps (rc_options c) \<le> 0 then steps_per_plan * length (rc_plan c) * rc_iterations c
        else nat (op_max_steps (rc_options c)))"

definition max_visits :: "run_cfg \<Rightarrow> nat" where
  "max_visits c = (if op_max_visits (rc_options c) > 0 then nat (op_max_visits (rc_options c)) else default_max_visit)"

definition max_rows :: "run_cfg \<Rightarrow> nat" where
  "max_rows c = (if op_max_rows (rc_options c) > 0 then nat (op_max_rows (rc_options c)) else max_run_rows)"

text \<open>\<open>stop\<close>: the first reason wins.\<close>

definition stop_report :: "run_status \<Rightarrow> stop_reason \<Rightarrow> report \<Rightarrow> report" where
  "stop_report status reason rep =
     (if rp_status rep = StatusRunning then rep\<lparr>rp_status := status, rp_reason := reason\<rparr> else rep)"

definition stop_run :: "run_status \<Rightarrow> stop_reason \<Rightarrow> 'w run_state \<Rightarrow> 'w run_state" where
  "stop_run status reason s = s\<lparr>rs_report := stop_report status reason (rs_report s)\<rparr>"

text \<open>\<open>throttle\<close>: the interval of the rate in nanoseconds; \<open>nextAt\<close> is when the next request may start.\<close>

definition rate_interval :: "rat \<Rightarrow> int" where
  "rate_interval rps = \<lfloor>1000000000 / rps\<rfloor>"

definition throttle :: "'w host \<Rightarrow> run_cfg \<Rightarrow> 'w run_state \<Rightarrow> 'w run_state" where
  "throttle h c s =
     (if op_rps (rc_options c) \<le> 0 then s
      else
        (let interval = rate_interval (op_rps (rc_options c)); (now, w) = be_now h (rs_world s) in
         if rs_next_at s > now
         then s\<lparr>rs_world := be_sleep h (rs_next_at s - now) w, rs_next_at := rs_next_at s + interval\<rparr>
         else s\<lparr>rs_world := w, rs_next_at := now + interval\<rparr>))"

definition run_sleep :: "'w host \<Rightarrow> int \<Rightarrow> 'w run_state \<Rightarrow> 'w run_state" where
  "run_sleep h d s = (if d \<le> 0 then s else s\<lparr>rs_world := be_sleep h d (rs_world s)\<rparr>)"

definition merge_local ::
    "(string \<times> string) list \<Rightarrow> (string \<times> string) list \<Rightarrow> (string \<times> string) list" where
  "merge_local base over = (if over = [] then base else fold (\<lambda>(k, v) m. AList.update k v m) over base)"

definition chain_error_text :: "chain_error \<Rightarrow> string" where
  "chain_error_text e =
     (case e of ItemNotFound u \<Rightarrow> ''collexec: item '' @ CHR 0x22 # u @ CHR 0x22 # '' not found''
      | ItemIsFolder u \<Rightarrow> ''collexec: item '' @ CHR 0x22 # u @ CHR 0x22 # '' is a folder'')"

definition execute_step ::
    "'w host \<Rightarrow> run_cfg \<Rightarrow> coll_item \<Rightarrow> nat \<Rightarrow> 'w run_state \<Rightarrow> step_result \<times> 'w run_state" where
  "execute_step h c it iter s =
     (let op = rc_options c in
      case chain_from_items (rc_items c) (it_uid it) of
        Inl e \<Rightarrow> (error_result (''chain: '' @ chain_error_text e), s)
      | Inr chain \<Rightarrow>
          (case be_layers h (rs_world s) (rc_coll c) chain (op_env op) of
             Inl e \<Rightarrow> (error_result (''variables: '' @ e), s)
           | Inr (layers, local) \<Rightarrow>
               (let layers = overlay_apply (rs_overlay s) layers;
                    layers = (case data_row (op_data op) iter of None \<Rightarrow> layers | Some row \<Rightarrow> layers @ [data_layer row]);
                    inp = \<lparr>si_coll = rc_coll c, si_chain = chain, si_layers = layers,
                           si_local = merge_local local (op_local op), si_source = op_source op, si_ai = op_ai op,
                           si_scope_policy = op_scope_policy op, si_no_scripts = op_no_scripts op,
                           si_fail_on_quarantine = op_fail_on_quarantine op, si_run = rp_run (rs_report s),
                           si_iteration = iter, si_env = op_env op, si_env_pin = be_env_pin h (rs_world s) (op_env op),
                           si_identity = op_identity op, si_parent_flow = 0\<rparr>;
                    (r, w) = be_step h inp (rc_iterations c) (rs_world s);
                    s = s\<lparr>rs_world := w\<rparr>
                in case r of
                     Inl e \<Rightarrow> (error_result (''step failed: '' @ e), s)
                   | Inr None \<Rightarrow> (error_result ''step failed'', s)
                   | Inr (Some res) \<Rightarrow> (res, s))))"

text \<open>\<open>displayValue\<close> and \<open>views\<close>: the only form a write is shown in.\<close>

definition display_value :: "(string \<Rightarrow> string) \<Rightarrow> var_change \<Rightarrow> string" where
  "display_value sc c =
     (if vc_secret c then ''[secret]''
      else if vc_unset c \<or> vc_display c = [] then []
      else trim_prefix (sc (vc_key c @ ''='' @ vc_display c)) (vc_key c @ ''=''))"

definition change_views :: "(string \<Rightarrow> string) \<Rightarrow> var_change list \<Rightarrow> change_view list" where
  "change_views sc cs =
     map (\<lambda>c. \<lparr>cw_scope = vc_scope c, cw_key = vc_key c, cw_display = display_value sc c, cw_unset = vc_unset c,
               cw_secret = vc_secret c\<rparr>) cs"

definition build_item ::
    "(string \<Rightarrow> string) \<Rightarrow> coll_item list \<Rightarrow> nat \<Rightarrow> coll_item \<Rightarrow> nat \<Rightarrow> step_result \<Rightarrow> item_result" where
  "build_item sc items seq it iter res =
     \<lparr>ir_seq = seq, ir_iteration = iter, ir_uid = it_uid it, ir_name = sc (it_name it),
      ir_path = sc (folder_path items (it_uid it)),
      ir_method = (if sr_method res = [] then it_method it else sr_method res), ir_url = sc (sr_url res),
      ir_outcome = sr_outcome res, ir_block = sr_block res,
      ir_status = (case sr_response res of None \<Rightarrow> 0 | Some r \<Rightarrow> rm_status r),
      ir_status_text = (case sr_response res of None \<Rightarrow> [] | Some r \<Rightarrow> rm_status_text r),
      ir_duration = (case sr_response res of None \<Rightarrow> 0 | Some r \<Rightarrow> rm_time r),
      ir_size = (case sr_response res of None \<Rightarrow> 0 | Some r \<Rightarrow> rm_size r),
      ir_flow = sr_flow res,
      ir_error = (case sr_response res of None \<Rightarrow> sc (sr_error res)
                  | Some r \<Rightarrow> if sc (sr_error res) = [] then sc (rm_error r) else sc (sr_error res)),
      ir_tests = map (\<lambda>t. t\<lparr>ts_name := sc (ts_name t), ts_message := sc (ts_message t), ts_subject := sc (ts_subject t),
                          ts_expected := sc (ts_expected t), ts_actual := sc (ts_actual t)\<rparr>) (sr_tests res),
      ir_console = map (\<lambda>l. l\<lparr>cl_text := sc (cl_text l)\<rparr>) (sr_console res),
      ir_changes = change_views sc (sr_changes res),
      ir_scripts = map (\<lambda>n. n\<lparr>sn_reason := sc (sn_reason n)\<rparr>) (sr_scripts res),
      ir_warnings = map sc (sr_warnings res),
      ir_unresolved = sr_unresolved res,
      ir_next = map_option sc (sr_next res)\<rparr>"

text \<open>The first half of \<open>record\<close>: the overlay and, when writes are kept, the commit.\<close>

definition commit_changes :: "'w host \<Rightarrow> run_cfg \<Rightarrow> step_result \<Rightarrow> 'w run_state \<Rightarrow> 'w run_state" where
  "commit_changes h c res s0 =
     (let s = s0\<lparr>rs_overlay := overlay_record (sr_changes res) (rs_overlay s0)\<rparr> in
      if op_persist (rc_options c) = ''keep'' \<and> sr_changes res \<noteq> [] then
        (let (sk, w) = be_commit h (rc_coll c) (op_env (rc_options c)) (sr_changes res) (rs_world s);
             rep = rs_report s; pe = rp_persist rep
         in s\<lparr>rs_world := w, rs_commits := rs_commits s @ [sr_changes res],
              rs_report := rep\<lparr>rp_persist := pe\<lparr>pe_skipped := pe_skipped pe @ sk,
                 pe_committed := pe_committed pe + int (length (sr_changes res)) - int (length sk)\<rparr>\<rparr>\<rparr>)
      else s)"

definition store_row :: "'w host \<Rightarrow> run_row \<Rightarrow> 'w run_state \<Rightarrow> 'w run_state" where
  "store_row h r s = (if be_store h then s\<lparr>rs_rows := rs_rows s @ [r]\<rparr> else s)"

definition record_item ::
    "'w host \<Rightarrow> run_cfg \<Rightarrow> coll_item \<Rightarrow> nat \<Rightarrow> step_result \<Rightarrow> 'w run_state \<Rightarrow> item_result \<times> 'w run_state" where
  "record_item h c it iter res s0 =
     (let s1 = commit_changes h c res s0;
          s2 = s1\<lparr>rs_seq := rs_seq s1 + 1\<rparr>;
          item = build_item (be_scrub h (rs_world s2)) (rc_items c) (rs_seq s2) it iter res;
          s3 = s2\<lparr>rs_report := (rs_report s2)\<lparr>rp_totals := add_totals item (rp_totals (rs_report s2))\<rparr>\<rparr>;
          s4 = (if length (rp_items (rs_report s3)) < max_rows c then
                  store_row h (RowItem (rp_run (rs_report s3)) item)
                    (s3\<lparr>rs_report := (rs_report s3)\<lparr>rp_items := rp_items (rs_report s3) @ [item]\<rparr>\<rparr>)
                else if \<not> rs_marker s3 then
                  store_row h (RowMarker (rp_run (rs_report s3)) (max_rows c))
                    (s3\<lparr>rs_marker := True, rs_report := (rs_report s3)\<lparr>rp_truncated := True\<rparr>\<rparr>)
                else s3)
      in (item, s4\<lparr>rs_events := rs_events s4 @ [EvItem (rp_run (rs_report s4)) item (rp_totals (rs_report s4))]\<rparr>))"

definition should_bail :: "run_cfg \<Rightarrow> item_result \<Rightarrow> bool" where
  "should_bail c it \<longleftrightarrow>
     (if op_bail (rc_options c) = ''on-failure'' then has_problem it
      else if op_bail (rc_options c) = ''on-error'' then ir_outcome it = OutcomeError \<or> ir_outcome it = OutcomeBlocked
      else False)"

text \<open>\<open>advance\<close>: the next index, or \<open>None\<close> when the run must end.\<close>

definition advance :: "'w host \<Rightarrow> run_cfg \<Rightarrow> step_result \<Rightarrow> nat \<Rightarrow> 'w run_state \<Rightarrow> nat option \<times> 'w run_state" where
  "advance h c res i s =
     (case sr_next res of
        None \<Rightarrow> (Some (i + 1), s)
      | Some target \<Rightarrow>
          if target = [] then (None, stop_run StatusStopped NextNull s)
          else (case next_index (rc_plan c) target of
                  Some j \<Rightarrow> (Some j, s)
                | None \<Rightarrow> (None, stop_run StatusBadTarget (NoSuchTarget (be_scrub h (rs_world s) target)) s)))"

section \<open>The loop\<close>

definition ctx_err :: "'w host \<Rightarrow> 'w run_state \<Rightarrow> bool \<times> 'w run_state" where
  "ctx_err h s = (let (b, w) = be_cancelled h (rs_world s) in (b, s\<lparr>rs_world := w\<rparr>))"

definition pause_point :: "'w host \<Rightarrow> 'w run_state \<Rightarrow> 'w run_state" where
  "pause_point h s = s\<lparr>rs_world := be_wait_paused h (rs_world s)\<rparr>"

text \<open>
  One pass of the loop of \<open>iteration\<close>, from the pause point to the wait after the item: the run ends
  (\<open>Stop\<close>) or goes on at an index with the visits counted so far. The visits are a list, one entry for
  each visit.
\<close>

datatype 'w pass = Stop "'w run_state" | Go nat "string list" "'w run_state"

definition run_item ::
    "'w host \<Rightarrow> run_cfg \<Rightarrow> nat \<Rightarrow> nat \<Rightarrow> string list \<Rightarrow> coll_item \<Rightarrow> 'w run_state \<Rightarrow> 'w pass" where
  "run_item h c iter i visits it s0 =
     (let s1 = throttle h c (s0\<lparr>rs_steps := rs_steps s0 + 1\<rparr>);
          (cancelled, s2) = ctx_err h s1
      in if cancelled then Stop (stop_run StatusAborted RunAborted s2)
         else
           (let (res, s3) = execute_step h c it iter s2;
                (item, s4) = record_item h c it iter res s3
            in if should_bail c item then Stop (stop_run StatusBailed (BailedOn (op_bail (rc_options c))) s4)
               else
                 (case advance h c res i s4 of
                    (None, s5) \<Rightarrow> Stop s5
                  | (Some j, s5) \<Rightarrow>
                      Go j visits (if j < length (rc_plan c) then run_sleep h (op_delay (rc_options c)) s5 else s5))))"

definition run_pass ::
    "'w host \<Rightarrow> run_cfg \<Rightarrow> nat \<Rightarrow> nat \<Rightarrow> string list \<Rightarrow> 'w run_state \<Rightarrow> 'w pass" where
  "run_pass h c iter i visits s0 =
     (let (cancelled, s) = ctx_err h (pause_point h s0) in
      if cancelled then Stop (stop_run StatusAborted RunAborted s)
      else if rs_steps s \<ge> max_steps c then Stop (stop_run StatusLoopGuard (StepLimit (max_steps c)) s)
      else
        (let it = rc_plan c ! i; visits = it_uid it # visits in
         if count_list visits (it_uid it) > max_visits c
         then Stop (stop_run StatusLoopGuard (VisitLimit (it_name it) (max_visits c)) s)
         else run_item h c iter i visits it s))"

text \<open>No operation but the pass itself counts a step.\<close>

lemma steps_frame [simp]:
  "rs_steps (stop_run a b s) = rs_steps s"
  "rs_steps (throttle h c s) = rs_steps s"
  "rs_steps (run_sleep h d s) = rs_steps s"
  "rs_steps (commit_changes h c res s) = rs_steps s"
  "rs_steps (store_row h r s) = rs_steps s"
  "rs_steps (pause_point h s) = rs_steps s"
  by (simp_all add: stop_run_def throttle_def run_sleep_def commit_changes_def store_row_def pause_point_def Let_def
      split: prod.split)

lemma steps_frame_pair [simp]:
  "rs_steps (snd (execute_step h c it iter s)) = rs_steps s"
  "rs_steps (snd (record_item h c it iter res s)) = rs_steps s"
  "rs_steps (snd (advance h c res i s)) = rs_steps s"
  "rs_steps (snd (ctx_err h s)) = rs_steps s"
  by (simp_all add: execute_step_def record_item_def advance_def ctx_err_def Let_def
      split: prod.split sum.split option.split)

lemma run_item_Go:
  assumes "run_item h c iter i visits it s0 = Go j visits' s'"
  obtains s2 res s3 item s4 s5 where
    "ctx_err h (throttle h c (s0\<lparr>rs_steps := rs_steps s0 + 1\<rparr>)) = (False, s2)"
    "execute_step h c it iter s2 = (res, s3)" "record_item h c it iter res s3 = (item, s4)"
    "\<not> should_bail c item" "advance h c res i s4 = (Some j, s5)" "visits' = visits"
    "s' = (if j < length (rc_plan c) then run_sleep h (op_delay (rc_options c)) s5 else s5)"
  using assms unfolding run_item_def Let_def by (auto split: prod.splits if_splits option.splits)

lemma run_pass_Go:
  assumes "run_pass h c iter i visits s0 = Go j visits' s'"
  obtains s where "ctx_err h (pause_point h s0) = (False, s)" "rs_steps s < max_steps c"
    "count_list visits (it_uid (rc_plan c ! i)) + 1 \<le> max_visits c"
    "run_item h c iter i (it_uid (rc_plan c ! i) # visits) (rc_plan c ! i) s = Go j visits' s'"
  using assms unfolding run_pass_def Let_def by (auto split: prod.splits if_splits)

lemma run_pass_steps:
  assumes "run_pass h c iter i visits s = Go j visits' s'"
  shows "rs_steps s < max_steps c \<and> rs_steps s' = Suc (rs_steps s)"
proof -
  from assms obtain s1 where s1: "ctx_err h (pause_point h s) = (False, s1)" "rs_steps s1 < max_steps c"
    "run_item h c iter i (it_uid (rc_plan c ! i) # visits) (rc_plan c ! i) s1 = Go j visits' s'"
    by (rule run_pass_Go)
  have e: "rs_steps s1 = rs_steps s" using arg_cong [OF s1(1), of "\<lambda>p. rs_steps (snd p)"] by simp
  from s1(3) obtain s2 res s3 item s4 s5 where
    a: "ctx_err h (throttle h c (s1\<lparr>rs_steps := rs_steps s1 + 1\<rparr>)) = (False, s2)"
    and b: "execute_step h c (rc_plan c ! i) iter s2 = (res, s3)"
    and d: "record_item h c (rc_plan c ! i) iter res s3 = (item, s4)"
    and f: "advance h c res i s4 = (Some j, s5)"
    and g: "s' = (if j < length (rc_plan c) then run_sleep h (op_delay (rc_options c)) s5 else s5)"
    by (rule run_item_Go)
  have "rs_steps s2 = Suc (rs_steps s1)" using arg_cong [OF a, of "\<lambda>p. rs_steps (snd p)"] by simp
  moreover have "rs_steps s3 = rs_steps s2" using arg_cong [OF b, of "\<lambda>p. rs_steps (snd p)"] by simp
  moreover have "rs_steps s4 = rs_steps s3" using arg_cong [OF d, of "\<lambda>p. rs_steps (snd p)"] by simp
  moreover have "rs_steps s5 = rs_steps s4" using arg_cong [OF f, of "\<lambda>p. rs_steps (snd p)"] by simp
  ultimately show ?thesis using e s1(2) g by simp
qed

text \<open>\<open>iteration\<close>: the plan once; \<open>False\<close> ends the whole run. Every pass that goes on counts a step, so the loop ends.\<close>

function run_iteration ::
    "'w host \<Rightarrow> run_cfg \<Rightarrow> nat \<Rightarrow> nat \<Rightarrow> string list \<Rightarrow> 'w run_state \<Rightarrow> bool \<times> 'w run_state" where
  "run_iteration h c iter i visits s =
     (if i < length (rc_plan c) then
        (case run_pass h c iter i visits s of
           Stop s' \<Rightarrow> (False, s')
         | Go j visits' s' \<Rightarrow> run_iteration h c iter j visits' s')
      else (True, s))"
  by pat_completeness auto
termination
  by (relation "measure (\<lambda>(h, c, iter, i, visits, s). max_steps c - rs_steps s)") (auto dest: run_pass_steps)

declare run_iteration.simps [simp del]

text \<open>\<open>loop\<close>: the iterations that are left, from number \<open>iter\<close> on.\<close>

fun run_iterations :: "'w host \<Rightarrow> run_cfg \<Rightarrow> nat \<Rightarrow> nat \<Rightarrow> 'w run_state \<Rightarrow> 'w run_state" where
  "run_iterations h c 0 iter s = s"
| "run_iterations h c (Suc n) iter s =
     (case run_iteration h c iter 0 [] s of
        (True, s') \<Rightarrow> run_iterations h c n (iter + 1) s'
      | (False, s') \<Rightarrow> s')"

definition run_loop :: "'w host \<Rightarrow> run_cfg \<Rightarrow> 'w run_state \<Rightarrow> 'w run_state" where
  "run_loop h c s =
     (let s' = run_iterations h c (rc_iterations c) 0 s in
      if rp_status (rs_report s') = StatusRunning
      then s'\<lparr>rs_report := (rs_report s')\<lparr>rp_status := StatusDone\<rparr>\<rparr> else s')"

section \<open>The run\<close>

definition run_now :: "'w host \<Rightarrow> 'w run_state \<Rightarrow> int \<times> 'w run_state" where
  "run_now h s = (let (t, w) = be_now h (rs_world s) in (t, s\<lparr>rs_world := w\<rparr>))"

definition run_summary_of :: "report \<Rightarrow> run_summary" where
  "run_summary_of rep =
     \<lparr>ru_status = rp_status rep, ru_reason = rp_reason rep, ru_iterations = rp_iterations rep,
      ru_totals = rp_totals rep, ru_persist = pe_mode (rp_persist rep), ru_exit = exit_code rep,
      ru_truncated = rp_truncated rep\<rparr>"

text \<open>\<open>persistHeader\<close>: the id of the run; a failing store never fails the run.\<close>

definition persist_header :: "'w host \<Rightarrow> bool \<Rightarrow> 'w run_state \<Rightarrow> string \<times> 'w run_state" where
  "persist_header h final s =
     (let rep = rs_report s;
          fallback = (\<lambda>w. if rp_run rep \<noteq> [] then (rp_run rep, s\<lparr>rs_world := w\<rparr>)
                          else (let (u, w') = be_new_id h w in (u, s\<lparr>rs_world := w'\<rparr>)))
      in if \<not> be_store h then fallback (rs_world s)
         else
           (let closed = final \<or> rp_status rep = StatusNotApproved;
                (saved, w) = be_put_run h
                  \<lparr>rh_uid = rp_run rep, rh_coll = rp_coll rep, rh_env = rp_env rep, rh_source = rp_source rep,
                   rh_status = rp_status rep, rh_started = rp_started rep,
                   rh_finished = (if closed then rp_finished rep else 0),
                   rh_summary = (if closed then Some (run_summary_of rep) else None)\<rparr> (rs_world s)
            in case saved of None \<Rightarrow> fallback w | Some u \<Rightarrow> (u, s\<lparr>rs_world := w\<rparr>)))"

text \<open>\<open>finishPersist\<close> and \<open>keepCookies\<close>.\<close>

definition finish_persist :: "'w host \<Rightarrow> run_cfg \<Rightarrow> 'w run_state \<Rightarrow> 'w run_state" where
  "finish_persist h c s0 =
     (let pending = overlay_pending (rs_overlay s0);
          views = change_views (be_scrub h (rs_world s0)) pending;
          rep0 = rs_report s0;
          s = s0\<lparr>rs_report := rep0\<lparr>rp_persist := (rp_persist rep0)\<lparr>pe_pending := views\<rparr>\<rparr>\<rparr>;
          rep = rs_report s; pe = rp_persist rep
      in if op_persist (rc_options c) \<noteq> ''ask'' \<or> pending = [] then s
         else
           (let (yes, w) = (case be_decide h of None \<Rightarrow> (False, rs_world s) | Some f \<Rightarrow> f views (rs_world s)) in
            if yes then
              (let (sk, w') = be_commit h (rc_coll c) (op_env (rc_options c)) pending w;
                   skipped = pe_skipped pe @ sk
               in s\<lparr>rs_world := w', rs_commits := rs_commits s @ [pending],
                    rs_report := rep\<lparr>rp_persist := pe\<lparr>pe_decision := ''keep'', pe_skipped := skipped,
                      pe_committed := int (length pending) - int (length skipped)\<rparr>\<rparr>\<rparr>)
            else s\<lparr>rs_world := w, rs_report := rep\<lparr>rp_persist := pe\<lparr>pe_decision := ''discard''\<rparr>\<rparr>\<rparr>))"

definition keep_cookies :: "run_options \<Rightarrow> report \<Rightarrow> bool" where
  "keep_cookies op rep =
     (if op_persist op = ''keep'' then True
      else if op_persist op = ''ask'' then pe_decision (rp_persist rep) \<noteq> ''discard''
      else False)"

datatype run_error =
  InvalidOptions options_error | LoadFailed string | NeedsRunStore | RunRowsFailed string | NothingFailed
| NothingToRun

definition default_to :: "string \<Rightarrow> string \<Rightarrow> string" where
  "default_to d s = (if s = [] then d else s)"

definition fill_defaults :: "run_options \<Rightarrow> run_options" where
  "fill_defaults op =
     op\<lparr>op_source := default_to ''runner'' (op_source op), op_scope_policy := default_to ''block'' (op_scope_policy op),
        op_persist := default_to ''discard'' (op_persist op), op_bail := default_to ''none'' (op_bail op)\<rparr>"

text \<open>What \<open>Run\<close> selects before it starts; \<open>None\<close> when the planning does not return.\<close>

definition pick_items :: "'w host \<Rightarrow> run_options \<Rightarrow> 'w \<Rightarrow> run_error + string list" where
  "pick_items h op w =
     (if op_failed_from op = [] then Inr (op_items op)
      else if \<not> be_store h then Inl NeedsRunStore
      else (case be_run_rows h w (op_failed_from op) of
              Inl e \<Rightarrow> Inl (RunRowsFailed e)
            | Inr rows \<Rightarrow>
                (let failed = failed_item_uids rows in if failed = [] then Inl NothingFailed else Inr failed)))"

definition prepare_run :: "'w host \<Rightarrow> run_options \<Rightarrow> 'w \<Rightarrow> (run_error + run_cfg) option" where
  "prepare_run h op w =
     (case validate_options op of
        Some e \<Rightarrow> Some (Inl (InvalidOptions e))
      | None \<Rightarrow>
          (case be_load h w (op_coll op) of
             Inl e \<Rightarrow> Some (Inl (LoadFailed e))
           | Inr (coll, items) \<Rightarrow>
               (case pick_items h op w of
                  Inl e \<Rightarrow> Some (Inl e)
                | Inr pick \<Rightarrow>
                    (case plan_items items (op_folder op) pick of
                       None \<Rightarrow> None
                     | Some plan \<Rightarrow>
                         Some (if plan = [] then Inl NothingToRun
                               else Inr \<lparr>rc_options = fill_defaults op, rc_coll = coll, rc_items = items,
                                         rc_plan = plan, rc_iterations = iteration_count op\<rparr>)))))"

definition first_report :: "'w host \<Rightarrow> run_cfg \<Rightarrow> 'w \<Rightarrow> int \<Rightarrow> report" where
  "first_report h c w now =
     \<lparr>rp_run = [], rp_coll = co_uid (rc_coll c), rp_env = op_env (rc_options c),
      rp_env_name = be_env_name h w (op_env (rc_options c)), rp_source = op_source (rc_options c),
      rp_status = StatusRunning, rp_reason = NoReason, rp_iterations = rc_iterations c,
      rp_bail = op_bail (rc_options c), rp_scope_policy = op_scope_policy (rc_options c), rp_items = [],
      rp_totals = zero_totals,
      rp_persist = \<lparr>pe_mode = op_persist (rc_options c), pe_decision = [], pe_pending = [], pe_committed = 0, pe_skipped = []\<rparr>,
      rp_quarantined = [], rp_truncated = False, rp_started = now, rp_finished = 0\<rparr>"

definition start_state :: "'w host \<Rightarrow> run_cfg \<Rightarrow> 'w \<Rightarrow> 'w run_state" where
  "start_state h c w =
     (let (now, w') = be_now h w in
      \<lparr>rs_world = w', rs_report = first_report h c w now, rs_overlay = new_overlay, rs_steps = 0, rs_seq = 0,
       rs_next_at = 0, rs_marker = False, rs_rows = [], rs_events = [], rs_commits = []\<rparr>)"

definition set_run_id :: "string \<times> 'w run_state \<Rightarrow> 'w run_state" where
  "set_run_id p = (let (u, s) = p in s\<lparr>rs_report := (rs_report s)\<lparr>rp_run := u\<rparr>\<rparr>)"

definition finish_time :: "'w host \<Rightarrow> 'w run_state \<Rightarrow> 'w run_state" where
  "finish_time h s = (let (t, s') = run_now h s in s'\<lparr>rs_report := (rs_report s')\<lparr>rp_finished := t\<rparr>\<rparr>)"

definition refuse_run :: "'w host \<Rightarrow> quarantined_script list \<Rightarrow> 'w run_state \<Rightarrow> 'w run_state" where
  "refuse_run h q s =
     (let rep = rs_report s in
      set_run_id (persist_header h False (finish_time h
        (s\<lparr>rs_report := rep\<lparr>rp_quarantined := q, rp_totals := (rp_totals rep)\<lparr>to_quarantined := length q\<rparr>,
           rp_status := StatusNotApproved, rp_reason := ScriptsNotApproved\<rparr>\<rparr>))))"

definition log_event :: "run_event \<Rightarrow> 'w run_state \<Rightarrow> 'w run_state" where
  "log_event e s = s\<lparr>rs_events := rs_events s @ [e]\<rparr>"

definition finish_cookies :: "'w host \<Rightarrow> run_cfg \<Rightarrow> jar_cookie list option \<Rightarrow> 'w run_state \<Rightarrow> 'w run_state" where
  "finish_cookies h c snap s =
     (case (be_session h, snap) of
        (Some (_, fin), Some cs) \<Rightarrow> s\<lparr>rs_world := fin cs (keep_cookies (rc_options c) (rs_report s)) (rs_world s)\<rparr>
      | _ \<Rightarrow> s)"

definition run_plan :: "'w host \<Rightarrow> run_cfg \<Rightarrow> 'w \<Rightarrow> 'w run_state" where
  "run_plan h c w =
     (let s0 = start_state h c w; op = rc_options c;
          q = (if op_fail_on_quarantine op \<and> \<not> op_no_scripts op
               then untrusted_in_plan (be_decoder h) (be_trusted h (rs_world s0)) (rc_coll c) (rc_items c) (rc_plan c) else [])
      in if q \<noteq> [] then refuse_run h q s0
         else
           (let s1 = set_run_id (persist_header h False s0);
                s2 = log_event (EvStart (rp_run (rs_report s1)) (length (rc_plan c) * rc_iterations c)) s1;
                snap = (case be_session h of None \<Rightarrow> None | Some (f, _) \<Rightarrow> Some (f (rs_world s2)));
                s3 = finish_persist h c (run_loop h c s2);
                s4 = finish_time h (finish_cookies h c snap s3);
                s5 = snd (persist_header h True s4)
            in log_event (EvDone (rp_run (rs_report s5)) (rp_totals (rs_report s5)) (rp_status (rs_report s5))) s5))"

definition run_collection :: "'w host \<Rightarrow> run_options \<Rightarrow> 'w \<Rightarrow> (run_error + 'w run_state) option" where
  "run_collection h op w =
     map_option (\<lambda>r. case r of Inl e \<Rightarrow> Inl e | Inr c \<Rightarrow> Inr (run_plan h c w)) (prepare_run h op w)"

end
