(* ===== verification/CollRunProps.thy ===== *)
theory CollRunProps
  imports CollRun
begin

text \<open>
  What holds of every run of CollRun: the rule for invariants of the loop, the accounts of the report,
  the limits, the order of the requests, the reasons a run stops for, what is committed and what is shown.
\<close>

section \<open>Invariants of the loop\<close>

lemma world_frame:
  "\<exists>w t. throttle h c s = s\<lparr>rs_world := w, rs_next_at := t\<rparr>"
  "\<exists>w t. run_sleep h d s = s\<lparr>rs_world := w, rs_next_at := t\<rparr>"
  "\<exists>w t. pause_point h s = s\<lparr>rs_world := w, rs_next_at := t\<rparr>"
  "\<exists>w t. snd (ctx_err h s) = s\<lparr>rs_world := w, rs_next_at := t\<rparr>"
  "\<exists>w t. snd (execute_step h c it iter s) = s\<lparr>rs_world := w, rs_next_at := t\<rparr>"
proof -
  have id: "\<exists>w t. s = s\<lparr>rs_world := w, rs_next_at := t\<rparr>"
    by (intro exI [of _ "rs_world s"] exI [of _ "rs_next_at s"]) simp
  have w: "\<exists>w' t. s\<lparr>rs_world := w\<rparr> = s\<lparr>rs_world := w', rs_next_at := t\<rparr>" for w
    by (intro exI [of _ w] exI [of _ "rs_next_at s"]) simp
  show "\<exists>w t. throttle h c s = s\<lparr>rs_world := w, rs_next_at := t\<rparr>"
    unfolding throttle_def Let_def
    by (cases "op_rps (rc_options c) \<le> 0"; simp split: prod.split; (use id in blast)?)
  show "\<exists>w t. run_sleep h d s = s\<lparr>rs_world := w, rs_next_at := t\<rparr>"
    unfolding run_sleep_def using id w by (cases "d \<le> 0") simp_all
  show "\<exists>w t. pause_point h s = s\<lparr>rs_world := w, rs_next_at := t\<rparr>"
    unfolding pause_point_def by (rule w)
  show "\<exists>w t. snd (ctx_err h s) = s\<lparr>rs_world := w, rs_next_at := t\<rparr>"
    unfolding ctx_err_def Let_def using w by (auto split: prod.split)
  show "\<exists>w t. snd (execute_step h c it iter s) = s\<lparr>rs_world := w, rs_next_at := t\<rparr>"
    unfolding execute_step_def Let_def using id w by (auto split: prod.split sum.split option.split)
qed

text \<open>
  The contract between the loop and a property of its state: it survives the waits and the calls of the
  host, the counting of a step, the recording of an item and the stop.
\<close>

locale run_invariant =
  fixes h :: "'w host" and c :: run_cfg and P :: "'w run_state \<Rightarrow> bool"
  assumes world: "P s \<Longrightarrow> P (s\<lparr>rs_world := w, rs_next_at := t\<rparr>)"
    and count: "P s \<Longrightarrow> rs_steps s < max_steps c \<Longrightarrow> P (s\<lparr>rs_steps := rs_steps s + 1\<rparr>)"
    and item: "P s \<Longrightarrow> rs_steps s < max_steps c \<Longrightarrow> it \<in> set (rc_plan c) \<Longrightarrow> iter < rc_iterations c \<Longrightarrow>
      P (snd (record_item h c it iter res (s\<lparr>rs_steps := rs_steps s + 1, rs_world := w, rs_next_at := t\<rparr>)))"
    and stop: "P s \<Longrightarrow> P (stop_run a b s)"
begin

lemma run_item:
  assumes "P s" "rs_steps s < max_steps c" "it \<in> set (rc_plan c)" "iter < rc_iterations c"
  shows "case run_item h c iter i visits it s of Stop s' \<Rightarrow> P s' | Go j v s' \<Rightarrow> P s'"
proof -
  let ?s1 = "throttle h c (s\<lparr>rs_steps := rs_steps s + 1\<rparr>)"
  obtain b s2 where s2: "ctx_err h ?s1 = (b, s2)" by fastforce
  obtain w t where wt: "s2 = s\<lparr>rs_steps := rs_steps s + 1, rs_world := w, rs_next_at := t\<rparr>"
    using world_frame(1) [of h c "s\<lparr>rs_steps := rs_steps s + 1\<rparr>"] world_frame(4) [of h ?s1] s2 by auto
  have p2: "P s2" unfolding wt using world [OF count [OF assms(1,2)], where w = w and t = t] by simp
  obtain res s3 where s3: "execute_step h c it iter s2 = (res, s3)" by fastforce
  obtain w' t' where wt': "s3 = s\<lparr>rs_steps := rs_steps s + 1, rs_world := w', rs_next_at := t'\<rparr>"
    using world_frame(5) [of h c it iter s2] s3 wt by auto
  obtain r s4 where s4: "record_item h c it iter res s3 = (r, s4)" by fastforce
  have p4: "P s4" using item [OF assms, where res = res and w = w' and t = t'] s4 wt' by simp
  have adv: "P s5" if "advance h c res i s4 = (n, s5)" for n s5
    using that p4 stop by (auto simp: advance_def split: option.splits if_splits)
  have "P (run_sleep h d s5)" if "P s5" for d s5
    using world_frame(2) [of h d s5] world [OF that] by auto
  then show ?thesis
    unfolding run_item_def Let_def s2 s3 s4 prod.case
    using p2 p4 stop adv by (auto split: option.splits prod.splits)
qed

lemma run_pass:
  assumes "P s" "i < length (rc_plan c)" "iter < rc_iterations c"
  shows "case run_pass h c iter i visits s of Stop s' \<Rightarrow> P s' | Go j v s' \<Rightarrow> P s'"
proof -
  obtain b s1 where s1: "ctx_err h (pause_point h s) = (b, s1)" by fastforce
  obtain w t where "s1 = s\<lparr>rs_world := w, rs_next_at := t\<rparr>"
    using world_frame(3) [of h s] world_frame(4) [of h "pause_point h s"] s1 by auto
  then have p1: "P s1" using world [OF assms(1)] by simp
  from run_item [OF p1 _ nth_mem [OF assms(2)] assms(3)] show ?thesis
    unfolding run_pass_def Let_def s1 prod.case using p1 stop by auto
qed

lemma run_iteration: "P s \<Longrightarrow> iter < rc_iterations c \<Longrightarrow> P (snd (run_iteration h c iter i visits s))"
proof (induction "max_steps c - rs_steps s" arbitrary: i visits s rule: less_induct)
  case less
  show ?case
  proof (cases "i < length (rc_plan c)")
    case True
    note pass = run_pass [OF less.prems(1) True less.prems(2), of visits]
    show ?thesis
    proof (cases "run_pass h c iter i visits s")
      case (Stop s')
      with pass True show ?thesis by (simp add: run_iteration.simps)
    next
      case (Go j v s')
      have "P s'" using pass Go by simp
      moreover have "max_steps c - rs_steps s' < max_steps c - rs_steps s" using run_pass_steps [OF Go] by arith
      ultimately have "P (snd (run_iteration h c iter j v s'))" using less by blast
      with Go True show ?thesis by (simp add: run_iteration.simps [of h c iter i])
    qed
  next
    case False
    with less.prems show ?thesis by (simp add: run_iteration.simps)
  qed
qed

lemma run_iterations: "P s \<Longrightarrow> n + iter \<le> rc_iterations c \<Longrightarrow> P (run_iterations h c n iter s)"
proof (induction n arbitrary: iter s)
  case (Suc n)
  obtain b s' where s': "run_iteration h c iter 0 [] s = (b, s')" by fastforce
  have "P s'" using run_iteration [OF Suc.prems(1), of iter 0 "[]"] Suc.prems(2) s' by simp
  then show ?case using Suc.IH [of s' "iter + 1"] Suc.prems(2) s' by (cases b) simp_all
qed simp

lemma run_all: "P s \<Longrightarrow> P (run_iterations h c (rc_iterations c) 0 s)"
  by (rule run_iterations) simp_all

end

section \<open>The accounts of a run\<close>

text \<open>What the listeners of a run are told about, in order.\<close>

definition event_items :: "run_event list \<Rightarrow> item_result list" where
  "event_items es = List.map_filter (\<lambda>e. case e of EvItem _ it _ \<Rightarrow> Some it | _ \<Rightarrow> None) es"

abbreviation item_log :: "'w run_state \<Rightarrow> item_result list" where
  "item_log s \<equiv> event_items (rs_events s)"

lemma event_items_simps [simp]:
  "event_items [] = []"
  "event_items (es @ [EvItem u it tt]) = event_items es @ [it]"
  "event_items (es @ [EvStart u k]) = event_items es"
  "event_items (es @ [EvDone u tt st]) = event_items es"
  by (simp_all add: event_items_def map_filter_def)

text \<open>The report and the stored rows are functions of that log.\<close>

definition kept_rows :: "'w host \<Rightarrow> run_cfg \<Rightarrow> string \<Rightarrow> item_result list \<Rightarrow> run_row list" where
  "kept_rows h c u its =
     (if be_store h
      then map (RowItem u) (take (max_rows c) its) @ (if max_rows c < length its then [RowMarker u (max_rows c)] else [])
      else [])"

definition accounts_ok :: "'w host \<Rightarrow> run_cfg \<Rightarrow> 'w run_state \<Rightarrow> bool" where
  "accounts_ok h c s \<longleftrightarrow>
     rs_seq s = length (item_log s) \<and> rs_seq s \<le> rs_steps s \<and> rs_steps s \<le> max_steps c
     \<and> map ir_seq (item_log s) = [1..<Suc (length (item_log s))]
     \<and> (\<forall>it\<in>set (item_log s). ir_uid it \<in> it_uid ` set (rc_plan c) \<and> ir_iteration it < rc_iterations c)
     \<and> rp_totals (rs_report s) = fold add_totals (item_log s) zero_totals
     \<and> rp_items (rs_report s) = take (max_rows c) (item_log s)
     \<and> (rp_truncated (rs_report s) \<longleftrightarrow> max_rows c < length (item_log s))
     \<and> (rs_marker s \<longleftrightarrow> max_rows c < length (item_log s))
     \<and> rs_rows s = kept_rows h c (rp_run (rs_report s)) (item_log s)"

lemma commit_changes_frame [simp]:
  "rs_seq (commit_changes h c res s) = rs_seq s" "rs_marker (commit_changes h c res s) = rs_marker s"
  "rs_rows (commit_changes h c res s) = rs_rows s" "rs_events (commit_changes h c res s) = rs_events s"
  "rp_items (rs_report (commit_changes h c res s)) = rp_items (rs_report s)"
  "rp_totals (rs_report (commit_changes h c res s)) = rp_totals (rs_report s)"
  "rp_truncated (rs_report (commit_changes h c res s)) = rp_truncated (rs_report s)"
  "rp_run (rs_report (commit_changes h c res s)) = rp_run (rs_report s)"
  "rp_status (rs_report (commit_changes h c res s)) = rp_status (rs_report s)"
  "rp_reason (rs_report (commit_changes h c res s)) = rp_reason (rs_report s)"
  by (simp_all add: commit_changes_def Let_def split: prod.split)

lemma record_item_fields:
  assumes r: "record_item h c it iter res s = (item, s')"
  defines "full \<equiv> \<not> length (rp_items (rs_report s)) < max_rows c"
  shows "item = build_item (be_scrub h (rs_world (commit_changes h c res s))) (rc_items c) (rs_seq s + 1) it iter res"
    and "rs_seq s' = rs_seq s + 1" and "rs_steps s' = rs_steps s"
    and "item_log s' = item_log s @ [item]"
    and "rp_totals (rs_report s') = add_totals item (rp_totals (rs_report s))"
    and "rp_items (rs_report s') = (if full then rp_items (rs_report s) else rp_items (rs_report s) @ [item])"
    and "rp_truncated (rs_report s') = (rp_truncated (rs_report s) \<or> full \<and> \<not> rs_marker s)"
    and "rs_marker s' = (rs_marker s \<or> full)"
    and "rp_run (rs_report s') = rp_run (rs_report s)"
    and "rp_status (rs_report s') = rp_status (rs_report s)"
    and "rp_reason (rs_report s') = rp_reason (rs_report s)"
    and "rs_rows s' = rs_rows s @ (if \<not> be_store h then [] else if \<not> full then [RowItem (rp_run (rs_report s)) item]
           else if \<not> rs_marker s then [RowMarker (rp_run (rs_report s)) (max_rows c)] else [])"
    and "rs_commits s' = rs_commits (commit_changes h c res s)"
    and "rs_overlay s' = rs_overlay (commit_changes h c res s)"
    and "rs_world s' = rs_world (commit_changes h c res s)"
    and "rp_persist (rs_report s') = rp_persist (rs_report (commit_changes h c res s))"
  using r unfolding record_item_def Let_def full_def
  by (auto simp: store_row_def split: if_splits)

lemma stop_run_frame [simp]:
  "rs_seq (stop_run a b s) = rs_seq s" "rs_marker (stop_run a b s) = rs_marker s"
  "rs_rows (stop_run a b s) = rs_rows s" "rs_events (stop_run a b s) = rs_events s"
  "rs_commits (stop_run a b s) = rs_commits s" "rs_overlay (stop_run a b s) = rs_overlay s"
  "rp_items (rs_report (stop_run a b s)) = rp_items (rs_report s)"
  "rp_totals (rs_report (stop_run a b s)) = rp_totals (rs_report s)"
  "rp_truncated (rs_report (stop_run a b s)) = rp_truncated (rs_report s)"
  "rp_run (rs_report (stop_run a b s)) = rp_run (rs_report s)"
  "rp_persist (rs_report (stop_run a b s)) = rp_persist (rs_report s)"
  by (simp_all add: stop_run_def stop_report_def)

lemma accounts_item:
  assumes a: "accounts_ok h c s" and st: "rs_steps s < max_steps c" and it: "it \<in> set (rc_plan c)"
    and iter: "iter < rc_iterations c"
  shows "accounts_ok h c (snd (record_item h c it iter res (s\<lparr>rs_steps := rs_steps s + 1, rs_world := w, rs_next_at := t\<rparr>)))"
proof -
  let ?s = "s\<lparr>rs_steps := rs_steps s + 1, rs_world := w, rs_next_at := t\<rparr>"
  obtain item s' where r: "record_item h c it iter res ?s = (item, s')" by fastforce
  note f = record_item_fields [OF r]
  have item: "ir_uid item = it_uid it" "ir_iteration item = iter" "ir_seq item = rs_seq s + 1"
    unfolding f(1) by (simp_all add: build_item_def)
  let ?n = "length (item_log s)"
  have items: "rp_items (rs_report s) = take (max_rows c) (item_log s)" using a by (simp add: accounts_ok_def)
  then have full: "length (rp_items (rs_report s)) < max_rows c \<longleftrightarrow> ?n < max_rows c" by auto
  have rows: "rs_rows s' = kept_rows h c (rp_run (rs_report s)) (item_log s @ [item])"
    using a f(12) full by (auto simp: accounts_ok_def kept_rows_def take_Cons')
  have fr: "rs_seq s' = rs_seq s + 1" "rs_steps s' = rs_steps s + 1" "item_log s' = item_log s @ [item]"
    "rp_run (rs_report s') = rp_run (rs_report s)"
    using f(2,3,4,9) by simp_all
  have "rp_items (rs_report s') = take (max_rows c) (item_log s @ [item])" using f(6) items full by auto
  moreover have "rp_truncated (rs_report s') \<longleftrightarrow> max_rows c < Suc ?n"
    "rs_marker s' \<longleftrightarrow> max_rows c < Suc ?n"
    using f(7,8) a full by (auto simp: accounts_ok_def)
  moreover have "rp_totals (rs_report s') = fold add_totals (item_log s @ [item]) zero_totals"
    using f(5) a by (simp add: accounts_ok_def)
  moreover have "map ir_seq (item_log s @ [item]) = [1..<Suc (Suc ?n)]"
    using a item(3) by (simp add: accounts_ok_def)
  ultimately show ?thesis
    using a rows fr st it iter item(1,2) unfolding r snd_conv accounts_ok_def by auto
qed

interpretation accounts: run_invariant h c "accounts_ok h c" for h :: "'w host" and c
proof
  fix s :: "'w run_state" and it iter res w t
  assume "accounts_ok h c s" "rs_steps s < max_steps c" "it \<in> set (rc_plan c)" "iter < rc_iterations c"
  then show "accounts_ok h c (snd (record_item h c it iter res (s\<lparr>rs_steps := rs_steps s + 1, rs_world := w, rs_next_at := t\<rparr>)))"
    by (rule accounts_item)
qed (auto simp: accounts_ok_def)

section \<open>From the loop to the run\<close>

text \<open>A run that has just started.\<close>

definition fresh_run :: "run_cfg \<Rightarrow> 'w run_state \<Rightarrow> bool" where
  "fresh_run c s \<longleftrightarrow>
     rs_steps s = 0 \<and> rs_seq s = 0 \<and> item_log s = [] \<and> rs_rows s = [] \<and> \<not> rs_marker s \<and> rs_commits s = []
     \<and> rs_overlay s = new_overlay \<and> rp_items (rs_report s) = [] \<and> rp_totals (rs_report s) = zero_totals
     \<and> rp_status (rs_report s) = StatusRunning \<and> rp_reason (rs_report s) = NoReason \<and> \<not> rp_truncated (rs_report s)
     \<and> rp_quarantined (rs_report s) = []
     \<and> rp_persist (rs_report s) = \<lparr>pe_mode = op_persist (rc_options c), pe_decision = [], pe_pending = [],
          pe_committed = 0, pe_skipped = []\<rparr>"

text \<open>Two states of the same run, up to the world and the end time.\<close>

definition same_run :: "'w run_state \<Rightarrow> 'w run_state \<Rightarrow> bool" where
  "same_run s t \<longleftrightarrow>
     rs_steps s = rs_steps t \<and> rs_seq s = rs_seq t \<and> item_log s = item_log t \<and> rs_rows s = rs_rows t
     \<and> rs_marker s = rs_marker t \<and> rs_commits s = rs_commits t \<and> rs_overlay s = rs_overlay t
     \<and> (rs_report s)\<lparr>rp_finished := 0\<rparr> = (rs_report t)\<lparr>rp_finished := 0\<rparr>"

lemma same_run_refl [simp]: "same_run s s"
  by (simp add: same_run_def)

lemma same_run_trans: "same_run s t \<Longrightarrow> same_run t u \<Longrightarrow> same_run s u"
  by (simp add: same_run_def)

lemma same_run_steps:
  "same_run (snd (persist_header h b s)) s"
  "same_run (finish_time h s) s"
  "same_run (finish_cookies h c snap s) s"
  "same_run (log_event (EvDone u tt st) s) s"
  by (auto simp: same_run_def persist_header_def finish_time_def run_now_def finish_cookies_def log_event_def Let_def
      split: prod.split option.split)

lemma same_run_report:
  assumes "same_run s t"
  shows "rp_status (rs_report s) = rp_status (rs_report t)" "rp_items (rs_report s) = rp_items (rs_report t)"
    "rp_totals (rs_report s) = rp_totals (rs_report t)" "rp_truncated (rs_report s) = rp_truncated (rs_report t)"
    "rp_run (rs_report s) = rp_run (rs_report t)" "rp_persist (rs_report s) = rp_persist (rs_report t)"
    "rp_reason (rs_report s) = rp_reason (rs_report t)" "rp_quarantined (rs_report s) = rp_quarantined (rs_report t)"
proof -
  have e: "(rs_report s)\<lparr>rp_finished := 0\<rparr> = (rs_report t)\<lparr>rp_finished := 0\<rparr>" using assms by (simp add: same_run_def)
  show "rp_status (rs_report s) = rp_status (rs_report t)" using arg_cong [OF e, of rp_status] by simp
  show "rp_items (rs_report s) = rp_items (rs_report t)" using arg_cong [OF e, of rp_items] by simp
  show "rp_totals (rs_report s) = rp_totals (rs_report t)" using arg_cong [OF e, of rp_totals] by simp
  show "rp_truncated (rs_report s) = rp_truncated (rs_report t)" using arg_cong [OF e, of rp_truncated] by simp
  show "rp_run (rs_report s) = rp_run (rs_report t)" using arg_cong [OF e, of rp_run] by simp
  show "rp_persist (rs_report s) = rp_persist (rs_report t)" using arg_cong [OF e, of rp_persist] by simp
  show "rp_reason (rs_report s) = rp_reason (rs_report t)" using arg_cong [OF e, of rp_reason] by simp
  show "rp_quarantined (rs_report s) = rp_quarantined (rs_report t)" using arg_cong [OF e, of rp_quarantined] by simp
qed

lemma fresh_start:
  "fresh_run c (log_event (EvStart u k) (set_run_id (persist_header h False (start_state h c w))))"
  by (auto simp: fresh_run_def log_event_def set_run_id_def persist_header_def start_state_def first_report_def Let_def
      event_items_def map_filter_def split: prod.split option.split)

text \<open>A run is refused before its first request, or is its loop from a fresh state and the closing steps.\<close>

lemma run_plan_cases:
  obtains (refused) q where "q \<noteq> []" "run_plan h c w = refuse_run h q (start_state h c w)"
    "q = untrusted_in_plan (be_decoder h) (be_trusted h (rs_world (start_state h c w))) (rc_coll c) (rc_items c) (rc_plan c)"
  | (ran) s where "fresh_run c s" "same_run (run_plan h c w) (finish_persist h c (run_loop h c s))"
proof -
  define q where "q = (if op_fail_on_quarantine (rc_options c) \<and> \<not> op_no_scripts (rc_options c)
      then untrusted_in_plan (be_decoder h) (be_trusted h (rs_world (start_state h c w))) (rc_coll c) (rc_items c) (rc_plan c) else [])"
  show thesis
  proof (cases "q = []")
    case False
    then have "run_plan h c w = refuse_run h q (start_state h c w)" by (simp add: run_plan_def q_def Let_def)
    with False show thesis by (intro refused [of q]) (auto simp: q_def split: if_splits)
  next
    case True
    let ?s1 = "set_run_id (persist_header h False (start_state h c w))"
    let ?s2 = "log_event (EvStart (rp_run (rs_report ?s1)) (length (rc_plan c) * rc_iterations c)) ?s1"
    have "same_run (run_plan h c w) (finish_persist h c (run_loop h c ?s2))"
      using True unfolding run_plan_def Let_def q_def [symmetric]
      by simp (meson same_run_steps same_run_trans)
    with fresh_start show thesis by (rule ran)
  qed
qed

lemma run_loop_frame:
  "\<exists>st. run_loop h c s = (run_iterations h c (rc_iterations c) 0 s)
       \<lparr>rs_report := (rs_report (run_iterations h c (rc_iterations c) 0 s))\<lparr>rp_status := st\<rparr>\<rparr>
     \<and> st = (if rp_status (rs_report (run_iterations h c (rc_iterations c) 0 s)) = StatusRunning then StatusDone
             else rp_status (rs_report (run_iterations h c (rc_iterations c) 0 s)))"
  by (simp add: run_loop_def Let_def)

lemma finish_persist_frame [simp]:
  "rs_steps (finish_persist h c s) = rs_steps s" "rs_seq (finish_persist h c s) = rs_seq s"
  "rs_events (finish_persist h c s) = rs_events s" "rs_rows (finish_persist h c s) = rs_rows s"
  "rs_marker (finish_persist h c s) = rs_marker s" "rs_overlay (finish_persist h c s) = rs_overlay s"
  "rp_items (rs_report (finish_persist h c s)) = rp_items (rs_report s)"
  "rp_totals (rs_report (finish_persist h c s)) = rp_totals (rs_report s)"
  "rp_truncated (rs_report (finish_persist h c s)) = rp_truncated (rs_report s)"
  "rp_run (rs_report (finish_persist h c s)) = rp_run (rs_report s)"
  "rp_status (rs_report (finish_persist h c s)) = rp_status (rs_report s)"
  "rp_reason (rs_report (finish_persist h c s)) = rp_reason (rs_report s)"
  by (simp_all add: finish_persist_def Let_def split: prod.split)

lemma accounts_same:
  assumes "same_run s t" "accounts_ok h c t"
  shows "accounts_ok h c s"
  using assms(2) same_run_report [OF assms(1)] assms(1) unfolding accounts_ok_def same_run_def by simp

lemma report_accounts_run:
  assumes "fresh_run c s"
  shows "accounts_ok h c (finish_persist h c (run_loop h c s))"
proof -
  have "accounts_ok h c s" using assms by (auto simp: fresh_run_def accounts_ok_def kept_rows_def)
  from accounts.run_all [OF this] obtain st where
    "accounts_ok h c (run_loop h c s)" using run_loop_frame [of h c s] by (auto simp: accounts_ok_def)
  then show ?thesis by (simp add: accounts_ok_def)
qed

text \<open>The state of a refused run.\<close>

lemma refused_run:
  "rp_status (rs_report (refuse_run h q (start_state h c w))) = StatusNotApproved
   \<and> rp_quarantined (rs_report (refuse_run h q (start_state h c w))) = q
   \<and> rs_events (refuse_run h q (start_state h c w)) = [] \<and> rs_commits (refuse_run h q (start_state h c w)) = []
   \<and> rs_rows (refuse_run h q (start_state h c w)) = [] \<and> rs_steps (refuse_run h q (start_state h c w)) = 0"
  by (auto simp: refuse_run_def set_run_id_def persist_header_def finish_time_def run_now_def start_state_def
      first_report_def Let_def split: prod.split option.split)


lemma run_collection_run:
  "run_collection h op w = Some (Inr (s :: 'a run_state)) \<Longrightarrow> \<exists>c. prepare_run h op w = Some (Inr c) \<and> s = run_plan h c w"
proof -
  assume "run_collection h op w = Some (Inr s)"
  then obtain z where z: "prepare_run h op w = Some z"
    "(case z of Inl e \<Rightarrow> Inl e | Inr c \<Rightarrow> Inr (run_plan h c w)) = (Inr s :: run_error + 'a run_state)"
    by (auto simp: run_collection_def)
  then show ?thesis by (cases z) auto
qed

section \<open>Where a run stands\<close>

definition item_key :: "item_result \<Rightarrow> string \<times> nat" where
  "item_key it = (ir_uid it, ir_iteration it)"

text \<open>The plan over and over, with the numbers of the iterations.\<close>

definition plan_order :: "run_cfg \<Rightarrow> (string \<times> nat) list" where
  "plan_order c =
     (let n = length (rc_plan c) in
      map (\<lambda>k. (it_uid (rc_plan c ! (k mod n)), k div n)) [0..<rc_iterations c * n])"

definition no_jumps :: "item_result list \<Rightarrow> bool" where
  "no_jumps its \<longleftrightarrow> (\<forall>it\<in>set its. ir_next it = None)"

definition quiet :: "run_cfg \<Rightarrow> item_result list \<Rightarrow> bool" where
  "quiet c its \<longleftrightarrow> (\<forall>it\<in>set its. \<not> should_bail c it)"

text \<open>The loop at index \<open>i\<close> of an iteration, with the visits counted so far.\<close>

definition at_point :: "run_cfg \<Rightarrow> nat \<Rightarrow> nat \<Rightarrow> string list \<Rightarrow> 'w run_state \<Rightarrow> bool" where
  "at_point c iter i visits s \<longleftrightarrow>
     i \<le> length (rc_plan c) \<and> rp_status (rs_report s) = StatusRunning \<and> rp_reason (rs_report s) = NoReason
     \<and> quiet c (item_log s)
     \<and> (\<forall>u k. count_list (map item_key (item_log s)) (u, k)
           \<le> (if k < iter then max_visits c else if k = iter then count_list visits u else 0))
     \<and> (\<forall>u. count_list visits u \<le> max_visits c)
     \<and> (no_jumps (item_log s) \<longrightarrow> map item_key (item_log s) = take (iter * length (rc_plan c) + i) (plan_order c))"

text \<open>Why a loop broke off, read off its log.\<close>

definition stop_true :: "run_cfg \<Rightarrow> 'w run_state \<Rightarrow> bool" where
  "stop_true c s \<longleftrightarrow>
     (case rp_reason (rs_report s) of
        NoReason \<Rightarrow> False
      | RunAborted \<Rightarrow> rp_status (rs_report s) = StatusAborted \<and> quiet c (item_log s)
      | StepLimit n \<Rightarrow> rp_status (rs_report s) = StatusLoopGuard \<and> n = max_steps c \<and> n \<le> rs_steps s \<and> quiet c (item_log s)
      | VisitLimit nm n \<Rightarrow>
          rp_status (rs_report s) = StatusLoopGuard \<and> n = max_visits c \<and> nm \<in> it_name ` set (rc_plan c) \<and> quiet c (item_log s)
      | BailedOn m \<Rightarrow>
          rp_status (rs_report s) = StatusBailed \<and> m = op_bail (rc_options c) \<and> item_log s \<noteq> []
          \<and> quiet c (butlast (item_log s)) \<and> should_bail c (last (item_log s))
      | NextNull \<Rightarrow>
          rp_status (rs_report s) = StatusStopped \<and> quiet c (item_log s) \<and> item_log s \<noteq> []
          \<and> ir_next (last (item_log s)) \<noteq> None
      | NoSuchTarget t \<Rightarrow>
          rp_status (rs_report s) = StatusBadTarget \<and> quiet c (item_log s) \<and> item_log s \<noteq> []
          \<and> ir_next (last (item_log s)) = Some t
      | ScriptsNotApproved \<Rightarrow> False)"

definition ended :: "run_cfg \<Rightarrow> 'w run_state \<Rightarrow> bool" where
  "ended c s \<longleftrightarrow>
     stop_true c s \<and> (\<forall>u k. count_list (map item_key (item_log s)) (u, k) \<le> max_visits c)
     \<and> (no_jumps (item_log s) \<longrightarrow> prefix (map item_key (item_log s)) (plan_order c))"

lemma at_point_cong:
  "rs_report s = rs_report t \<Longrightarrow> rs_events s = rs_events t \<Longrightarrow> at_point c iter i visits s = at_point c iter i visits t"
  by (simp add: at_point_def)

lemma plan_order_nth:
  assumes "i < length (rc_plan c)" "iter < rc_iterations c"
  shows "iter * length (rc_plan c) + i < length (plan_order c)"
    "plan_order c ! (iter * length (rc_plan c) + i) = (it_uid (rc_plan c ! i), iter)"
proof -
  have "(iter + 1) * length (rc_plan c) \<le> rc_iterations c * length (rc_plan c)"
    using assms(2) by (intro mult_le_mono1) simp
  then show l: "iter * length (rc_plan c) + i < length (plan_order c)"
    using assms(1) by (simp add: plan_order_def Let_def)
  have "(iter * length (rc_plan c) + i) div length (rc_plan c) = iter"
    by (subst add.commute, subst div_mult_self1) (use assms(1) in auto)
  with l show "plan_order c ! (iter * length (rc_plan c) + i) = (it_uid (rc_plan c ! i), iter)"
    using assms(1) by (simp add: plan_order_def Let_def)
qed

text \<open>The log after one more item.\<close>

lemma at_point_record:
  assumes a: "at_point c iter i visits0 s0" and i: "i < length (rc_plan c)" and iter: "iter < rc_iterations c"
    and s: "rs_report s = rs_report s0" "rs_events s = rs_events s0"
    and v: "visits = it_uid (rc_plan c ! i) # visits0" "count_list visits (it_uid (rc_plan c ! i)) \<le> max_visits c"
    and r: "record_item h c (rc_plan c ! i) iter res s = (item, s')"
  shows "rp_status (rs_report s') = StatusRunning" "rp_reason (rs_report s') = NoReason"
    "item_log s' = item_log s0 @ [item]" "quiet c (item_log s0)"
    "\<forall>u k. count_list (map item_key (item_log s')) (u, k)
       \<le> (if k < iter then max_visits c else if k = iter then count_list visits u else 0)"
    "\<forall>u. count_list visits u \<le> max_visits c"
    "no_jumps (item_log s') \<longrightarrow>
       map item_key (item_log s') = take (iter * length (rc_plan c) + (i + 1)) (plan_order c)"
    "ir_next item = map_option (be_scrub h (rs_world s')) (sr_next res)"
proof -
  note f = record_item_fields [OF r]
  show st: "rp_status (rs_report s') = StatusRunning" "rp_reason (rs_report s') = NoReason"
    using a s f(10,11) by (simp_all add: at_point_def)
  show l: "item_log s' = item_log s0 @ [item]" using f(4) s by simp
  show "quiet c (item_log s0)" using a by (simp add: at_point_def)
  have k: "item_key item = (it_uid (rc_plan c ! i), iter)" unfolding f(1) by (simp add: build_item_def item_key_def)
  show "\<forall>u k. count_list (map item_key (item_log s')) (u, k)
       \<le> (if k < iter then max_visits c else if k = iter then count_list visits u else 0)"
  proof (intro allI)
    fix u n
    have "count_list (map item_key (item_log s0)) (u, n)
        \<le> (if n < iter then max_visits c else if n = iter then count_list visits0 u else 0)"
      using a unfolding at_point_def by blast
    then show "count_list (map item_key (item_log s')) (u, n)
        \<le> (if n < iter then max_visits c else if n = iter then count_list visits u else 0)"
      using k unfolding l v(1) by (auto split: if_splits)
  qed
  show "\<forall>u. count_list visits u \<le> max_visits c"
    using a v by (auto simp: at_point_def)
  show "no_jumps (item_log s') \<longrightarrow>
       map item_key (item_log s') = take (iter * length (rc_plan c) + (i + 1)) (plan_order c)"
    using a k plan_order_nth [OF i iter] unfolding l at_point_def
    by (auto simp: no_jumps_def take_Suc_conv_app_nth)
  show "ir_next item = map_option (be_scrub h (rs_world s')) (sr_next res)"
    unfolding f(1,15) by (simp add: build_item_def)
qed

lemma ended_stop:
  assumes log: "quiet c its" "item_log s = its"
    and v: "\<forall>u k. count_list (map item_key its) (u, k) \<le> (if k < iter then max_visits c else if k = iter then count_list visits u else 0)"
      "\<forall>u. count_list visits u \<le> max_visits c"
    and o: "no_jumps its \<longrightarrow> map item_key its = take n (plan_order c)"
    and r: "rp_status (rs_report s) = StatusRunning"
    and t: "a = StatusAborted \<and> b = RunAborted
       \<or> a = StatusLoopGuard \<and> (b = StepLimit (max_steps c) \<and> max_steps c \<le> rs_steps s
            \<or> (\<exists>nm\<in>it_name ` set (rc_plan c). b = VisitLimit nm (max_visits c)))
       \<or> its \<noteq> [] \<and> ir_next (last its) \<noteq> None
          \<and> (a = StatusStopped \<and> b = NextNull
             \<or> a = StatusBadTarget \<and> (\<exists>t. b = NoSuchTarget t \<and> ir_next (last its) = Some t))"
  shows "ended c (stop_run a b s)"
proof -
  have rep: "rp_status (rs_report (stop_run a b s)) = a" "rp_reason (rs_report (stop_run a b s)) = b"
    using r by (simp_all add: stop_run_def stop_report_def)
  have "stop_true c (stop_run a b s)"
    using t log unfolding stop_true_def rep stop_run_frame by auto
  moreover have "count_list (map item_key its) (u, k) \<le> max_visits c" for u k
    using v(1) [rule_format, of u k] v(2) [rule_format, of u] by (auto split: if_splits)
  moreover have "no_jumps its \<longrightarrow> prefix (map item_key its) (plan_order c)" using o by (auto simp: take_is_prefix)
  ultimately show ?thesis using log(2) by (simp add: ended_def)
qed

lemma run_item_point:
  assumes a: "at_point c iter i visits0 s0" and i: "i < length (rc_plan c)" and iter: "iter < rc_iterations c"
    and v: "visits = it_uid (rc_plan c ! i) # visits0" "count_list visits (it_uid (rc_plan c ! i)) \<le> max_visits c"
  shows "case run_item h c iter i visits (rc_plan c ! i) s0 of
     Stop s' \<Rightarrow> ended c s' | Go j v s' \<Rightarrow> at_point c iter j v s'"
proof -
  let ?it = "rc_plan c ! i" and ?s1 = "throttle h c (s0\<lparr>rs_steps := rs_steps s0 + 1\<rparr>)"
  obtain b s2 where s2: "ctx_err h ?s1 = (b, s2)" by fastforce
  have wt: "rs_report s2 = rs_report s0 \<and> rs_events s2 = rs_events s0"
    using world_frame(1) [of h c "s0\<lparr>rs_steps := rs_steps s0 + 1\<rparr>"] world_frame(4) [of h ?s1] s2 by auto
  obtain res s3 where s3: "execute_step h c ?it iter s2 = (res, s3)" by fastforce
  have wt3: "rs_report s3 = rs_report s0" "rs_events s3 = rs_events s0"
    using world_frame(5) [of h c ?it iter s2] s3 wt by auto
  obtain r s4 where s4: "record_item h c ?it iter res s3 = (r, s4)" by fastforce
  note rec = at_point_record [OF a i iter wt3 v s4]
  have abort: "ended c (stop_run StatusAborted RunAborted s2)"
    by (rule ended_stop [where its = "item_log s0" and iter = iter and visits = visits0
          and n = "iter * length (rc_plan c) + i"])
       (use a wt in \<open>simp_all add: at_point_def\<close>)
  have bail: "ended c (stop_run StatusBailed (BailedOn (op_bail (rc_options c))) s4)" if "should_bail c r"
  proof -
    have rep: "rp_status (rs_report (stop_run StatusBailed (BailedOn (op_bail (rc_options c))) s4)) = StatusBailed"
      "rp_reason (rs_report (stop_run StatusBailed (BailedOn (op_bail (rc_options c))) s4)) = BailedOn (op_bail (rc_options c))"
      using rec(1) by (simp_all add: stop_run_def stop_report_def)
    have "count_list (map item_key (item_log s4)) (u, k) \<le> max_visits c" for u k
      using rec(5) [rule_format, of u k] rec(6) [rule_format, of u] by (auto split: if_splits)
    moreover have "no_jumps (item_log s4) \<longrightarrow> prefix (map item_key (item_log s4)) (plan_order c)"
      using rec(7) by (auto simp: take_is_prefix)
    ultimately show ?thesis using that rec(3,4) unfolding ended_def stop_true_def rep stop_run_frame by simp
  qed
  have next_point: "at_point c iter j visits s5"
    if q: "\<not> should_bail c r" and s5: "rs_report s5 = rs_report s4" "rs_events s5 = rs_events s4"
      and j: "j \<le> length (rc_plan c)" "j = i + 1 \<or> ir_next r \<noteq> None" for j s5
    using rec that unfolding at_point_def by (auto simp: quiet_def no_jumps_def)
  have qs: "quiet c (item_log s4)" if "\<not> should_bail c r" using that rec(3,4) by (simp add: quiet_def)
  show ?thesis
  proof (cases "b \<or> should_bail c r")
    case True
    then show ?thesis using abort bail unfolding run_item_def Let_def s2 s3 s4 prod.case by auto
  next
    case False
    then have fb: "\<not> b" "\<not> should_bail c r" by auto
    note fin = ended_stop [OF qs [OF fb(2)] refl rec(5,6,7,1)]
    show ?thesis
    proof (cases "sr_next res")
      case None
      then have adv: "advance h c res i s4 = (Some (i + 1), s4)" by (simp add: advance_def)
      let ?s6 = "if i + 1 < length (rc_plan c) then run_sleep h (op_delay (rc_options c)) s4 else s4"
      have "at_point c iter (i + 1) visits ?s6"
        by (rule next_point [OF fb(2)])
           (use world_frame(2) [of h "op_delay (rc_options c)" s4] i in auto)
      then show ?thesis using fb unfolding run_item_def Let_def s2 s3 s4 adv prod.case by simp
    next
      case (Some target)
      then have nx: "ir_next r = Some (be_scrub h (rs_world s4) target)" using rec(8) by simp
      show ?thesis
      proof (cases "target = []")
        case True
        then have adv: "advance h c res i s4 = (None, stop_run StatusStopped NextNull s4)"
          using Some by (simp add: advance_def)
        have "ended c (stop_run StatusStopped NextNull s4)"
          by (rule fin) (use nx rec(3) in auto)
        then show ?thesis using fb unfolding run_item_def Let_def s2 s3 s4 adv prod.case by simp
      next
        case False
        show ?thesis
        proof (cases "next_index (rc_plan c) target")
          case None
          let ?t = "be_scrub h (rs_world s4) target"
          have adv: "advance h c res i s4 = (None, stop_run StatusBadTarget (NoSuchTarget ?t) s4)"
            using Some False None by (simp add: advance_def)
          have "ended c (stop_run StatusBadTarget (NoSuchTarget ?t) s4)"
            by (rule fin) (use nx rec(3) in auto)
          then show ?thesis using fb unfolding run_item_def Let_def s2 s3 s4 adv prod.case by simp
        next
          case (Some j)
          then have adv: "advance h c res i s4 = (Some j, s4)"
            using \<open>sr_next res = Some target\<close> False by (simp add: advance_def)
          have j: "j < length (rc_plan c)" using next_index_Some [OF Some] by simp
          let ?s6 = "if j < length (rc_plan c) then run_sleep h (op_delay (rc_options c)) s4 else s4"
          have "at_point c iter j visits ?s6"
            by (rule next_point [OF fb(2)])
               (use world_frame(2) [of h "op_delay (rc_options c)" s4] j nx in auto)
          then show ?thesis using fb unfolding run_item_def Let_def s2 s3 s4 adv prod.case by simp
        qed
      qed
    qed
  qed
qed

lemma run_pass_point:
  assumes a: "at_point c iter i visits s" and i: "i < length (rc_plan c)" and iter: "iter < rc_iterations c"
  shows "case run_pass h c iter i visits s of Stop s' \<Rightarrow> ended c s' | Go j v s' \<Rightarrow> at_point c iter j v s'"
proof -
  obtain b s1 where s1: "ctx_err h (pause_point h s) = (b, s1)" by fastforce
  have wt: "rs_report s1 = rs_report s" "rs_events s1 = rs_events s" "rs_steps s1 = rs_steps s"
    using world_frame(3) [of h s] world_frame(4) [of h "pause_point h s"] s1 by auto
  have a1: "at_point c iter i visits s1" using a at_point_cong [OF wt(1,2)] by blast
  note fin = ended_stop [where its = "item_log s1" and iter = iter and visits = visits
      and n = "iter * length (rc_plan c) + i" and s = s1]
  have stops: "ended c (stop_run StatusAborted RunAborted s1)"
    "max_steps c \<le> rs_steps s1 \<Longrightarrow> ended c (stop_run StatusLoopGuard (StepLimit (max_steps c)) s1)"
    "ended c (stop_run StatusLoopGuard (VisitLimit (it_name (rc_plan c ! i)) (max_visits c)) s1)"
    by (rule fin; use a1 i in \<open>simp add: at_point_def\<close>)+
  show ?thesis
  proof (cases "b \<or> max_steps c \<le> rs_steps s1
      \<or> count_list (it_uid (rc_plan c ! i) # visits) (it_uid (rc_plan c ! i)) > max_visits c")
    case True
    then show ?thesis using stops unfolding run_pass_def Let_def s1 prod.case by auto
  next
    case False
    then have "count_list (it_uid (rc_plan c ! i) # visits) (it_uid (rc_plan c ! i)) \<le> max_visits c" by simp
    from run_item_point [OF a1 i iter refl this] False show ?thesis
      unfolding run_pass_def Let_def s1 prod.case by simp
  qed
qed

lemma run_iteration_point:
  "at_point c iter i visits s \<Longrightarrow> iter < rc_iterations c \<Longrightarrow>
   case run_iteration h c iter i visits s of
     (True, s') \<Rightarrow> \<exists>v. at_point c iter (length (rc_plan c)) v s' | (False, s') \<Rightarrow> ended c s'"
proof (induction "max_steps c - rs_steps s" arbitrary: i visits s rule: less_induct)
  case less
  show ?case
  proof (cases "i < length (rc_plan c)")
    case True
    note pass = run_pass_point [OF less.prems(1) True less.prems(2), of h]
    show ?thesis
    proof (cases "run_pass h c iter i visits s")
      case (Stop s')
      with pass True show ?thesis by (simp add: run_iteration.simps)
    next
      case (Go j v s')
      have at: "at_point c iter j v s'" using pass Go by simp
      have lt: "max_steps c - rs_steps s' < max_steps c - rs_steps s" using run_pass_steps [OF Go] by arith
      from less.hyps [OF lt at less.prems(2)] have "case run_iteration h c iter j v s' of
         (True, s') \<Rightarrow> \<exists>v. at_point c iter (length (rc_plan c)) v s' | (False, s') \<Rightarrow> ended c s'" .
      with Go True show ?thesis by (simp add: run_iteration.simps [of h c iter i])
    qed
  next
    case False
    with less.prems have "i = length (rc_plan c)" by (simp add: at_point_def)
    with False less.prems show ?thesis by (auto simp: run_iteration.simps)
  qed
qed

lemma at_point_next:
  assumes "at_point c iter (length (rc_plan c)) v s"
  shows "at_point c (iter + 1) 0 [] s"
proof -
  have "count_list (map item_key (item_log s)) (u, k)
      \<le> (if k < iter + 1 then max_visits c else if k = iter + 1 then count_list [] u else 0)" for u k
  proof -
    have "count_list (map item_key (item_log s)) (u, k)
        \<le> (if k < iter then max_visits c else if k = iter then count_list v u else 0)" "count_list v u \<le> max_visits c"
      using assms unfolding at_point_def by blast+
    then show ?thesis by (auto split: if_splits)
  qed
  moreover have "iter * length (rc_plan c) + length (rc_plan c) = (iter + 1) * length (rc_plan c) + 0" by simp
  ultimately show ?thesis using assms unfolding at_point_def by (simp del: mult_Suc)
qed

lemma run_iterations_point:
  "at_point c iter 0 [] s \<Longrightarrow> n + iter = rc_iterations c \<Longrightarrow>
   ended c (run_iterations h c n iter s) \<or> at_point c (rc_iterations c) 0 [] (run_iterations h c n iter s)"
proof (induction n arbitrary: iter s)
  case (Suc n)
  obtain b s' where s': "run_iteration h c iter 0 [] s = (b, s')" by fastforce
  have "if b then \<exists>v. at_point c iter (length (rc_plan c)) v s' else ended c s'"
    using run_iteration_point [OF Suc.prems(1), of h] Suc.prems(2) s' by (auto split: bool.splits)
  then show ?case using Suc.IH [of "iter + 1" s'] Suc.prems(2) s' at_point_next by (cases b) auto
qed simp

text \<open>How a loop from a fresh state ends: it broke off, or it went through all iterations.\<close>

definition completed :: "run_cfg \<Rightarrow> 'w run_state \<Rightarrow> bool" where
  "completed c s \<longleftrightarrow>
     rp_status (rs_report s) = StatusDone \<and> rp_reason (rs_report s) = NoReason \<and> quiet c (item_log s)
     \<and> (\<forall>u k. count_list (map item_key (item_log s)) (u, k) \<le> max_visits c)
     \<and> (no_jumps (item_log s) \<longrightarrow> map item_key (item_log s) = plan_order c)"

lemma run_loop_end:
  assumes "fresh_run c s"
  shows "ended c (run_loop h c s) \<or> completed c (run_loop h c s)"
proof -
  let ?t = "run_iterations h c (rc_iterations c) 0 s"
  have "at_point c 0 0 [] s" using assms by (simp add: fresh_run_def at_point_def quiet_def no_jumps_def)
  then consider "ended c ?t" | "at_point c (rc_iterations c) 0 [] ?t"
    using run_iterations_point [of c 0 s "rc_iterations c" h] by auto
  then show ?thesis
  proof cases
    case 1
    then have "rp_status (rs_report ?t) \<noteq> StatusRunning"
      by (auto simp: ended_def stop_true_def split: stop_reason.splits)
    with 1 show ?thesis by (simp add: run_loop_def Let_def)
  next
    case 2
    then have l: "run_loop h c s = ?t\<lparr>rs_report := (rs_report ?t)\<lparr>rp_status := StatusDone\<rparr>\<rparr>"
      by (simp add: run_loop_def Let_def at_point_def)
    have full: "take (rc_iterations c * length (rc_plan c)) (plan_order c) = plan_order c"
      by (simp add: plan_order_def Let_def)
    have "count_list (map item_key (item_log ?t)) (u, k)
        \<le> (if k < rc_iterations c then max_visits c else if k = rc_iterations c then count_list [] u else 0)" for u k
      using 2 unfolding at_point_def by (elim conjE) (erule allE, erule allE)
    then have "count_list (map item_key (item_log ?t)) (u, k) \<le> max_visits c" for u k
      by (rule order_trans) simp
    with 2 full show ?thesis unfolding l completed_def at_point_def by simp
  qed
qed

text \<open>
  (C30) The report of a run adds up. What the listeners saw is numbered from one without gaps and has only
  requests of the plan; the totals are the sum over all of it; the report keeps the first rows up to the limit and is
  marked truncated exactly when there were more; the store has the same rows and then, for a truncated
  run, one marker; and a run that was refused for its scripts has sent, stored and committed nothing.
\<close>

theorem run_report_accounts:
  assumes "run_collection h op w = Some (Inr s)" "prepare_run h op w = Some (Inr c)"
  shows "if rp_status (rs_report s) = StatusNotApproved
    then item_log s = [] \<and> rs_rows s = [] \<and> rs_commits s = [] \<and> rp_quarantined (rs_report s) \<noteq> []
    else accounts_ok h c s \<and> rp_status (rs_report s) \<noteq> StatusRunning"
proof -
  have s: "s = run_plan h c w" using run_collection_run [OF assms(1)] assms(2) by auto
  show ?thesis
  proof (cases rule: run_plan_cases [of h c w])
    case (refused q)
    with refused_run [of h q c w] s show ?thesis by simp
  next
    case (ran s')
    have a: "accounts_ok h c s" unfolding s by (rule accounts_same [OF ran(2) report_accounts_run [OF ran(1)]])
    have "rp_status (rs_report s) \<noteq> StatusRunning"
      unfolding s same_run_report(1) [OF ran(2)] finish_persist_frame using run_loop_frame [of h c s'] by auto
    moreover have "rp_status (rs_report s) \<noteq> StatusNotApproved"
      unfolding s same_run_report(1) [OF ran(2)] finish_persist_frame
      using run_loop_end [OF ran(1), of h]
      by (auto simp: ended_def stop_true_def completed_def split: stop_reason.splits)
    ultimately show ?thesis using a by simp
  qed
qed

section \<open>A run to look at\<close>

text \<open>
  A host over a trivial world: three requests, of which the second writes a variable and fails a test and
  the third is blocked; the last asks to keep the writes.
\<close>

definition demo_step_result :: "string \<Rightarrow> step_result" where
  "demo_step_result u =
     (let ok = (error_result [])\<lparr>sr_outcome := OutcomeSent\<rparr> in
      if u = ''r1'' then ok\<lparr>sr_tests := [\<lparr>ts_name = ''t'', ts_status = TestFail, ts_severity = [], ts_subject = [],
          ts_expected = [], ts_actual = [], ts_message = [], ts_source = [], ts_owner = []\<rparr>],
        sr_changes := [\<lparr>vc_scope = ''globals'', vc_key = ''k'', vc_value = ''v'', vc_display = ''v'', vc_unset = False,
          vc_secret = False\<rparr>]\<rparr>
      else if u = ''r2'' then ok\<lparr>sr_outcome := OutcomeBlocked, sr_block := BlockScope\<rparr>
      else ok)"

definition demo_host :: "unit host" where
  "demo_host =
     \<lparr>be_load = \<lambda>w u. if u = ''c'' then Inr (demo_coll, demo_items) else Inl ''no collection'',
      be_env_name = \<lambda>w e. [], be_env_pin = \<lambda>w e. [], be_layers = \<lambda>w c ch e. Inr ([], []),
      be_step = \<lambda>i n w. (Inr (Some (demo_step_result (it_uid (ch_item (si_chain i))))), ()),
      be_commit = \<lambda>c e cs w. ([], ()), be_trusted = \<lambda>w c h. True, be_scrub = \<lambda>w s. s, be_store = True,
      be_run_rows = \<lambda>w u. Inr [], be_decide = Some (\<lambda>vs w. (True, ())), be_session = None,
      be_put_run = \<lambda>h w. (Some ''run'', ()), be_new_id = \<lambda>w. (''id'', ()), be_cancelled = \<lambda>w. (False, ()),
      be_wait_paused = \<lambda>w. (), be_sleep = \<lambda>d w. (), be_now = \<lambda>w. (0, ()), be_decoder = demo_decoder\<rparr>"

definition demo_run_options :: "string \<Rightarrow> string \<Rightarrow> int \<Rightarrow> run_options" where
  "demo_run_options bail persist rows =
     \<lparr>op_coll = ''c'', op_folder = [], op_items = [], op_failed_from = [], op_env = [], op_iterations = 2, op_data = [],
      op_delay = 0, op_rps = 0, op_bail = bail, op_persist = persist, op_no_scripts = False,
      op_fail_on_quarantine = False, op_scope_policy = [], op_source = [], op_ai = False, op_identity = [],
      op_local = [], op_max_steps = 10, op_max_visits = 3, op_max_rows = rows\<rparr>"

definition demo_cfg :: "string \<Rightarrow> string \<Rightarrow> int \<Rightarrow> run_cfg" where
  "demo_cfg bail persist rows =
     \<lparr>rc_options = fill_defaults (demo_run_options bail persist rows), rc_coll = demo_coll, rc_items = demo_items,
      rc_plan = [demo_coll_item ''r0'' ''gone'' ''request'' ''c'', demo_coll_item ''r1'' ''f'' ''request'' ''a'',
        demo_coll_item ''r2'' ''f'' ''request'' ''b''],
      rc_iterations = 2\<rparr>"

lemma demo_plan: "plan_items demo_items [] [] = Some (rc_plan (demo_cfg bail persist rows))"
proof -
  have "plan_items demo_items [] [] = Some [demo_coll_item ''r0'' ''gone'' ''request'' ''c'',
      demo_coll_item ''r1'' ''f'' ''request'' ''a'', demo_coll_item ''r2'' ''f'' ''request'' ''b'']" by code_simp
  then show ?thesis by (simp add: demo_cfg_def)
qed

lemma demo_prepare:
  assumes "bail \<in> {[], ''none'', ''on-failure'', ''on-error''}" "persist \<in> {[], ''ask'', ''keep'', ''discard''}"
  shows "prepare_run demo_host (demo_run_options bail persist rows) () = Some (Inr (demo_cfg bail persist rows))"
proof -
  have "validate_options (demo_run_options bail persist rows) = None"
    using assms by (simp add: validate_options_def demo_run_options_def max_iterations_def max_delay_def)
  then show ?thesis
    unfolding prepare_run_def
    by (simp add: demo_host_def pick_items_def demo_run_options_def demo_plan [unfolded demo_cfg_def, simplified]
        demo_cfg_def iteration_count_def)
qed

lemma demo_runs:
  assumes "bail \<in> {[], ''none'', ''on-failure'', ''on-error''}" "persist \<in> {[], ''ask'', ''keep'', ''discard''}"
  shows "run_collection demo_host (demo_run_options bail persist rows) ()
    = Some (Inr (run_plan demo_host (demo_cfg bail persist rows) ()))"
  by (simp add: run_collection_def demo_prepare [OF assms])

theorem run_report_accounts_witness:
  "\<exists>s. run_collection demo_host (demo_run_options [] ''ask'' 4) () = Some (Inr s)
     \<and> (if rp_status (rs_report s) = StatusNotApproved
        then item_log s = [] \<and> rs_rows s = [] \<and> rs_commits s = [] \<and> rp_quarantined (rs_report s) \<noteq> []
        else accounts_ok demo_host (demo_cfg [] ''ask'' 4) s \<and> rp_status (rs_report s) \<noteq> StatusRunning)"
proof -
  note r = demo_runs [of "[]" "''ask''" 4, simplified] and p = demo_prepare [of "[]" "''ask''" 4, simplified]
  from run_report_accounts [OF r p] r show ?thesis by blast
qed

section \<open>Limits, order and reasons\<close>

text \<open>What the loop leaves, carried over to the run.\<close>

lemma run_ends:
  assumes "run_collection h op w = Some (Inr s)" "prepare_run h op w = Some (Inr c)"
    and "rp_status (rs_report s) \<noteq> StatusNotApproved"
  obtains t where "fresh_run c t" "same_run s (finish_persist h c (run_loop h c t))"
    "ended c s \<or> completed c s" "accounts_ok h c s"
proof -
  have s: "s = run_plan h c w" using run_collection_run [OF assms(1)] assms(2) by auto
  show thesis
  proof (cases rule: run_plan_cases [of h c w])
    case (refused q)
    with refused_run [of h q c w] s assms(3) show ?thesis by simp
  next
    case (ran t)
    have e: "rs_steps s = rs_steps (run_loop h c t)" "item_log s = item_log (run_loop h c t)"
      "rp_status (rs_report s) = rp_status (rs_report (run_loop h c t))"
      "rp_reason (rs_report s) = rp_reason (rs_report (run_loop h c t))"
      using ran(2) same_run_report [OF ran(2)] unfolding s by (simp_all add: same_run_def)
    have "ended c s \<or> completed c s"
      using run_loop_end [OF ran(1), of h] unfolding ended_def completed_def stop_true_def e .
    with ran accounts_same [OF ran(2) report_accounts_run [OF ran(1)]] that s show thesis by blast
  qed
qed

text \<open>
  (C29) A run comes back within its limits, whatever the requests jump to. When the items of the collection have
  distinct ids \<open>Run\<close> returns an error or a report; the report is never left running, at most the
  step limit of requests was sent, and that is at most 100000; no request was visited more often
  in one iteration than its limit; and the report has at most as many rows as are kept.
\<close>

theorem run_returns_within_limits:
  assumes "\<forall>coll items. be_load h w (op_coll op) = Inr (coll, items) \<longrightarrow> unique_ids items"
  shows "\<exists>r. run_collection h op w = Some r
    \<and> (case r of Inl e \<Rightarrow> True
       | Inr s \<Rightarrow> \<exists>c. prepare_run h op w = Some (Inr c)
           \<and> rp_status (rs_report s) \<noteq> StatusRunning
           \<and> length (item_log s) \<le> max_steps c \<and> max_steps c \<le> 100000
           \<and> (\<forall>u k. count_list (map item_key (item_log s)) (u, k) \<le> max_visits c)
           \<and> length (rp_items (rs_report s)) \<le> max_rows c)"
proof -
  have "prepare_run h op w \<noteq> None"
  proof (cases "be_load h w (op_coll op)")
    case (Inl e)
    then show ?thesis by (simp add: prepare_run_def split: option.split)
  next
    case (Inr ci)
    obtain coll items where ci: "ci = (coll, items)" by fastforce
    with Inr assms have "unique_ids items" by blast
    then have "\<exists>plan. plan_items items (op_folder op) pick = Some plan" for pick
      using plan_items_spec by blast
    then obtain pl where pl: "plan_items items (op_folder op) pick = Some (pl pick)" for pick by metis
    show ?thesis unfolding prepare_run_def Inr ci by (simp add: pl split: option.split sum.split)
  qed
  then obtain z where z: "prepare_run h op w = Some z" by auto
  show ?thesis
  proof (cases z)
    case (Inl e)
    with z show ?thesis by (simp add: run_collection_def)
  next
    case (Inr c)
    let ?s = "run_plan h c w"
    have p: "prepare_run h op w = Some (Inr c)" using z Inr by simp
    then have r: "run_collection h op w = Some (Inr ?s)" by (simp add: run_collection_def)
    have "rp_status (rs_report ?s) \<noteq> StatusRunning \<and> length (item_log ?s) \<le> max_steps c
        \<and> (\<forall>u k. count_list (map item_key (item_log ?s)) (u, k) \<le> max_visits c)
        \<and> length (rp_items (rs_report ?s)) \<le> max_rows c"
    proof (cases "rp_status (rs_report ?s) = StatusNotApproved")
      case True
      show ?thesis
      proof (cases rule: run_plan_cases [of h c w])
        case (refused q)
        then have "rp_items (rs_report ?s) = []" "rs_events ?s = []"
          using refused_run [of h q c w]
          by (auto simp: refuse_run_def set_run_id_def persist_header_def finish_time_def run_now_def start_state_def
              first_report_def Let_def split: prod.split option.split)
        with True show ?thesis by simp
      next
        case (ran t)
        from run_loop_end [OF ran(1), of h] same_run_report(1) [OF ran(2)] True show ?thesis
          by (auto simp: ended_def stop_true_def completed_def split: stop_reason.splits)
      qed
    next
      case False
      from run_ends [OF r p False] obtain t where e: "ended c ?s \<or> completed c ?s" and a: "accounts_ok h c ?s" by blast
      have "rp_status (rs_report ?s) \<noteq> StatusRunning"
        using e by (auto simp: ended_def stop_true_def completed_def split: stop_reason.splits)
      moreover have "length (item_log ?s) \<le> max_steps c" "length (rp_items (rs_report ?s)) \<le> max_rows c"
        using a by (auto simp: accounts_ok_def)
      ultimately show ?thesis using e unfolding ended_def completed_def by blast
    qed
    moreover have "max_steps c \<le> 100000" by (simp add: max_steps_def hard_max_steps_def)
    ultimately show ?thesis using r p by auto
  qed
qed

theorem run_returns_within_limits_witness:
  "\<exists>s. run_collection demo_host (demo_run_options [] ''ask'' 4) () = Some (Inr s)
     \<and> length (item_log s) \<le> 10 \<and> (\<forall>u k. count_list (map item_key (item_log s)) (u, k) \<le> 3)"
proof -
  have u: "\<forall>coll items. be_load demo_host () (op_coll (demo_run_options [] ''ask'' 4)) = Inr (coll, items) \<longrightarrow> unique_ids items"
  proof -
    have "unique_ids demo_items" by code_simp
    then show ?thesis by (simp add: demo_host_def demo_run_options_def)
  qed
  have "max_steps (demo_cfg [] ''ask'' 4) = 10" "max_visits (demo_cfg [] ''ask'' 4) = 3"
    by (simp_all add: max_steps_def max_visits_def demo_cfg_def fill_defaults_def demo_run_options_def hard_max_steps_def)
  with run_returns_within_limits [OF u] demo_runs [of "[]" "''ask''" 4, simplified]
    demo_prepare [of "[]" "''ask''" 4, simplified] show ?thesis by auto
qed



section \<open>Exit codes\<close>










text \<open>A request that is blocked because its scripts lost their trust during the run is not in any code.\<close>

lemma quarantined_request_exits_zero:
  "ir_outcome it = OutcomeBlocked \<Longrightarrow> ir_block it = BlockQuarantined \<Longrightarrow> ir_tests it = [] \<Longrightarrow>
   rp_totals rep = add_totals it zero_totals \<Longrightarrow> rp_status rep = StatusDone \<Longrightarrow>
   has_problem it \<and> exit_code rep = 0"
  by (simp add: has_problem_def exit_code_def Let_def add_totals_def add_outcome_def zero_totals_def)

section \<open>What is kept\<close>









section \<open>What is shown\<close>






end
