(* ===== verification/SendDial.thy ===== *)
theory SendDial
  imports GoNet
begin

text \<open>
  The destination guard of the sender (\<open>internal/sender/options_guard.go\<close>): \<open>IPGuard\<close> and
  the two places that use it, the dial of a vetted address and the check of a destination behind an
  upstream proxy. An address is the list of its bytes, four or sixteen; the resolver and the connection
  are arguments. The text of an error is a constructor with the values it prints.
\<close>

section \<open>Addresses\<close>

text \<open>The predicates of \<open>net.IP\<close> on the bytes; \<open>To4\<close> is \<open>ip_short\<close>.\<close>

definition ip_equal :: "nat list \<Rightarrow> nat list \<Rightarrow> bool" where
  "ip_equal a b \<longleftrightarrow> ip_short a = ip_short b"

definition ip_loopback :: "nat list \<Rightarrow> bool" where
  "ip_loopback ip =
     (case ip_short ip of [a, b, c, d] \<Rightarrow> a = 127 | _ \<Rightarrow> ip_equal ip (replicate 15 0 @ [1]))"

definition ip_unspecified :: "nat list \<Rightarrow> bool" where
  "ip_unspecified ip \<longleftrightarrow> ip_equal ip (replicate 10 0 @ [255, 255, 0, 0, 0, 0]) \<or> ip_equal ip (replicate 16 0)"

definition ip_private :: "nat list \<Rightarrow> bool" where
  "ip_private ip =
     (case ip_short ip of
        [a, b, c, d] \<Rightarrow> a = 10 \<or> a = 172 \<and> b div 16 = 1 \<or> a = 192 \<and> b = 168
      | _ \<Rightarrow> length ip = 16 \<and> hd ip div 2 = 126)"

definition ip_link_local :: "nat list \<Rightarrow> bool" where
  "ip_link_local ip =
     (case ip_short ip of
        [a, b, c, d] \<Rightarrow> a = 169 \<and> b = 254
      | _ \<Rightarrow> length ip = 16 \<and> hd ip = 254 \<and> ip ! 1 div 64 = 2)"

definition ip_link_local_multicast :: "nat list \<Rightarrow> bool" where
  "ip_link_local_multicast ip =
     (case ip_short ip of
        [a, b, c, d] \<Rightarrow> a = 224 \<and> b = 0 \<and> c = 0
      | _ \<Rightarrow> length ip = 16 \<and> hd ip = 255 \<and> ip ! 1 mod 16 = 2)"

definition ip_interface_multicast :: "nat list \<Rightarrow> bool" where
  "ip_interface_multicast ip \<longleftrightarrow> length ip = 16 \<and> hd ip = 255 \<and> ip ! 1 mod 16 = 1"

definition ip_multicast :: "nat list \<Rightarrow> bool" where
  "ip_multicast ip =
     (case ip_short ip of [a, b, c, d] \<Rightarrow> a div 16 = 14 | _ \<Rightarrow> length ip = 16 \<and> hd ip = 255)"

definition cgnat_net :: "nat list \<times> nat" where "cgnat_net = ([100, 64, 0, 0], 10)"

definition restricted_ip :: "nat list \<Rightarrow> bool" where
  "restricted_ip ip \<longleftrightarrow>
     ip_loopback ip \<or> ip_private ip \<or> ip_link_local ip \<or> ip_link_local_multicast ip \<or>
     ip_interface_multicast ip \<or> ip_multicast ip \<or> ip_unspecified ip \<or> ipnet_contains cgnat_net ip"

section \<open>The guard\<close>

record ip_guard =
  g_block_private :: bool
  g_allow_hosts :: "string list"
  g_own_ports :: "int list"
  g_own_ips :: "nat list list"

datatype dial_error =
    OwnListener string "nat list" int
  | NonPublic string "nat list"
  | OwnPortUnverified string int
  | PrivateUnverified string
  | OverrideNotIP string string
  | NoAddresses string
  | BadAddress string
  | BadPort string
  | HostNotFound string
  | LookupFailed string
  | ConnFailed string

text \<open>The errors that wrap \<open>ErrGuardBlocked\<close>.\<close>

fun guard_blocked :: "dial_error \<Rightarrow> bool" where
  "guard_blocked (OwnListener h ip p) = True"
| "guard_blocked (NonPublic h ip) = True"
| "guard_blocked (OwnPortUnverified h p) = True"
| "guard_blocked (PrivateUnverified h) = True"
| "guard_blocked e = False"

definition guard_own :: "ip_guard \<Rightarrow> nat list \<Rightarrow> int \<Rightarrow> bool" where
  "guard_own g ip port \<longleftrightarrow>
     port \<in> set (g_own_ports g) \<and>
     (ip_loopback ip \<or> ip_unspecified ip \<or> list_ex (\<lambda>x. ip_equal x ip) (g_own_ips g))"

definition trim_brackets :: "string \<Rightarrow> string" where
  "trim_brackets h =
     trim_right_by (\<lambda>c. c = CHR ''['' \<or> c = CHR '']'') (trim_left_by (\<lambda>c. c = CHR ''['' \<or> c = CHR '']'') h)"

definition guard_allowed :: "ip_guard \<Rightarrow> string \<Rightarrow> bool" where
  "guard_allowed g host \<longleftrightarrow> list_ex (\<lambda>h. equal_fold (trim_brackets h) host) (g_allow_hosts g)"

text \<open>\<open>Check\<close>; no guard permits everything.\<close>

definition guard_check :: "ip_guard option \<Rightarrow> string \<Rightarrow> nat list \<Rightarrow> int \<Rightarrow> dial_error option" where
  "guard_check og host ip0 port =
     (case og of
        None \<Rightarrow> None
      | Some g \<Rightarrow>
          (let ip = ip_short ip0 in
           if guard_own g ip port then Some (OwnListener host ip port)
           else if \<not> g_block_private g \<or> guard_allowed g host then None
           else if restricted_ip ip then Some (NonPublic host ip)
           else None))"

fun first_error :: "('a \<Rightarrow> 'e option) \<Rightarrow> 'a list \<Rightarrow> 'e option" where
  "first_error f [] = None"
| "first_error f (x # xs) = (case f x of Some e \<Rightarrow> Some e | None \<Rightarrow> first_error f xs)"

text \<open>The resolver answers addresses or an error: no such host, or another failure.\<close>

datatype lookup = Addrs "nat list list" | NoSuchHost | ResolverError

definition check_host :: "(string \<Rightarrow> lookup) \<Rightarrow> ip_guard option \<Rightarrow> string \<Rightarrow> int \<Rightarrow> dial_error option" where
  "check_host resolve og host port =
     (case og of
        None \<Rightarrow> None
      | Some g \<Rightarrow>
          (case parse_ip host of
             Some ip \<Rightarrow> guard_check og host ip port
           | None \<Rightarrow>
               (case resolve host of
                  Addrs ips \<Rightarrow> first_error (\<lambda>ip. guard_check og host ip port) ips
                | NoSuchHost \<Rightarrow> Some (HostNotFound host)
                | ResolverError \<Rightarrow> Some (LookupFailed host))))"

definition unverifiable_host :: "ip_guard option \<Rightarrow> string \<Rightarrow> int \<Rightarrow> dial_error option" where
  "unverifiable_host og host port =
     (case og of
        None \<Rightarrow> None
      | Some g \<Rightarrow>
          if port \<in> set (g_own_ports g) then Some (OwnPortUnverified host port)
          else if \<not> g_block_private g \<or> guard_allowed g host then None
          else Some (PrivateUnverified host))"

fun host_not_found :: "dial_error \<Rightarrow> bool" where
  "host_not_found (HostNotFound h) = True"
| "host_not_found e = False"

definition check_proxied_host ::
    "(string \<Rightarrow> lookup) \<Rightarrow> ip_guard option \<Rightarrow> (string \<times> string) list \<Rightarrow> string \<Rightarrow> int \<Rightarrow> dial_error option" where
  "check_proxied_host resolve og dns host port =
     (case og of
        None \<Rightarrow> None
      | Some g \<Rightarrow>
          (let real =
             (case check_host resolve og host port of
                None \<Rightarrow> None
              | Some e \<Rightarrow> if host_not_found e then unverifiable_host og host port else Some e)
           in case map_of dns (to_lower host) of
                None \<Rightarrow> real
              | Some ov \<Rightarrow>
                  (case parse_ip ov of
                     None \<Rightarrow> Some (OverrideNotIP host ov)
                   | Some ip \<Rightarrow>
                       (case guard_check og host ip port of Some e \<Rightarrow> Some e | None \<Rightarrow> real))))"

section \<open>Dialling\<close>

text \<open>\<open>fmt.Sscanf\<close> with \<open>%d\<close>: blanks, a sign, digits, and whatever follows.\<close>

definition sscan_int :: "string \<Rightarrow> int option" where
  "sscan_int s =
     (let s1 = dropWhile (\<lambda>c. is_space c \<and> c \<noteq> CHR 0x0A) s;
          neg = (s1 \<noteq> [] \<and> hd s1 = CHR ''-'');
          s2 = (if s1 \<noteq> [] \<and> (hd s1 = CHR ''-'' \<or> hd s1 = CHR ''+'') then tl s1 else s1);
          ds = takeWhile is_digit s2;
          n = (if neg then - int (dec_value ds) else int (dec_value ds))
      in if ds = [] \<or> n < - (2 ^ 63) \<or> n \<ge> 2 ^ 63 then None else Some n)"

text \<open>What is dialled: a vetted address with the port as written, or the address as given.\<close>

datatype dial_target = ToIP "nat list" string | ToName string

text \<open>The addresses in turn; the answers of the network may depend on the attempt.\<close>

fun dial_first ::
    "(nat \<Rightarrow> dial_target \<Rightarrow> dial_error + 'c) \<Rightarrow> nat \<Rightarrow> dial_target list \<Rightarrow> dial_error \<Rightarrow>
     dial_target list \<times> (dial_error + 'c)" where
  "dial_first dial n [] e = ([], Inl e)"
| "dial_first dial n (t # ts) e =
     (case dial n t of
        Inr c \<Rightarrow> ([t], Inr c)
      | Inl e' \<Rightarrow> (let (d, r) = dial_first dial (Suc n) ts e' in (t # d, r)))"

text \<open>The candidates of a host: the override, the literal, or what the resolver says.\<close>

definition candidates ::
    "(string \<Rightarrow> lookup) \<Rightarrow> (string \<times> string) list \<Rightarrow> string \<Rightarrow> dial_error + nat list list" where
  "candidates resolve dns host =
     (case map_of dns (to_lower host) of
        Some ov \<Rightarrow> (case parse_ip ov of None \<Rightarrow> Inl (OverrideNotIP host ov) | Some ip \<Rightarrow> Inr [ip])
      | None \<Rightarrow>
          (case parse_ip host of
             Some ip \<Rightarrow> Inr [ip]
           | None \<Rightarrow>
               (case resolve host of
                  Addrs ips \<Rightarrow> Inr ips
                | NoSuchHost \<Rightarrow> Inl (HostNotFound host)
                | ResolverError \<Rightarrow> Inl (LookupFailed host))))"

text \<open>\<open>guardedDialVia\<close>: the addresses it tried, in order, and the connection or the error.\<close>

definition guarded_dial_via ::
    "(string \<Rightarrow> lookup) \<Rightarrow> (nat \<Rightarrow> dial_target \<Rightarrow> dial_error + 'c) \<Rightarrow> ip_guard option \<Rightarrow>
     (string \<times> string) list \<Rightarrow> bool \<Rightarrow> string \<Rightarrow> dial_target list \<times> (dial_error + 'c)" where
  "guarded_dial_via resolve dial og dns remote addr =
     (case split_host_port addr of
        None \<Rightarrow> ([], Inl (BadAddress addr))
      | Some (host, pt) \<Rightarrow>
          (case sscan_int pt of
             None \<Rightarrow> ([], Inl (BadPort pt))
           | Some port \<Rightarrow>
               (case candidates resolve dns host of
                  Inl e \<Rightarrow>
                    if \<not> remote \<or> \<not> host_not_found e then ([], Inl e)
                    else (case unverifiable_host og host port of
                            Some e' \<Rightarrow> ([], Inl e')
                          | None \<Rightarrow> ([ToName addr], dial 0 (ToName addr)))
                | Inr ips \<Rightarrow>
                    if ips = [] then ([], Inl (NoAddresses host))
                    else (case first_error (\<lambda>ip. guard_check og host ip port) ips of
                            Some e \<Rightarrow> ([], Inl e)
                          | None \<Rightarrow>
                              dial_first dial 0 (map (\<lambda>ip. ToIP ip pt) ips) (NoAddresses host)))))"

definition guarded_dial ::
    "(string \<Rightarrow> lookup) \<Rightarrow> (nat \<Rightarrow> dial_target \<Rightarrow> dial_error + 'c) \<Rightarrow> ip_guard option \<Rightarrow>
     (string \<times> string) list \<Rightarrow> string \<Rightarrow> dial_target list \<times> (dial_error + 'c)" where
  "guarded_dial resolve dial og dns addr = guarded_dial_via resolve dial og dns False addr"

definition resolves_remotely :: "url option \<Rightarrow> bool" where
  "resolves_remotely up = (case up of None \<Rightarrow> False | Some u \<Rightarrow> equal_fold (url_scheme u) ''socks5h'')"

section \<open>The blocked networks\<close>

text \<open>
  The networks that the comment on \<open>BlockPrivate\<close> lists, as prefixes: \<open>0.0.0.0/32\<close>, \<open>10.0.0.0/8\<close>,
  \<open>100.64.0.0/10\<close>, \<open>127.0.0.0/8\<close>, \<open>169.254.0.0/16\<close>, \<open>172.16.0.0/12\<close>, \<open>192.168.0.0/16\<close> and
  \<open>224.0.0.0/4\<close>; \<open>::/128\<close>, \<open>::1/128\<close>, \<open>fc00::/7\<close>, \<open>fe80::/10\<close> and \<open>ff00::/8\<close>.
\<close>

definition restricted_nets4 :: "(nat list \<times> nat) list" where
  "restricted_nets4 =
     [([0, 0, 0, 0], 32), ([10, 0, 0, 0], 8), ([100, 64, 0, 0], 10), ([127, 0, 0, 0], 8), ([169, 254, 0, 0], 16),
      ([172, 16, 0, 0], 12), ([192, 168, 0, 0], 16), ([224, 0, 0, 0], 4)]"

definition restricted_nets6 :: "(nat list \<times> nat) list" where
  "restricted_nets6 =
     [(replicate 16 0, 128), (replicate 15 0 @ [1], 128), (252 # replicate 15 0, 7), (254 # 128 # replicate 14 0, 10),
      (255 # replicate 15 0, 8)]"

definition valid_ip :: "nat list \<Rightarrow> bool" where
  "valid_ip ip \<longleftrightarrow> (length ip = 4 \<or> length ip = 16) \<and> list_all (\<lambda>b. b < 256) ip"

lemma length_4: "length ip = 4 \<longleftrightarrow> (\<exists>a b c d. ip = [a, b, c, d])"
proof
  assume "length ip = 4"
  then have "length ip = Suc (Suc (Suc (Suc 0)))" by simp
  then show "\<exists>a b c d. ip = [a, b, c, d]" by (auto simp: length_Suc_conv)
qed auto

lemma mapped_length: "is_ipv4_mapped ip \<Longrightarrow> 12 \<le> length ip"
  by (drule arg_cong [where f = length, OF is_ipv4_mapped_def [THEN iffD1]]) (simp add: min_def split: if_splits)

lemma ip_short_cases:
  assumes "valid_ip ip"
  obtains a b c d where "ip_short ip = [a, b, c, d]"
  | "length ip = 16" "ip_short ip = ip" "\<not> is_ipv4_mapped ip"
proof -
  have "length (ip_short ip) = 4 \<or> length ip = 16 \<and> ip_short ip = ip \<and> \<not> is_ipv4_mapped ip"
    using assms mapped_length [of ip] by (auto simp: valid_ip_def ip_short_def)
  then show ?thesis using that length_4 by metis
qed

lemma not_mapped_short: "length ip = 4 \<Longrightarrow> ip_short ip = ip"
  using mapped_length [of ip] by (auto simp: ip_short_def)

lemma ip_short_idem [simp]: "valid_ip ip \<Longrightarrow> ip_short (ip_short ip) = ip_short ip"
  by (erule ip_short_cases) (simp_all add: not_mapped_short)

lemma valid_ip_short: "valid_ip ip \<Longrightarrow> valid_ip (ip_short ip)"
  using mapped_length [of ip] by (auto simp: valid_ip_def ip_short_def list_all_iff dest: in_set_dropD)

lemma same_bits_all: "length xs = length ys \<Longrightarrow> same_bits (8 * length xs) xs ys \<longleftrightarrow> xs = ys"
  by (induction xs ys rule: list_induct2) (auto simp: algebra_simps)

lemma contains_4:
  assumes "b < 256" "c < 256"
  shows "(\<exists>net\<in>set restricted_nets4. ipnet_contains net [a, b, c, d])
     \<longleftrightarrow> [a, b, c, d] = [0, 0, 0, 0] \<or> a = 10 \<or> a = 100 \<and> b div 64 = 1 \<or> a = 127 \<or> a = 169 \<and> b = 254
       \<or> a = 172 \<and> b div 16 = 1 \<or> a = 192 \<and> b = 168 \<or> a div 16 = 14"
proof -
  have "b div 256 = 0" "c div 256 = 0" using assms by simp_all
  then show ?thesis by (simp add: restricted_nets4_def ipnet_contains_def not_mapped_short) auto
qed

lemma ip_short_constants:
  "ip_short (replicate 16 0) = replicate 16 0"
  "ip_short (replicate 10 0 @ [255, 255, 0, 0, 0, 0]) = [0, 0, 0, 0]"
  "ip_short (replicate 15 0 @ [1]) = replicate 15 0 @ [1]"
  by code_simp+

lemma unspecified_4: "ip_unspecified [a, b, c, d] \<longleftrightarrow> [a, b, c, d] = [0, 0, 0, 0]"
  by (simp add: ip_unspecified_def ip_equal_def not_mapped_short ip_short_constants) (auto dest: arg_cong [where f = length])

lemma restricted_4:
  assumes "b < 256" "c < 256"
  shows "restricted_ip [a, b, c, d] \<longleftrightarrow> (\<exists>net\<in>set restricted_nets4. ipnet_contains net [a, b, c, d])"
proof -
  have "ipnet_contains cgnat_net [a, b, c, d] \<longleftrightarrow> a = 100 \<and> b div 64 = 1"
    by (auto simp: cgnat_net_def ipnet_contains_def not_mapped_short)
  moreover have "224 div 16 = (14::nat)" by simp
  ultimately show ?thesis unfolding contains_4 [OF assms] restricted_ip_def unspecified_4
    by (simp add: ip_loopback_def ip_private_def ip_link_local_def ip_link_local_multicast_def
        ip_interface_multicast_def ip_multicast_def not_mapped_short) auto
qed

lemma restricted_16:
  assumes ip: "length ip = 16" "\<not> is_ipv4_mapped ip" and small: "list_all (\<lambda>b. b < 256) ip"
  shows "restricted_ip ip \<longleftrightarrow> (\<exists>net\<in>set restricted_nets6. ipnet_contains net ip)"
proof -
  have short: "ip_short ip = ip" using ip by (simp add: ip_short_def)
  obtain a b r where abr: "ip = a # b # r" "length r = 14"
  proof (cases ip)
    case (Cons a t)
    then show ?thesis using that ip(1) by (cases t) auto
  qed (use ip(1) in simp)
  have "b < 256" using small abr(1) by simp
  then have b: "b div 256 = 0" by simp
  have r15: "replicate 15 (0::nat) = 0 # replicate 14 0" by (simp add: numeral_eq_Suc)
  have tail: "same_bits 0 (replicate 15 0) (b # r)" unfolding r15 using b by simp
  have all: "same_bits 128 xs ip \<longleftrightarrow> xs = ip" if "length xs = 16" for xs
    using same_bits_all [of xs ip] that ip(1) by simp
  have case4: "(case ip of [a, b, c, d] \<Rightarrow> P a b c d | _ \<Rightarrow> Q) = Q" for P and Q :: bool
    using abr by (auto split: list.splits)
  have len: "ip \<noteq> [0, 0, 0, 0]" using ip(1) by auto
  have nets: "(\<exists>net\<in>set restricted_nets6. ipnet_contains net ip)
      \<longleftrightarrow> replicate 16 0 = ip \<or> replicate 15 0 @ [1] = ip \<or> a div 2 = 126 \<or> a = 254 \<and> b div 64 = 2 \<or> a = 255"
    using all [of "replicate 16 0"] all [of "replicate 15 0 @ [1]"]
    by (simp add: restricted_nets6_def ipnet_contains_def short ip(1)) (auto simp: abr tail)
  have "ip_loopback ip \<longleftrightarrow> replicate 15 0 @ [1] = ip"
    unfolding ip_loopback_def short case4 ip_equal_def ip_short_constants by (rule eq_commute)
  moreover have "ip_unspecified ip \<longleftrightarrow> replicate 16 0 = ip"
    unfolding ip_unspecified_def short ip_equal_def ip_short_constants using len by auto
  moreover have "ip_private ip \<longleftrightarrow> a div 2 = 126" "ip_link_local ip \<longleftrightarrow> a = 254 \<and> b div 64 = 2"
      "ip_multicast ip \<longleftrightarrow> a = 255" "ip_link_local_multicast ip \<longrightarrow> a = 255" "ip_interface_multicast ip \<longrightarrow> a = 255"
      "\<not> ipnet_contains cgnat_net ip"
    by (simp_all add: ip_private_def ip_link_local_def ip_multicast_def ip_link_local_multicast_def
        ip_interface_multicast_def cgnat_net_def ipnet_contains_def short case4 ip(1)) (simp_all add: abr)
  ultimately show ?thesis unfolding nets restricted_ip_def by blast
qed

lemma restricted_iff:
  assumes v: "valid_ip ip" and s: "ip_short ip = ip"
  shows "restricted_ip ip \<longleftrightarrow> (\<exists>net\<in>set (restricted_nets4 @ restricted_nets6). ipnet_contains net ip)"
  using v
proof (cases rule: ip_short_cases)
  case (1 a b c d)
  have no6: "\<not> ipnet_contains net [a, b, c, d]" if "net \<in> set restricted_nets6" for net
    using that by (auto simp: restricted_nets6_def ipnet_contains_def not_mapped_short)
  from 1 s have ip: "ip = [a, b, c, d]" by simp
  with v have "b < 256" "c < 256" by (simp_all add: valid_ip_def)
  from restricted_4 [OF this, of a d] no6 show ?thesis by (auto simp: ip)
next
  case 2
  have no4: "\<not> ipnet_contains net ip" if "net \<in> set restricted_nets4" for net
    using that 2 by (auto simp: restricted_nets4_def ipnet_contains_def)
  from restricted_16 [OF 2(1,3)] v no4 show ?thesis by (auto simp: valid_ip_def)
qed

text \<open>The addresses of this machine that need no resolver: loopback and unspecified.\<close>

definition local_nets :: "(nat list \<times> nat) list" where
  "local_nets = [([127, 0, 0, 0], 8), ([0, 0, 0, 0], 32), (replicate 16 0, 128), (replicate 15 0 @ [1], 128)]"

lemma local_iff:
  assumes v: "valid_ip ip" and s: "ip_short ip = ip"
  shows "ip_loopback ip \<or> ip_unspecified ip \<longleftrightarrow> (\<exists>net\<in>set local_nets. ipnet_contains net ip)"
  using v
proof (cases rule: ip_short_cases)
  case (1 a b c d)
  from 1 s have ip: "ip = [a, b, c, d]" by simp
  with v have "b < 256" by (simp add: valid_ip_def)
  then have "b div 256 = 0" by simp
  then show ?thesis
    by (auto simp: ip local_nets_def ipnet_contains_def not_mapped_short unspecified_4 ip_loopback_def)
next
  case 2
  have all: "same_bits 128 xs ip \<longleftrightarrow> xs = ip" if "length xs = 16" for xs
    using same_bits_all [of xs ip] that 2(1) by simp
  have nets: "(\<exists>net\<in>set local_nets. ipnet_contains net ip) \<longleftrightarrow> replicate 15 0 @ [1] = ip \<or> replicate 16 0 = ip"
    using all [of "replicate 16 0"] all [of "replicate 15 0 @ [1]"]
    by (auto simp add: local_nets_def ipnet_contains_def 2)
  have "(case ip of [a, b, c, d] \<Rightarrow> P a b c d | _ \<Rightarrow> Q) = Q" for P and Q :: bool
    using 2(1) by (auto split: list.splits)
  then have "ip_loopback ip \<longleftrightarrow> replicate 15 0 @ [1] = ip"
    unfolding ip_loopback_def s ip_equal_def ip_short_constants by auto
  moreover have "ip \<noteq> [0, 0, 0, 0]" using 2(1) by auto
  then have "ip_unspecified ip \<longleftrightarrow> replicate 16 0 = ip"
    unfolding ip_unspecified_def s ip_equal_def ip_short_constants by auto
  ultimately show ?thesis unfolding nets by blast
qed

lemma contains_short: "valid_ip ip \<Longrightarrow> ipnet_contains net (ip_short ip) = ipnet_contains net ip"
  by (simp add: ipnet_contains_def)

section \<open>What is dialled\<close>

lemma first_error_None: "first_error f xs = None \<longleftrightarrow> (\<forall>x\<in>set xs. f x = None)"
  by (induction xs) (auto split: option.splits)

lemma dial_first_spec:
  "dial_first dial n ts e = (tried, r) \<Longrightarrow>
     tried = take (length tried) ts
     \<and> (\<forall>c. r = Inr c \<longrightarrow> tried \<noteq> [] \<and> dial (n + length tried - 1) (last tried) = Inr c)
     \<and> (\<forall>i < length tried - 1. \<exists>e. dial (n + i) (tried ! i) = Inl e)"
proof (induction ts arbitrary: n e tried)
  case (Cons t ts)
  show ?case
  proof (cases "dial n t")
    case (Inl e')
    with Cons.prems obtain d where d: "dial_first dial (Suc n) ts e' = (d, r)" "tried = t # d"
      by (auto split: prod.splits)
    from Cons.IH [OF d(1)] Inl show ?thesis
      by (auto simp: d(2) nth_Cons split: nat.splits)
  qed (use Cons.prems in auto)
qed auto

text \<open>
  What a guard lets through: an address of the host, with the port as written, that is not this machine on
  one of the tool's ports, and is public unless private destinations or the host are allowed; or a name that
  only the proxy can resolve, under the same conditions on what can be known of it.
\<close>

definition vetted_target ::
    "(string \<Rightarrow> lookup) \<Rightarrow> ip_guard \<Rightarrow> (string \<times> string) list \<Rightarrow> bool \<Rightarrow> string \<Rightarrow> dial_target \<Rightarrow> bool" where
  "vetted_target resolve g dns remote addr t \<longleftrightarrow>
     (\<exists>host pt port. split_host_port addr = Some (host, pt) \<and> sscan_int pt = Some port \<and>
       (case t of
          ToIP ip p \<Rightarrow>
            p = pt \<and> (\<exists>ips. candidates resolve dns host = Inr ips \<and> ip \<in> set ips)
            \<and> (port \<in> set (g_own_ports g) \<longrightarrow>
                 (\<forall>net\<in>set local_nets. \<not> ipnet_contains net ip) \<and> (\<forall>o'\<in>set (g_own_ips g). \<not> ip_equal o' ip))
            \<and> (g_block_private g \<longrightarrow> guard_allowed g host
                 \<or> (\<forall>net\<in>set (restricted_nets4 @ restricted_nets6). \<not> ipnet_contains net ip))
        | ToName a \<Rightarrow>
            a = addr \<and> remote \<and> candidates resolve dns host = Inl (HostNotFound host)
            \<and> port \<notin> set (g_own_ports g) \<and> (g_block_private g \<longrightarrow> guard_allowed g host)))"

lemma hex_digit_less: "hex_digit c = Some d \<Longrightarrow> d < 16"
  by (auto simp: hex_digit_def Let_def split: if_splits)

lemma hex_value_snoc: "hex_value (s @ [c]) = 16 * hex_value s + the (hex_digit c)"
  by (simp add: hex_value_def)

lemma hex_value_less: "\<forall>c\<in>set s. hex_digit c \<noteq> None \<Longrightarrow> hex_value s < 16 ^ length s"
proof (induction s rule: rev_induct)
  case (snoc c s)
  then have "hex_value s < 16 ^ length s" and "the (hex_digit c) < 16" by (auto intro: hex_digit_less)
  then show ?case by (simp add: hex_value_snoc)
qed (simp add: hex_value_def)

lemma hex_run_value:
  assumes "length (hex_run s) \<le> 4"
  shows "hex_value (hex_run s) div 256 < 256"
proof -
  have "\<forall>c\<in>set (hex_run s). hex_digit c \<noteq> None" by (auto simp: hex_run_def dest: set_takeWhileD)
  then have "hex_value (hex_run s) < 16 ^ length (hex_run s)" by (rule hex_value_less)
  also have "\<dots> \<le> 16 ^ 4" using assms by (rule power_increasing) simp
  finally show ?thesis by simp
qed

lemma parse_ipv4_bytes: "parse_ipv4 s = Some fs \<Longrightarrow> list_all (\<lambda>b. b < 256) fs"
  by (fastforce simp: parse_ipv4_def Let_def list_all_iff ipv4_field_def image_iff split: if_splits)

lemma ipv6_groups_bytes:
  "ipv6_groups n s ip ell = Some (ip', ell', rest) \<Longrightarrow> list_all (\<lambda>b. b < 256) ip \<Longrightarrow> list_all (\<lambda>b. b < 256) ip'"
proof (induction n arbitrary: s ip ell)
  case (Suc n)
  from Suc.prems show ?case
    by (auto simp: Let_def hex_run_value dest: parse_ipv4_bytes split: if_splits option.splits dest!: Suc.IH)
qed simp

lemma ipv6_expand_bytes:
  "ipv6_expand ip ell = Some r \<Longrightarrow> list_all (\<lambda>b. b < 256) ip \<Longrightarrow> list_all (\<lambda>b. b < 256) r"
  by (auto simp: ipv6_expand_def list_all_iff split: if_splits option.splits dest!: in_set_takeD in_set_dropD)

lemma parse_ip_valid:
  assumes "parse_ip s = Some ip"
  shows "valid_ip ip"
proof -
  have "list_all (\<lambda>b. b < 256) r" if "parse_ipv6 t = Some r" for t r
    using that by (auto simp: parse_ipv6_def Let_def list_all_iff split: if_splits option.splits
        dest!: ipv6_groups_bytes ipv6_expand_bytes)
  then have "list_all (\<lambda>b. b < 256) ip"
    using assms by (auto simp: parse_ip_def list_all_iff dest!: parse_ipv4_bytes split: if_splits list.splits)
  then show ?thesis using parse_ip_length [OF assms] by (simp add: valid_ip_def)
qed

definition resolver_ok :: "(string \<Rightarrow> lookup) \<Rightarrow> bool" where
  "resolver_ok resolve \<longleftrightarrow> (\<forall>h ips. resolve h = Addrs ips \<longrightarrow> (\<forall>ip\<in>set ips. valid_ip ip))"

lemma candidates_valid:
  "candidates resolve dns host = Inr ips \<Longrightarrow> resolver_ok resolve \<Longrightarrow> ip \<in> set ips \<Longrightarrow> valid_ip ip"
  by (auto simp: candidates_def resolver_ok_def parse_ip_valid split: option.splits lookup.splits)

lemma guard_check_passes:
  assumes "guard_check (Some g) host ip port = None" and v: "valid_ip ip"
  shows "(port \<in> set (g_own_ports g) \<longrightarrow>
                 (\<forall>net\<in>set local_nets. \<not> ipnet_contains net ip) \<and> (\<forall>o'\<in>set (g_own_ips g). \<not> ip_equal o' ip))
            \<and> (g_block_private g \<longrightarrow> guard_allowed g host
                 \<or> (\<forall>net\<in>set (restricted_nets4 @ restricted_nets6). \<not> ipnet_contains net ip))"
proof -
  let ?s = "ip_short ip"
  have eq: "ip_equal a ?s = ip_equal a ip" for a using v by (simp add: ip_equal_def)
  have "\<not> guard_own g ?s port" and "g_block_private g \<longrightarrow> guard_allowed g host \<or> \<not> restricted_ip ?s"
    using assms(1) by (auto simp: guard_check_def Let_def split: if_splits)
  then show ?thesis
    using local_iff [of ?s] restricted_iff [of ?s] v
    by (simp add: valid_ip_short contains_short guard_own_def list_ex_iff eq) blast
qed

lemma dial_vets:
  assumes "resolver_ok resolve" and "guarded_dial_via resolve dial (Some g) dns remote addr = (tried, r)"
  shows "(\<forall>t\<in>set tried. vetted_target resolve g dns remote addr t)
    \<and> (\<forall>host pt port ips ip. split_host_port addr = Some (host, pt) \<and> sscan_int pt = Some port
          \<and> candidates resolve dns host = Inr ips \<and> ip \<in> set ips \<and> guard_check (Some g) host ip port \<noteq> None \<longrightarrow> tried = [])
    \<and> (\<forall>c. r = Inr c \<longrightarrow> tried \<noteq> [] \<and> dial (length tried - 1) (last tried) = Inr c
          \<and> (\<forall>i < length tried - 1. \<exists>e. dial i (tried ! i) = Inl e))"
proof (cases "tried = []")
  case True
  with assms(2) show ?thesis
    by (auto simp: guarded_dial_via_def dest!: dial_first_spec split: option.splits sum.splits if_splits prod.splits)
next
  case False
  with assms(2) obtain host pt port where sp: "split_host_port addr = Some (host, pt)" "sscan_int pt = Some port"
    by (auto simp: guarded_dial_via_def split: option.splits)
  show ?thesis
  proof (cases "candidates resolve dns host")
    case (Inl e)
    with False assms(2) sp have n: "remote" "host_not_found e" "unverifiable_host (Some g) host port = None"
        "tried = [ToName addr]" "r = dial 0 (ToName addr)"
      by (auto simp: guarded_dial_via_def split: option.splits if_splits)
    have "e = HostNotFound host"
      using n(2) Inl by (auto simp: candidates_def split: option.splits lookup.splits)
    then have "vetted_target resolve g dns remote addr (ToName addr)"
      using n(1,3) Inl sp by (auto simp: vetted_target_def unverifiable_host_def split: if_splits)
    with n Inl sp show ?thesis by auto
  next
    case (Inr ips)
    with False assms(2) sp have ok: "\<forall>ip\<in>set ips. guard_check (Some g) host ip port = None"
      and d: "dial_first dial 0 (map (\<lambda>ip. ToIP ip pt) ips) (NoAddresses host) = (tried, r)"
      by (auto simp: guarded_dial_via_def first_error_None [symmetric] split: option.splits if_splits)
    note spec = dial_first_spec [OF d]
    have "vetted_target resolve g dns remote addr t" if "t \<in> set tried" for t
    proof -
      from spec that have "t \<in> set (map (\<lambda>ip. ToIP ip pt) ips)" by (metis in_set_takeD)
      then obtain ip where ip: "t = ToIP ip pt" "ip \<in> set ips" by auto
      with guard_check_passes [of g host ip port] ok candidates_valid [OF Inr assms(1)] show ?thesis
        using sp Inr by (auto simp: vetted_target_def)
    qed
    with spec ok sp Inr show ?thesis by auto
  qed
qed

text \<open>
  (C37) The sender connects only to vetted destinations. Every address that \<open>guardedDialVia\<close> tries is one of
  the host's own addresses with the port as written; on one of the tool's ports it is neither loopback nor
  unspecified nor an address of the tool; when private destinations are blocked and the host is not allowed it
  is outside every blocked network; a name is tried only behind a proxy that resolves names itself, when
  nothing was found here, never on one of the tool's ports and not where private destinations are
  blocked. One bad address among a host's addresses stops every attempt. The connection returned is
  the answer to the last attempt, and the earlier ones failed.
\<close>

theorem dials_only_vetted:
  assumes "resolver_ok resolve" and "guarded_dial_via resolve dial (Some g) dns remote addr = (tried, r)"
  shows "(\<forall>t\<in>set tried. vetted_target resolve g dns remote addr t)
    \<and> (\<forall>host pt port ips ip. split_host_port addr = Some (host, pt) \<and> sscan_int pt = Some port
          \<and> candidates resolve dns host = Inr ips \<and> ip \<in> set ips \<and> guard_check (Some g) host ip port \<noteq> None \<longrightarrow> tried = [])
    \<and> (\<forall>c. r = Inr c \<longrightarrow> tried \<noteq> [] \<and> dial (length tried - 1) (last tried) = Inr c
          \<and> (\<forall>i < length tried - 1. \<exists>e. dial i (tried ! i) = Inl e))"
  by (rule dial_vets [OF assms])

definition demo_resolve :: "string \<Rightarrow> lookup" where
  "demo_resolve h = (if h = ''x.y'' then Addrs [[93, 184, 216, 34]] else if h = ''in.y'' then Addrs [[10, 0, 0, 5]] else NoSuchHost)"

definition demo_ip_guard :: ip_guard where
  "demo_ip_guard = \<lparr>g_block_private = True, g_allow_hosts = [], g_own_ports = [8080], g_own_ips = []\<rparr>"

lemma demo_dials:
  "guarded_dial_via demo_resolve (\<lambda>_ _. Inr ()) (Some demo_ip_guard) [] False ''x.y:443''
     = ([ToIP [93, 184, 216, 34] ''443''], Inr ())"
  "guarded_dial_via demo_resolve (\<lambda>_ _. Inr ()) (Some demo_ip_guard) [] False ''in.y:443''
     = ([], Inl (NonPublic ''in.y'' [10, 0, 0, 5]))"
  by code_simp+

theorem dials_only_vetted_witness:
  "vetted_target demo_resolve demo_ip_guard [] False ''x.y:443'' (ToIP [93, 184, 216, 34] ''443'')"
proof -
  have "resolver_ok demo_resolve" by (auto simp: resolver_ok_def demo_resolve_def valid_ip_def split: if_splits)
  from dials_only_vetted [OF this demo_dials(1)] show ?thesis by simp
qed

end
