(* ===== verification/SendHop.thy ===== *)
theory SendHop
  imports SendDial Http
begin

text \<open>
  Requests of the sender (\<open>internal/sender/sender.go\<close>, \<open>options.go\<close>) and how a redirect turns one into
  the next: \<open>nextRedirect\<close> and \<open>Send\<close> of the sender, \<open>nextHop\<close> and \<open>setHopCookie\<close> of
  \<open>internal/collexec/step.go\<close>, and the bytes of a raw request. What one exchange answers is an argument,
  as is \<open>base.Parse\<close>: it answers the target and its text. A callback is not a field: what it does is in the
  definitions that send. A nil and an empty map differ here, since \<open>setHopCookie\<close> tells them apart.
\<close>

section \<open>Requests\<close>

type_synonym raw_headers = "(string \<times> string) list"

record send_meta =
  sm_run :: string
  sm_item :: string
  sm_iteration :: nat
  sm_phase :: string

record send_options =
  so_timeout :: int
  so_follow :: bool
  so_max :: int
  so_verify_tls :: bool
  so_server_name :: string
  so_http2 :: bool
  so_cert :: string
  so_key :: string
  so_proxy_url :: string
  so_no_proxy :: bool
  so_dns :: "(string \<times> string) list"
  so_guard :: "ip_guard option"
  so_raw :: raw_headers
  so_meta :: send_meta

record send_req =
  sq_method :: string
  sq_url :: string
  sq_host :: string
  sq_headers :: "header option"
  sq_body :: string
  sq_flags :: int
  sq_no_session :: bool
  sq_options :: "send_options option"
  sq_retried :: bool

text \<open>What is read of the flow that an exchange leaves.\<close>

record flow_answer =
  fw_id :: int
  fw_status :: int
  fw_http_version :: string
  fw_res_headers :: header
  fw_res_body :: string
  fw_res_len :: int
  fw_duration :: int
  fw_flow_error :: string

record url_lib =
  ul_parse :: url_parser
  ul_ref :: "string \<Rightarrow> string \<Rightarrow> (url \<times> string) option"

section \<open>Redirects\<close>

definition redirect_status :: "int \<Rightarrow> bool" where
  "redirect_status n \<longleftrightarrow> n \<in> {301, 302, 303, 307, 308}"

definition drops_body :: "int \<Rightarrow> string \<Rightarrow> bool" where
  "drops_body status method0 \<longleftrightarrow>
     (let method = (if method0 = [] then ''GET'' else method0) in
      status = 303 \<and> method \<noteq> ''HEAD'' \<or> (status = 301 \<or> status = 302) \<and> method = ''POST'')"

text \<open>The target of a redirect: an absolute web URL.\<close>

definition redirect_target :: "url_lib \<Rightarrow> send_req \<Rightarrow> flow_answer \<Rightarrow> (url \<times> url \<times> string) option" where
  "redirect_target lib r f =
     (if \<not> redirect_status (fw_status f) then None
      else (let loc = header_get (fw_res_headers f) ''Location'' in
        case ul_parse lib (sq_url r) of
          None \<Rightarrow> None
        | Some base \<Rightarrow>
            if loc = [] then None
            else (case ul_ref lib (sq_url r) loc of
                    None \<Rightarrow> None
                  | Some (target, turl) \<Rightarrow>
                      if url_scheme target \<noteq> ''http'' \<and> url_scheme target \<noteq> ''https'' \<or> url_host target = [] then None
                      else Some (base, target, turl))))"

definition cred_names :: "string list" where
  "cred_names = [''Authorization'', ''Cookie'', ''Proxy-Authorization'']"

text \<open>The closure \<open>skip\<close>: which headers do not go to the next hop.\<close>

definition skip_header :: "bool \<Rightarrow> bool \<Rightarrow> string \<Rightarrow> bool" where
  "skip_header dropb cross k \<longleftrightarrow>
     (let c = canonical_header_key k in
      c = ''Host'' \<or> dropb \<and> c \<in> set [''Content-Length'', ''Content-Type'', ''Transfer-Encoding'']
      \<or> cross \<and> c \<in> set cred_names)"

definition keep_headers :: "bool \<Rightarrow> bool \<Rightarrow> header \<Rightarrow> header" where
  "keep_headers dropb cross h = filter (\<lambda>(k, vs). \<not> skip_header dropb cross k) h"

definition keep_raw :: "bool \<Rightarrow> bool \<Rightarrow> raw_headers \<Rightarrow> raw_headers" where
  "keep_raw dropb cross hs = filter (\<lambda>(k, v). \<not> skip_header dropb cross k) hs"

text \<open>\<open>nextRedirect\<close> of the sender: a downgrade from https to http counts as another host.\<close>

definition next_redirect :: "url_lib \<Rightarrow> send_req \<Rightarrow> flow_answer \<Rightarrow> send_req option" where
  "next_redirect lib r f =
     (case redirect_target lib r f of
        None \<Rightarrow> None
      | Some (base, target, turl) \<Rightarrow>
          (let dropb = drops_body (fw_status f) (sq_method r);
               downgrade = (equal_fold (url_scheme base) ''https'' \<and> equal_fold (url_scheme target) ''http'');
               cross = (\<not> equal_fold (url_host base) (url_host target) \<or> downgrade)
           in Some (r\<lparr>sq_url := turl, sq_host := [], sq_retried := False,
                      sq_method := (if dropb then ''GET'' else sq_method r),
                      sq_body := (if dropb then [] else sq_body r),
                      sq_headers := Some (keep_headers dropb cross (case sq_headers r of None \<Rightarrow> [] | Some h \<Rightarrow> h)),
                      sq_options := map_option (\<lambda>op. op\<lparr>so_raw := keep_raw dropb cross (so_raw op)\<rparr>) (sq_options r)\<rparr>)))"

text \<open>\<open>nextHop\<close> of the pipeline.\<close>

definition next_hop :: "url_lib \<Rightarrow> send_req \<Rightarrow> flow_answer \<Rightarrow> send_req option" where
  "next_hop lib r f =
     (case redirect_target lib r f of
        None \<Rightarrow> None
      | Some (base, target, turl) \<Rightarrow>
          (let dropb = drops_body (fw_status f) (sq_method r);
               cross = (\<not> equal_fold (url_host base) (url_host target))
           in Some (r\<lparr>sq_url := turl, sq_host := [],
                      sq_method := (if dropb then ''GET'' else sq_method r),
                      sq_body := (if dropb then [] else sq_body r),
                      sq_headers := map_option (keep_headers dropb cross) (sq_headers r),
                      sq_options := map_option (\<lambda>op. op\<lparr>so_raw := keep_raw dropb cross (so_raw op)\<rparr>) (sq_options r)\<rparr>)))"

text \<open>
  \<open>Send\<close>: the first exchange, then at most \<open>MaxRedirects\<close> redirects. The answer of the \<open>n\<close>-th exchange is an
  argument; the requests made are returned with the result.
\<close>

fun follow_redirects ::
    "url_lib \<Rightarrow> (nat \<Rightarrow> send_req \<Rightarrow> 'e + flow_answer) \<Rightarrow> nat \<Rightarrow> nat \<Rightarrow> send_req \<Rightarrow> flow_answer \<Rightarrow>
     send_req list \<times> ('e + flow_answer)" where
  "follow_redirects lib one i 0 r f = ([], Inr f)"
| "follow_redirects lib one i (Suc n) r f =
     (case next_redirect lib r f of
        None \<Rightarrow> ([], Inr f)
      | Some r' \<Rightarrow>
          (case one i r' of
             Inl e \<Rightarrow> ([r'], Inl e)
           | Inr f' \<Rightarrow> (let (rs, res) = follow_redirects lib one (Suc i) n r' f' in (r' # rs, res))))"

definition sender_send ::
    "url_lib \<Rightarrow> (nat \<Rightarrow> send_req \<Rightarrow> 'e + flow_answer) \<Rightarrow> send_req \<Rightarrow> send_req list \<times> ('e + flow_answer)" where
  "sender_send lib one r =
     (case one 0 r of
        Inl e \<Rightarrow> ([r], Inl e)
      | Inr f \<Rightarrow>
          (case sq_options r of
             None \<Rightarrow> ([r], Inr f)
           | Some op \<Rightarrow>
               if \<not> so_follow op then ([r], Inr f)
               else (let n = (if so_max op \<le> 0 then 10 else nat (so_max op));
                         (rs, res) = follow_redirects lib one 1 n r f
                     in (r # rs, res))))"

section \<open>The cookie of a hop\<close>

definition is_cookie :: "string \<Rightarrow> bool" where
  "is_cookie k \<longleftrightarrow> equal_fold k ''Cookie''"

definition set_hop_cookie :: "string \<Rightarrow> send_req \<Rightarrow> send_req" where
  "set_hop_cookie c r =
     (let hs = map_option (filter (\<lambda>(k, vs). \<not> is_cookie k)) (sq_headers r);
          raw = (hs = None \<and> (case sq_options r of None \<Rightarrow> False | Some op \<Rightarrow> so_raw op \<noteq> []));
          opts = map_option (\<lambda>op. op\<lparr>so_raw := filter (\<lambda>(k, v). \<not> is_cookie k) (so_raw op)\<rparr>) (sq_options r);
          r' = r\<lparr>sq_headers := hs, sq_options := opts\<rparr>
      in if c = [] then r'
         else if raw
         then r'\<lparr>sq_options := map_option (\<lambda>op. op\<lparr>so_raw := so_raw op @ [(''Cookie'', c)]\<rparr>) opts\<rparr>
         else r'\<lparr>sq_headers := Some (header_put (case hs of None \<Rightarrow> [] | Some h \<Rightarrow> h) ''Cookie'' [c])\<rparr>)"

text \<open>Every header line of a request, of the map and of the raw list.\<close>

definition map_lines :: "send_req \<Rightarrow> (string \<times> string) list" where
  "map_lines r = concat (map (\<lambda>(k, vs). map (Pair k) vs) (case sq_headers r of None \<Rightarrow> [] | Some h \<Rightarrow> h))"

definition raw_lines :: "send_req \<Rightarrow> (string \<times> string) list" where
  "raw_lines r = (case sq_options r of None \<Rightarrow> [] | Some op \<Rightarrow> so_raw op)"

definition carried :: "send_req \<Rightarrow> (string \<times> string) list" where
  "carried r = raw_lines r @ map_lines r"

text \<open>What goes out: raw headers replace the map.\<close>

definition wire_headers :: "send_req \<Rightarrow> (string \<times> string) list" where
  "wire_headers r = (if raw_lines r \<noteq> [] then raw_lines r else map_lines r)"

section \<open>The bytes of a raw request\<close>

definition has_lower :: "string \<Rightarrow> raw_headers \<Rightarrow> bool" where
  "has_lower n hs \<longleftrightarrow> n \<in> (\<lambda>(k, v). to_lower k) ` set hs"

text \<open>\<open>buildRawRequest\<close>; the request URI of a URL is an argument.\<close>

definition build_raw_request :: "string \<Rightarrow> string \<Rightarrow> url \<Rightarrow> raw_headers \<Rightarrow> string \<Rightarrow> string" where
  "build_raw_request method uri u hdrs body =
     (let crlf = [CHR 0x0D, CHR 0x0A] in
      method @ '' '' @ uri @ '' HTTP/1.1'' @ crlf
      @ (if has_lower ''host'' hdrs then [] else ''Host: '' @ url_host u @ crlf)
      @ concat (map (\<lambda>(k, v). k @ '': '' @ v @ crlf) hdrs)
      @ (if body \<noteq> [] \<and> \<not> has_lower ''content-length'' hdrs \<and> \<not> has_lower ''transfer-encoding'' hdrs
         then ''Content-Length: '' @ nat_dec (length body) @ crlf else [])
      @ (if has_lower ''connection'' hdrs then [] else ''Connection: close'' @ crlf)
      @ crlf @ body)"

section \<open>Where credentials go\<close>

text \<open>Two places: the same host, and for the sender no step down from https to http.\<close>

definition same_place :: "url_lib \<Rightarrow> send_req \<Rightarrow> flow_answer \<Rightarrow> bool" where
  "same_place lib r f \<longleftrightarrow>
     (\<exists>base target turl. redirect_target lib r f = Some (base, target, turl) \<and> equal_fold (url_host base) (url_host target))"

definition downgrades :: "url_lib \<Rightarrow> send_req \<Rightarrow> flow_answer \<Rightarrow> bool" where
  "downgrades lib r f \<longleftrightarrow>
     (\<exists>base target turl. redirect_target lib r f = Some (base, target, turl)
        \<and> equal_fold (url_scheme base) ''https'' \<and> equal_fold (url_scheme target) ''http'')"

definition credential :: "string \<Rightarrow> bool" where
  "credential k \<longleftrightarrow> canonical_header_key k \<in> set cred_names"

lemma keep_raw_set: "(k, v) \<in> set (keep_raw d c hs) \<Longrightarrow> (k, v) \<in> set hs \<and> (credential k \<longrightarrow> \<not> c)"
  by (auto simp: keep_raw_def skip_header_def credential_def Let_def)

lemma keep_headers_set: "(k, vs) \<in> set (keep_headers d c hs) \<Longrightarrow> (k, vs) \<in> set hs \<and> (credential k \<longrightarrow> \<not> c)"
  by (auto simp: keep_headers_def skip_header_def credential_def Let_def)

lemma carried_iff:
  "(k, v) \<in> set (carried r) \<longleftrightarrow>
     (\<exists>op. sq_options r = Some op \<and> (k, v) \<in> set (so_raw op))
     \<or> (\<exists>h vs. sq_headers r = Some h \<and> (k, vs) \<in> set h \<and> v \<in> set vs)"
  by (cases "sq_options r"; cases "sq_headers r") (force simp: carried_def raw_lines_def map_lines_def)+

lemma next_redirect_carries:
  assumes "next_redirect lib r f = Some r'" and kv: "(k, v) \<in> set (carried r')"
  shows "(k, v) \<in> set (carried r) \<and> (credential k \<longrightarrow> same_place lib r f \<and> \<not> downgrades lib r f)"
proof -
  obtain base target turl where t: "redirect_target lib r f = Some (base, target, turl)"
    using assms(1) by (auto simp: next_redirect_def split: option.splits)
  define c where "c = (\<not> equal_fold (url_host base) (url_host target)
    \<or> equal_fold (url_scheme base) ''https'' \<and> equal_fold (url_scheme target) ''http'')"
  define d where "d = drops_body (fw_status f) (sq_method r)"
  have r': "sq_headers r' = Some (keep_headers d c (case sq_headers r of None \<Rightarrow> [] | Some h \<Rightarrow> h))"
    "sq_options r' = map_option (\<lambda>op. op\<lparr>so_raw := keep_raw d c (so_raw op)\<rparr>) (sq_options r)"
    using assms(1) by (auto simp: next_redirect_def t c_def d_def Let_def)
  have "(k, v) \<in> set (carried r) \<and> (credential k \<longrightarrow> \<not> c)"
    using kv by (auto simp: carried_iff r' dest!: keep_raw_set keep_headers_set split: option.splits)
  moreover have "\<not> c \<longrightarrow> same_place lib r f \<and> \<not> downgrades lib r f"
    by (auto simp: c_def same_place_def downgrades_def t)
  ultimately show ?thesis by blast
qed

lemma next_hop_carries:
  assumes "next_hop lib r f = Some r'" and kv: "(k, v) \<in> set (carried r')"
  shows "(k, v) \<in> set (carried r) \<and> (credential k \<longrightarrow> same_place lib r f)"
proof -
  obtain base target turl where t: "redirect_target lib r f = Some (base, target, turl)"
    using assms(1) by (auto simp: next_hop_def split: option.splits)
  define c where "c = (\<not> equal_fold (url_host base) (url_host target))"
  define d where "d = drops_body (fw_status f) (sq_method r)"
  have r': "sq_headers r' = map_option (keep_headers d c) (sq_headers r)"
    "sq_options r' = map_option (\<lambda>op. op\<lparr>so_raw := keep_raw d c (so_raw op)\<rparr>) (sq_options r)"
    using assms(1) by (auto simp: next_hop_def t c_def d_def Let_def)
  have "(k, v) \<in> set (carried r) \<and> (credential k \<longrightarrow> \<not> c)"
    using kv by (auto simp: carried_iff r' dest!: keep_raw_set keep_headers_set)
  moreover have "\<not> c \<longrightarrow> same_place lib r f"
    by (auto simp: c_def same_place_def t)
  ultimately show ?thesis by blast
qed

definition redirect_limit :: "send_req \<Rightarrow> nat" where
  "redirect_limit r =
     (case sq_options r of
        None \<Rightarrow> 0 | Some op \<Rightarrow> if \<not> so_follow op then 0 else if so_max op \<le> 0 then 10 else nat (so_max op))"

lemma follow_redirects_spec:
  "follow_redirects lib one i n r f = (rs, res) \<Longrightarrow>
     length rs \<le> n
     \<and> (\<forall>j < length rs. \<exists>fj. (if j = 0 then fj = f else one (i + j - 1) ((r # rs) ! j) = Inr fj)
          \<and> next_redirect lib ((r # rs) ! j) fj = Some (rs ! j))"
proof (induction n arbitrary: i r f rs)
  case (Suc n)
  show ?case
  proof (cases "next_redirect lib r f")
    case (Some r')
    show ?thesis
    proof (cases "one i r'")
      case (Inr f')
      with Suc.prems Some obtain rs' where rs': "follow_redirects lib one (Suc i) n r' f' = (rs', res)" "rs = r' # rs'"
        by (auto split: prod.splits)
      show ?thesis
      proof (intro conjI allI impI)
        fix j assume j: "j < length rs"
        show "\<exists>fj. (if j = 0 then fj = f else one (i + j - 1) ((r # rs) ! j) = Inr fj)
            \<and> next_redirect lib ((r # rs) ! j) fj = Some (rs ! j)"
        proof (cases j)
          case (Suc m)
          with Suc.IH [OF rs'(1)] j obtain fj where
            "if m = 0 then fj = f' else one (Suc i + m - 1) ((r' # rs') ! m) = Inr fj"
            "next_redirect lib ((r' # rs') ! m) fj = Some (rs' ! m)" by (auto simp: rs'(2))
          with Suc Inr show ?thesis by (auto simp: rs'(2) split: if_splits)
        qed (simp add: Some rs'(2))
      qed (use Suc.IH [OF rs'(1)] in \<open>simp add: rs'(2)\<close>)
    qed (use Suc.prems Some in auto)
  qed (use Suc.prems in auto)
qed simp

lemma sender_send_spec:
  assumes "sender_send lib one r = (rs, res)"
  shows "rs \<noteq> [] \<and> hd rs = r \<and> length rs \<le> Suc (redirect_limit r)
    \<and> (\<forall>j. Suc j < length rs \<longrightarrow> (\<exists>f. one j (rs ! j) = Inr f \<and> next_redirect lib (rs ! j) f = Some (rs ! Suc j)))"
proof (cases "one 0 r")
  case (Inr f)
  show ?thesis
  proof (cases "case sq_options r of None \<Rightarrow> True | Some op \<Rightarrow> \<not> so_follow op")
    case True
    with assms Inr have "rs = [r]" by (auto simp: sender_send_def split: option.splits)
    then show ?thesis by simp
  next
    case False
    then obtain op where op: "sq_options r = Some op" "so_follow op" by (auto split: option.splits)
    from assms Inr op obtain rs' where rs': "follow_redirects lib one 1 (redirect_limit r) r f = (rs', res)" "rs = r # rs'"
      by (auto simp: sender_send_def redirect_limit_def Let_def split: prod.splits if_splits)
    from follow_redirects_spec [OF rs'(1)]
    have "\<exists>f. one j (rs ! j) = Inr f \<and> next_redirect lib (rs ! j) f = Some (rs ! Suc j)" if "Suc j < length rs" for j
      using that Inr rs'(2) by (fastforce split: if_splits)
    with follow_redirects_spec [OF rs'(1)] show ?thesis by (simp add: rs'(2))
  qed
qed (use assms in \<open>auto simp: sender_send_def\<close>)

text \<open>A property of headers that each hop hands down holds along the whole chain.\<close>

lemma chain_hands_down:
  assumes step: "\<And>j. Suc j < length rs \<Longrightarrow> x \<in> S (rs ! Suc j) \<Longrightarrow> x \<in> S (rs ! j) \<and> P j"
    and i: "i < length rs" "x \<in> S (rs ! i)"
  shows "x \<in> S (rs ! 0) \<and> (\<forall>j<i. P j)"
  using i
proof (induction i)
  case (Suc i)
  with step [of i] show ?case by (auto simp: less_Suc_eq)
qed simp

text \<open>
  (C38) Redirects that the sender follows itself keep credentials where they belong. A send makes its own request
  first and at most as many more as its limit; each of these is the redirect of the answer before. An
  Authorization, Cookie or Proxy-Authorization line that any of them carries was in the first request, and
  no hop on the way there led to another host or down from https to http.
\<close>

theorem redirects_keep_credentials_home:
  assumes "sender_send lib one r = (rs, res)"
  shows "rs \<noteq> [] \<and> hd rs = r \<and> length rs \<le> Suc (redirect_limit r)
    \<and> (\<forall>j. Suc j < length rs \<longrightarrow> (\<exists>f. one j (rs ! j) = Inr f \<and> next_redirect lib (rs ! j) f = Some (rs ! Suc j)))
    \<and> (\<forall>i k v. i < length rs \<and> (k, v) \<in> set (carried (rs ! i)) \<and> credential k \<longrightarrow>
         (k, v) \<in> set (carried r)
         \<and> (\<forall>j<i. \<exists>f. one j (rs ! j) = Inr f \<and> same_place lib (rs ! j) f \<and> \<not> downgrades lib (rs ! j) f))"
proof -
  note spec = sender_send_spec [OF assms]
  have "(k, v) \<in> set (carried r)
      \<and> (\<forall>j<i. \<exists>f. one j (rs ! j) = Inr f \<and> same_place lib (rs ! j) f \<and> \<not> downgrades lib (rs ! j) f)"
    if i: "i < length rs" and kv: "(k, v) \<in> set (carried (rs ! i))" and c: "credential k" for i k v
  proof -
    have "(k, v) \<in> set (carried (rs ! 0))
      \<and> (\<forall>j<i. \<exists>f. one j (rs ! j) = Inr f \<and> same_place lib (rs ! j) f \<and> \<not> downgrades lib (rs ! j) f)"
      using _ i kv
    proof (rule chain_hands_down [where S = "\<lambda>q. set (carried q)"])
      fix j assume j: "Suc j < length rs" "(k, v) \<in> set (carried (rs ! Suc j))"
      with spec obtain f where f: "one j (rs ! j) = Inr f" "next_redirect lib (rs ! j) f = Some (rs ! Suc j)" by blast
      from next_redirect_carries [OF f(2) j(2)] c f(1)
      show "(k, v) \<in> set (carried (rs ! j))
          \<and> (\<exists>f. one j (rs ! j) = Inr f \<and> same_place lib (rs ! j) f \<and> \<not> downgrades lib (rs ! j) f)" by blast
    qed
    moreover have "rs ! 0 = r" using spec by (cases rs) auto
    ultimately show ?thesis by simp
  qed
  with spec show ?thesis by blast
qed

definition demo_lib :: url_lib where
  "demo_lib =
     (let t = [(''https://a/x'', \<lparr>url_scheme = ''https'', url_host = ''a'', url_escaped_path = ''/x''\<rparr>),
               (''http://a/y'', \<lparr>url_scheme = ''http'', url_host = ''a'', url_escaped_path = ''/y''\<rparr>)]
      in \<lparr>ul_parse = map_of t, ul_ref = (\<lambda>base loc. map_option (\<lambda>u. (u, loc)) (map_of t loc))\<rparr>)"

definition demo_send_options :: send_options where
  "demo_send_options =
     \<lparr>so_timeout = 0, so_follow = True, so_max = 3, so_verify_tls = False, so_server_name = [], so_http2 = False,
      so_cert = [], so_key = [], so_proxy_url = [], so_no_proxy = False, so_dns = [], so_guard = None, so_raw = [],
      so_meta = \<lparr>sm_run = [], sm_item = [], sm_iteration = 0, sm_phase = []\<rparr>\<rparr>"

definition demo_send :: send_req where
  "demo_send =
     \<lparr>sq_method = ''GET'', sq_url = ''https://a/x'', sq_host = [],
      sq_headers = Some [(''Authorization'', [''t'']), (''X-Keep'', [''1''])], sq_body = [], sq_flags = 0,
      sq_no_session = True, sq_options = Some demo_send_options, sq_retried = False\<rparr>"

definition demo_answer_of :: "int \<Rightarrow> header \<Rightarrow> flow_answer" where
  "demo_answer_of status h =
     \<lparr>fw_id = 1, fw_status = status, fw_http_version = ''HTTP/1.1'', fw_res_headers = h, fw_res_body = [],
      fw_res_len = 0, fw_duration = 0, fw_flow_error = []\<rparr>"

definition demo_one :: "nat \<Rightarrow> send_req \<Rightarrow> string + flow_answer" where
  "demo_one n r = Inr (if n = 0 then demo_answer_of 302 [(''Location'', [''http://a/y''])] else demo_answer_of 200 [])"

lemma demo_sends:
  "map carried (fst (sender_send demo_lib demo_one demo_send))
     = [[(''Authorization'', ''t''), (''X-Keep'', ''1'')], [(''X-Keep'', ''1'')]]"
  by code_simp

theorem redirects_keep_credentials_home_witness:
  "length (fst (sender_send demo_lib demo_one demo_send)) = 2
   \<and> hd (fst (sender_send demo_lib demo_one demo_send)) = demo_send
   \<and> next_redirect demo_lib (fst (sender_send demo_lib demo_one demo_send) ! 0)
        (demo_answer_of 302 [(''Location'', [''http://a/y''])])
      = Some (fst (sender_send demo_lib demo_one demo_send) ! 1)"
proof -
  obtain rs res where rs: "sender_send demo_lib demo_one demo_send = (rs, res)" by fastforce
  have len: "length rs = 2" using arg_cong [OF demo_sends, where f = length] by (simp add: rs)
  from redirects_keep_credentials_home [OF rs] len obtain f where
    "demo_one 0 (rs ! 0) = Inr f" "next_redirect demo_lib (rs ! 0) f = Some (rs ! 1)" "hd rs = demo_send" by auto
  with len show ?thesis by (simp add: rs demo_one_def)
qed

text \<open>
  The redirect of a collection step is said to follow the same rules, but a hop from https down to http on the
  same host keeps the credentials, which the sender would drop.
\<close>

lemma step_redirect_keeps_credentials_on_downgrade:
  "downgrades demo_lib demo_send (demo_answer_of 302 [(''Location'', [''http://a/y''])])
   \<and> map_option carried (next_hop demo_lib demo_send (demo_answer_of 302 [(''Location'', [''http://a/y''])]))
       = Some [(''Authorization'', ''t''), (''X-Keep'', ''1'')]
   \<and> map_option carried (next_redirect demo_lib demo_send (demo_answer_of 302 [(''Location'', [''http://a/y''])]))
       = Some [(''X-Keep'', ''1'')]"
proof -
  have "redirect_target demo_lib demo_send (demo_answer_of 302 [(''Location'', [''http://a/y''])])
    = Some (\<lparr>url_scheme = ''https'', url_host = ''a'', url_escaped_path = ''/x''\<rparr>,
            \<lparr>url_scheme = ''http'', url_host = ''a'', url_escaped_path = ''/y''\<rparr>, ''http://a/y'')"
    by code_simp
  then have "downgrades demo_lib demo_send (demo_answer_of 302 [(''Location'', [''http://a/y''])])"
    by (auto simp: downgrades_def equal_fold_def)
  moreover have "map_option carried (next_hop demo_lib demo_send (demo_answer_of 302 [(''Location'', [''http://a/y''])]))
       = Some [(''Authorization'', ''t''), (''X-Keep'', ''1'')]
   \<and> map_option carried (next_redirect demo_lib demo_send (demo_answer_of 302 [(''Location'', [''http://a/y''])]))
       = Some [(''X-Keep'', ''1'')]"
    by code_simp
  ultimately show ?thesis by blast
qed

end
