(* ===== verification/StepSend.thy ===== *)
theory StepSend
  imports SendHop CollRun Scope
begin

text \<open>
  How a step of a collection sends (\<open>internal/collexec/pipeline.go\<close>, and \<open>checkDest\<close>, \<open>buildSend\<close>,
  \<open>send\<close> and its helpers in \<open>step.go\<close>): the scope policy, the destination checks, the request for the
  sender, redirects with their cookies, and the token requests of the authenticators (\<open>doAuthRequest\<close> of
  \<open>auth.go\<close>). The pipeline is a record of what it holds; the sender, \<open>url.Parse\<close> and the parser of
  response cookies are functions in it. The sender answers the flows it has stored, for each of which it
  calls \<open>OnFlow\<close>, and its result.
\<close>

section \<open>The pipeline\<close>

text \<open>
  \<open>pl_path\<close> is the decoded path of a URL. The answers of the sender and the times of the clock depend on
  how many requests came before.
\<close>

record pipeline =
  pl_lib :: url_lib
  pl_path :: "url \<Rightarrow> string"
  pl_scope :: "scope_engine option"
  pl_own_ports :: "int list"
  pl_own_ips :: "nat list list"
  pl_cookies :: "header \<Rightarrow> set_cookie list"
  pl_send :: "nat \<Rightarrow> send_req \<Rightarrow> flow_answer list \<times> (string + flow_answer option)"
  pl_flows :: bool
  pl_clock :: "nat \<Rightarrow> int"

definition scope_policy :: "step_input \<Rightarrow> string" where
  "scope_policy inp =
     (if si_scope_policy inp \<noteq> [] then si_scope_policy inp
      else (let cp = co_scope_policy (si_coll inp) in
        if si_source inp = ''ui'' then (if cp = ''off'' then cp else ''warn'')
        else if cp = [] then ''block'' else cp))"

definition default_port_for :: "string \<Rightarrow> string" where
  "default_port_for scheme = (if scheme = ''https'' then ''443'' else ''80'')"

text \<open>\<open>portOf\<close>; the sum of the digits wraps at 64 bits.\<close>

definition port_of :: "url \<Rightarrow> int" where
  "port_of u =
     (if url_port u \<noteq> [] then sint (word_of_nat (dec_value (url_port u)) :: 64 word)
      else if url_scheme u = ''https'' then 443 else 80)"

definition is_own :: "pipeline \<Rightarrow> string \<Rightarrow> int \<Rightarrow> bool" where
  "is_own p host port \<longleftrightarrow>
     port \<in> set (pl_own_ports p) \<and>
     (equal_fold host ''localhost'' \<or>
      (case parse_ip host of
         None \<Rightarrow> False
       | Some ip \<Rightarrow> ip_loopback ip \<or> ip_unspecified ip \<or> list_ex (\<lambda>x. ip_equal x ip) (pl_own_ips p)))"

text \<open>\<open>hostInScope\<close>, \<open>urlInScope\<close> and \<open>allowPrivate\<close>, with \<open>scope.Engine\<close> as the checker.\<close>

definition step_host_in_scope :: "pipeline \<Rightarrow> string \<Rightarrow> bool" where
  "step_host_in_scope p host = (case pl_scope p of None \<Rightarrow> True | Some e \<Rightarrow> host_in_scope e host)"

definition step_url_in_scope :: "pipeline \<Rightarrow> url \<Rightarrow> bool" where
  "step_url_in_scope p u =
     (case pl_scope p of
        None \<Rightarrow> True
      | Some e \<Rightarrow> url_in_scope e (to_lower (url_scheme u)) (url_hostname u) (port_of u) (pl_path p u))"

definition allow_private :: "pipeline \<Rightarrow> string \<Rightarrow> bool" where
  "allow_private p host = (case pl_scope p of None \<Rightarrow> False | Some e \<Rightarrow> host_in_scope e host \<and> has_includes e)"

definition guard_for :: "pipeline \<Rightarrow> string \<Rightarrow> string \<Rightarrow> ip_guard" where
  "guard_for p policy host =
     \<lparr>g_block_private = (policy = ''block''), g_allow_hosts = (if allow_private p host then [host] else []),
      g_own_ports = pl_own_ports p, g_own_ips = pl_own_ips p\<rparr>"

text \<open>A pin is an origin, a host with a port or a host; the pair has an empty port when it does not matter.\<close>

definition pin_parts :: "pipeline \<Rightarrow> string \<Rightarrow> (string \<times> string) option" where
  "pin_parts p pin =
     (if str_contains pin ''://'' then
        (case ul_parse (pl_lib p) pin of
           None \<Rightarrow> None
         | Some pu \<Rightarrow>
             Some (url_hostname pu, if url_port pu = [] then default_port_for (url_scheme pu) else url_port pu))
      else (case split_host_port pin of Some hp \<Rightarrow> Some hp | None \<Rightarrow> Some (pin, [])))"

definition pin_matches :: "pipeline \<Rightarrow> string \<Rightarrow> url \<Rightarrow> bool" where
  "pin_matches p pin0 u =
     (let pin = trim_space pin0 in
      if pin = [] then True
      else (case pin_parts p pin of
              None \<Rightarrow> False
            | Some (host, port) \<Rightarrow>
                if \<not> equal_fold host (url_hostname u) then False
                else if port = [] then True
                else port = (if url_port u = [] then default_port_for (url_scheme u) else url_port u)))"

section \<open>Destination checks\<close>

text \<open>\<open>checkDest\<close>: the reason of a refusal with its message, \<open>NotBlocked\<close> to proceed, and the new warnings.\<close>

definition own_message :: "string \<Rightarrow> int \<Rightarrow> string" where
  "own_message host port = ''refusing to send to the tool's own listener '' @ host @ '':'' @ int_dec port"

definition pin_message :: "string \<Rightarrow> string" where
  "pin_message host = ''host '' @ host @ '' does not match the environment's base target pin''"

definition scope_message :: "string \<Rightarrow> string" where
  "scope_message host = ''host '' @ host @ '' is out of scope''"

definition check_dest :: "pipeline \<Rightarrow> string \<Rightarrow> string \<Rightarrow> url \<Rightarrow> (block_reason \<times> string) \<times> string list" where
  "check_dest p policy pin u =
     (let host = url_hostname u; port = port_of u in
      if is_own p host port then ((BlockOwn, own_message host port), [])
      else if policy = ''off'' then ((NotBlocked, []), [])
      else
        (let bad = (if pin \<noteq> [] \<and> \<not> pin_matches p pin u then Some (BlockPin, pin_message host)
                    else if \<not> step_url_in_scope p u then Some (BlockScope, scope_message host)
                    else None)
         in case bad of
              None \<Rightarrow> ((NotBlocked, []), [])
            | Some (reason, msg) \<Rightarrow>
                if policy = ''warn'' then ((NotBlocked, []), [msg @ '' (warn policy: sent anyway)''])
                else ((reason, msg), [])))"

section \<open>The request for the sender\<close>

record settings =
  st_follow :: "bool option"
  st_max :: int
  st_timeout :: "int option"
  st_verify :: "bool option"
  st_unresolved :: string
  st_session :: "bool option"
  st_raw :: "bool option"
  st_codec :: string

definition default_timeout :: int where "default_timeout = 60000000000"

text \<open>\<open>built\<close>: the resolved wire request; the headers in order.\<close>

record built =
  bu_method :: string
  bu_url :: string
  bu_headers :: raw_headers
  bu_body :: string
  bu_body_text :: string
  bu_applied :: "string list"
  bu_warnings :: "string list"
  bu_auth_applied :: bool
  bu_auth_type :: string
  bu_auth_fields :: "(string \<times> string) list"

definition repeats_names :: "raw_headers \<Rightarrow> bool" where
  "repeats_names hs \<longleftrightarrow> \<not> distinct (map (\<lambda>(k, v). to_lower k) hs)"

text \<open>The loop of \<open>setHeaders\<close> over the map form; without repeated names each key is new.\<close>

fun map_form :: "raw_headers \<Rightarrow> string \<times> header \<Rightarrow> string \<times> header" where
  "map_form [] acc = acc"
| "map_form ((k, v) # hs) (host, h) =
     (if equal_fold k ''Host'' then map_form hs (v, h)
      else map_form hs (host, header_put h k (header_values h k @ [v])))"

definition set_headers :: "raw_headers \<Rightarrow> bool \<Rightarrow> send_req \<Rightarrow> send_req" where
  "set_headers hs force_raw r =
     (if force_raw \<or> repeats_names hs
      then r\<lparr>sq_options := map_option (\<lambda>op. op\<lparr>so_raw := so_raw op @ hs\<rparr>) (sq_options r)\<rparr>
      else (let (host, h) = map_form hs (sq_host r, []) in r\<lparr>sq_host := host, sq_headers := Some h\<rparr>))"

definition is_true :: "bool option \<Rightarrow> bool" where
  "is_true b \<longleftrightarrow> b = Some True"

definition plain_options :: "int \<Rightarrow> ip_guard \<Rightarrow> send_meta \<Rightarrow> send_options" where
  "plain_options timeout g meta =
     \<lparr>so_timeout = timeout, so_follow = False, so_max = 0, so_verify_tls = False, so_server_name = [], so_http2 = False,
      so_cert = [], so_key = [], so_proxy_url = [], so_no_proxy = False, so_dns = [], so_guard = Some g, so_raw = [],
      so_meta = meta\<rparr>"

definition step_flags :: "step_input \<Rightarrow> int" where
  "step_flags inp = 2 ^ 9 + (if si_ai inp then 2 ^ 10 else 0)"

definition step_meta :: "step_input \<Rightarrow> string \<Rightarrow> send_meta" where
  "step_meta inp phase =
     \<lparr>sm_run = si_run inp, sm_item = it_uid (ch_item (si_chain inp)), sm_iteration = si_iteration inp, sm_phase = phase\<rparr>"

text \<open>\<open>buildSend\<close>: the refusal or the request, and the warnings. \<open>u\<close> is the parsed URL of the request.\<close>

definition step_timeout :: "settings \<Rightarrow> int" where
  "step_timeout st =
     (case st_timeout st of
        None \<Rightarrow> default_timeout
      | Some ms \<Rightarrow> if ms > 0 then sint (word_of_int ms * 1000000 :: 64 word) else 0)"

definition build_send ::
    "pipeline \<Rightarrow> step_input \<Rightarrow> settings \<Rightarrow> string \<Rightarrow> built \<Rightarrow> url \<Rightarrow> ((block_reason \<times> string) + send_req) \<times> string list" where
  "build_send p inp st policy b u =
     (let ((reason, msg), ws) = check_dest p policy (si_env_pin inp) u in
      if reason \<noteq> NotBlocked then (Inl (reason, msg), ws)
      else
        (let op = (plain_options (step_timeout st) (guard_for p policy (url_hostname u)) (step_meta inp ''main''))
                    \<lparr>so_verify_tls := is_true (st_verify st)\<rparr>;
             r = \<lparr>sq_method = bu_method b, sq_url = bu_url b, sq_host = [], sq_headers = None, sq_body = bu_body b,
                  sq_flags = step_flags inp, sq_no_session = (\<not> is_true (st_session st)), sq_options = Some op,
                  sq_retried = False\<rparr>
         in (Inr (set_headers (bu_headers b) (is_true (st_raw st)) r), ws)))"

section \<open>Sending\<close>

record flow_ctx =
  fc_flow :: int
  fc_run :: string
  fc_item :: string
  fc_iteration :: nat
  fc_phase :: string
  fc_parent :: int
  fc_env :: string
  fc_identity :: string
  fc_hash :: string

text \<open>
  What sending changes: the jar, the warnings, the flow ids, the rows of flow contexts, the clock reads; and the
  requests handed to the sender, in order.
\<close>

record send_state =
  ss_jar :: jar
  ss_warnings :: "string list"
  ss_flows :: "int list"
  ss_ctx :: "flow_ctx list"
  ss_ticks :: nat
  ss_sent :: "send_req list"

definition jar_url_of :: "url \<Rightarrow> jar_url" where
  "jar_url_of u = \<lparr>ju_host = url_hostname u, ju_scheme = url_scheme u, ju_path = url_escaped_path u\<rparr>"

definition ctx_row :: "step_input \<Rightarrow> string \<Rightarrow> string \<Rightarrow> int \<Rightarrow> flow_answer \<Rightarrow> flow_ctx" where
  "ctx_row inp phase hash parent f =
     \<lparr>fc_flow = fw_id f, fc_run = si_run inp, fc_item = it_uid (ch_item (si_chain inp)), fc_iteration = si_iteration inp,
      fc_phase = phase, fc_parent = parent, fc_env = si_env inp, fc_identity = si_identity inp, fc_hash = hash\<rparr>"

definition on_flow :: "pipeline \<Rightarrow> step_input \<Rightarrow> string \<Rightarrow> flow_answer \<Rightarrow> send_state \<Rightarrow> send_state" where
  "on_flow p inp hash f s =
     (if fw_id f = 0 then s
      else (let parent = (if ss_flows s = [] then si_parent_flow inp else List.last (ss_flows s));
                s = s\<lparr>ss_flows := ss_flows s @ [fw_id f]\<rparr>
            in if pl_flows p then s\<lparr>ss_ctx := ss_ctx s @ [ctx_row inp ''main'' hash parent f]\<rparr> else s))"

definition add_warnings :: "string list \<Rightarrow> send_state \<Rightarrow> send_state" where
  "add_warnings ws s = s\<lparr>ss_warnings := ss_warnings s @ ws\<rparr>"

definition step_now :: "pipeline \<Rightarrow> send_state \<Rightarrow> int \<times> send_state" where
  "step_now p s = (pl_clock p (ss_ticks s), s\<lparr>ss_ticks := Suc (ss_ticks s)\<rparr>)"

text \<open>One call of \<open>Sender.Send\<close>: the flows it stores pass through \<open>OnFlow\<close> before it returns.\<close>

definition send_once ::
    "pipeline \<Rightarrow> (flow_answer \<Rightarrow> send_state \<Rightarrow> send_state) \<Rightarrow> send_req \<Rightarrow> send_state \<Rightarrow>
     (string + flow_answer option) \<times> send_state" where
  "send_once p hook r s =
     (let (fs, res) = pl_send p (length (ss_sent s)) r
      in (res, fold hook fs (s\<lparr>ss_sent := ss_sent s @ [r]\<rparr>)))"

definition store_step_cookies :: "pipeline \<Rightarrow> string \<Rightarrow> flow_answer \<Rightarrow> send_state \<Rightarrow> send_state" where
  "store_step_cookies p raw f s =
     (case ul_parse (pl_lib p) raw of
        None \<Rightarrow> s
      | Some u \<Rightarrow>
          if fw_res_headers f = [] then s
          else (let (now, s) = step_now p s
                in s\<lparr>ss_jar := store_cookies (jar_url_of u) (pl_cookies p (fw_res_headers f)) now (ss_jar s)\<rparr>))"

text \<open>
  How sending ends: with a flow, with an error, or with the nil URL that \<open>url.Parse\<close> leaves when it does not
  accept the text of a redirect target; the code then panics.
\<close>

datatype send_end = SendDone flow_answer | SendFailed string | NilURL

text \<open>The guard is set anew for the host of a hop.\<close>

definition guard_hop :: "pipeline \<Rightarrow> string \<Rightarrow> url \<Rightarrow> send_req \<Rightarrow> send_req" where
  "guard_hop p policy u r =
     r\<lparr>sq_options := map_option (\<lambda>op. op\<lparr>so_guard := Some (guard_for p policy (url_hostname u))\<rparr>) (sq_options r)\<rparr>"

text \<open>What follows an answer while redirects are left: the next request, or the end.\<close>

definition follow_hop ::
    "pipeline \<Rightarrow> step_input \<Rightarrow> string \<Rightarrow> bool \<Rightarrow> send_req \<Rightarrow> flow_answer \<Rightarrow> send_state \<Rightarrow> (send_end + send_req) \<times> send_state" where
  "follow_hop p inp policy jar_cookies r f s =
     (case next_hop (pl_lib p) r f of
        None \<Rightarrow> (Inl (SendDone f), s)
      | Some r' \<Rightarrow>
          (case ul_parse (pl_lib p) (sq_url r') of
             None \<Rightarrow> (Inl NilURL, s)
           | Some nu \<Rightarrow>
               (let ((reason, msg), ws) = check_dest p policy (si_env_pin inp) nu;
                    s = add_warnings ws s
                in if reason \<noteq> NotBlocked then
                     (Inl (SendDone f), add_warnings [''redirect not followed: '' @ msg] s)
                   else
                     (let r' = guard_hop p policy nu r'
                      in if jar_cookies then
                           (let (now, s) = step_now p s
                            in (Inr (set_hop_cookie (jar_header (jar_url_of nu) now (ss_jar s)) r'), s))
                         else (Inr r', s)))))"

definition send_hop ::
    "pipeline \<Rightarrow> step_input \<Rightarrow> string \<Rightarrow> string \<Rightarrow> bool \<Rightarrow> bool \<Rightarrow> send_req \<Rightarrow> send_state \<Rightarrow>
     (send_end + send_req) \<times> send_state" where
  "send_hop p inp policy hash jar_cookies more_hops r s =
     (case send_once p (on_flow p inp hash) r s of
        (Inl e, s) \<Rightarrow> (Inl (SendFailed e), s)
      | (Inr None, s) \<Rightarrow> (Inl (SendFailed ''sender returned no flow''), s)
      | (Inr (Some f), s) \<Rightarrow>
          (let s = store_step_cookies p (sq_url r) f s
           in if \<not> more_hops \<or> fw_flow_error f \<noteq> [] then (Inl (SendDone f), s)
              else follow_hop p inp policy jar_cookies r f s))"

lemma send_hop_more: "send_hop p inp policy hash jc more_hops r s = (Inr r', s') \<Longrightarrow> more_hops"
  by (auto simp: send_hop_def Let_def split: prod.splits sum.splits option.splits if_splits)

text \<open>The loop of \<open>send\<close>: \<open>n\<close> redirects are left.\<close>

function send_loop ::
    "pipeline \<Rightarrow> step_input \<Rightarrow> string \<Rightarrow> string \<Rightarrow> bool \<Rightarrow> nat \<Rightarrow> send_req \<Rightarrow> send_state \<Rightarrow> send_end \<times> send_state" where
  "send_loop p inp policy hash jc n r s =
     (case send_hop p inp policy hash jc (n > 0) r s of
        (Inl e, s') \<Rightarrow> (e, s')
      | (Inr r', s') \<Rightarrow> send_loop p inp policy hash jc (n - 1) r' s')"
  by pat_completeness auto
termination
  by (relation "measure (\<lambda>(p, inp, policy, hash, jc, n, r, s). n)") (auto dest: send_hop_more [OF sym])

declare send_loop.simps [simp del]

definition step_redirects :: "settings \<Rightarrow> nat" where
  "step_redirects st =
     (if is_true (st_follow st) then (if st_max st \<le> 0 then 10 else nat (st_max st)) else 0)"

text \<open>\<open>send\<close>\<close>

definition step_send ::
    "pipeline \<Rightarrow> step_input \<Rightarrow> settings \<Rightarrow> string \<Rightarrow> string \<Rightarrow> bool \<Rightarrow> send_req \<Rightarrow> send_state \<Rightarrow> send_end \<times> send_state" where
  "step_send p inp st policy hash jc r s =
     (case send_loop p inp policy hash jc (step_redirects st) r s of
        (SendDone f, s) \<Rightarrow>
          (SendDone f, if ss_flows s = [] \<and> fw_id f \<noteq> 0 then s\<lparr>ss_flows := [fw_id f]\<rparr> else s)
      | (e, s) \<Rightarrow> (e, s))"

section \<open>What is handed to the sender\<close>

definition cookie_lines :: "send_req \<Rightarrow> (string \<times> string) list" where
  "cookie_lines r = filter (\<lambda>(k, v). is_cookie k) (carried r)"

lemma header_put_fresh: "k \<notin> fst ` set h \<Longrightarrow> header_put h k vs = h @ [(k, vs)]"
  by (induction h k vs rule: header_put.induct) auto

lemma is_cookie_Cookie: "is_cookie ''Cookie''"
  by (simp add: is_cookie_def)

lemma no_cookie_lines: "filter (\<lambda>(k, v). is_cookie k) (concat (map (\<lambda>(k, vs). map (Pair k) vs) (filter (\<lambda>(k, vs). \<not> is_cookie k) h))) = []"
  by (auto simp: filter_empty_conv)

lemma set_hop_cookie_fields [simp]:
  "sq_url (set_hop_cookie c r) = sq_url r" "sq_method (set_hop_cookie c r) = sq_method r"
  "sq_body (set_hop_cookie c r) = sq_body r" "sq_host (set_hop_cookie c r) = sq_host r"
  by (simp_all add: set_hop_cookie_def Let_def)

lemma set_hop_cookie_options:
  "sq_options r = Some op \<Longrightarrow> \<exists>raw. sq_options (set_hop_cookie c r) = Some (op\<lparr>so_raw := raw\<rparr>)"
  by (auto simp: set_hop_cookie_def Let_def)

lemma set_hop_cookie_lines: "cookie_lines (set_hop_cookie c r) = (if c = [] then [] else [(''Cookie'', c)])"
proof -
  define hs where "hs = map_option (filter (\<lambda>(k, vs). \<not> is_cookie k)) (sq_headers r)"
  define raw where "raw = (hs = None \<and> (case sq_options r of None \<Rightarrow> False | Some op \<Rightarrow> so_raw op \<noteq> []))"
  have no_raw: "filter (\<lambda>x. (case x of (k, v) \<Rightarrow> \<not> is_cookie k) \<and> (case x of (k, v) \<Rightarrow> is_cookie k)) x = []"
    for x :: raw_headers
    by (auto simp: filter_empty_conv)
  have no_map: "filter (\<lambda>(k, v). is_cookie k)
      (concat (map (\<lambda>(k, vs). map (Pair k) vs) (case hs of None \<Rightarrow> [] | Some h \<Rightarrow> h))) = []"
    using no_cookie_lines by (auto simp: hs_def split: option.splits)
  have fresh: "''Cookie'' \<notin> fst ` set (case hs of None \<Rightarrow> [] | Some h \<Rightarrow> h)"
    by (auto simp: hs_def is_cookie_Cookie split: option.splits)
  show ?thesis
    using no_map
    by (cases "sq_options r")
      (auto simp: cookie_lines_def carried_def raw_lines_def map_lines_def set_hop_cookie_def Let_def
        hs_def [symmetric] raw_def no_raw header_put_fresh [OF fresh] is_cookie_Cookie)
qed

lemma header_put_other: "k \<noteq> k' \<Longrightarrow> (k, vs) \<in> set (header_put h k' ws) \<longleftrightarrow> (k, vs) \<in> set h"
  by (induction h k' ws rule: header_put.induct) auto

lemma set_hop_cookie_other:
  assumes "\<not> is_cookie k"
  shows "(k, v) \<in> set (carried (set_hop_cookie c r)) \<longleftrightarrow> (k, v) \<in> set (carried r)"
proof -
  have "k \<noteq> ''Cookie''" using assms is_cookie_Cookie by auto
  with assms show ?thesis
    by (cases "sq_options r"; cases "sq_headers r") (auto simp: carried_iff set_hop_cookie_def Let_def header_put_other)
qed

lemma on_flow_frame [simp]:
  "ss_sent (on_flow p inp hash f s) = ss_sent s" "ss_jar (on_flow p inp hash f s) = ss_jar s"
  "ss_ticks (on_flow p inp hash f s) = ss_ticks s"
  by (simp_all add: on_flow_def Let_def)

lemma fold_on_flow_frame [simp]:
  "ss_sent (fold (on_flow p inp hash) fs s) = ss_sent s" "ss_jar (fold (on_flow p inp hash) fs s) = ss_jar s"
  by (induction fs arbitrary: s) simp_all

lemma add_warnings_frame [simp]:
  "ss_sent (add_warnings ws s) = ss_sent s" "ss_jar (add_warnings ws s) = ss_jar s"
  by (simp_all add: add_warnings_def)

text \<open>A jar that grew from another by the cookies that answers to these requests set.\<close>

definition fed_by :: "pipeline \<Rightarrow> send_req list \<Rightarrow> jar \<Rightarrow> jar \<Rightarrow> bool" where
  "fed_by p rs j j' \<longleftrightarrow>
     (\<exists>evs. j' = fold (\<lambda>(u, cs, now). store_cookies u cs now) evs j
        \<and> (\<forall>(u, cs, now)\<in>set evs. \<exists>r\<in>set rs. \<exists>x. ul_parse (pl_lib p) (sq_url r) = Some x \<and> u = jar_url_of x))"

lemma fed_by_refl: "fed_by p rs j j"
  unfolding fed_by_def by (rule exI [where x = "[]"]) simp

lemma fed_by_trans: "fed_by p rs j j' \<Longrightarrow> fed_by p rs' j' j'' \<Longrightarrow> fed_by p (rs @ rs') j j''"
  unfolding fed_by_def
  by (elim exE conjE, rule_tac x = "evs @ evsa" in exI) (auto, blast+)

lemma store_step_cookies_frame:
  "ss_sent (store_step_cookies p raw f s) = ss_sent s"
  "raw = sq_url r \<Longrightarrow> fed_by p [r] (ss_jar s) (ss_jar (store_step_cookies p raw f s))"
proof -
  show "ss_sent (store_step_cookies p raw f s) = ss_sent s"
    by (simp add: store_step_cookies_def step_now_def split: option.splits)
  have one: "fed_by p [r] j (store_cookies (jar_url_of u) cs now j)"
    if "ul_parse (pl_lib p) (sq_url r) = Some u" for u cs now j
    unfolding fed_by_def by (rule exI [where x = "[(jar_url_of u, cs, now)]"]) (use that in auto)
  show "raw = sq_url r \<Longrightarrow> fed_by p [r] (ss_jar s) (ss_jar (store_step_cookies p raw f s))"
    by (auto simp: store_step_cookies_def step_now_def one fed_by_refl split: option.splits)
qed

text \<open>One hop: a checked redirect of an answer to the request before, with the guard and the cookies of its URL.\<close>

definition hop_rel :: "pipeline \<Rightarrow> step_input \<Rightarrow> string \<Rightarrow> bool \<Rightarrow> jar \<Rightarrow> send_req \<Rightarrow> send_req \<Rightarrow> bool" where
  "hop_rel p inp policy jc J r r' \<longleftrightarrow>
     (\<exists>f h nu now. next_hop (pl_lib p) r f = Some h \<and> ul_parse (pl_lib p) (sq_url h) = Some nu
        \<and> fst (fst (check_dest p policy (si_env_pin inp) nu)) = NotBlocked
        \<and> r' = (if jc then set_hop_cookie (jar_header (jar_url_of nu) now J) (guard_hop p policy nu h)
                else guard_hop p policy nu h))"

lemma hop_relI:
  assumes "next_hop (pl_lib p) r f = Some h" and "ul_parse (pl_lib p) (sq_url h) = Some nu"
    and "fst (fst (check_dest p policy (si_env_pin inp) nu)) = NotBlocked"
  shows "hop_rel p inp policy True J r (set_hop_cookie (jar_header (jar_url_of nu) now J) (guard_hop p policy nu h))"
    and "hop_rel p inp policy False J r (guard_hop p policy nu h)"
  unfolding hop_rel_def using assms by (intro exI [where x = f] exI [where x = h] exI [where x = nu] exI [where x = now], simp)+

lemma follow_hop_spec:
  assumes "follow_hop p inp policy jc r f s = (res, s')"
  shows "ss_sent s' = ss_sent s \<and> ss_jar s' = ss_jar s
    \<and> (\<forall>r'. res = Inr r' \<longrightarrow> hop_rel p inp policy jc (ss_jar s) r r')"
  using assms
  by (auto simp: follow_hop_def step_now_def Let_def intro: hop_relI split: option.splits prod.splits if_splits)

lemma send_hop_spec:
  assumes "send_hop p inp policy hash jc more_hops r s = (res, s')"
  shows "ss_sent s' = ss_sent s @ [r] \<and> fed_by p [r] (ss_jar s) (ss_jar s')
    \<and> (\<forall>r'. res = Inr r' \<longrightarrow> hop_rel p inp policy jc (ss_jar s') r r')"
proof -
  obtain ans s1 where one: "send_once p (on_flow p inp hash) r s = (ans, s1)" by fastforce
  then have s1: "ss_sent s1 = ss_sent s @ [r]" "ss_jar s1 = ss_jar s"
    by (auto simp: send_once_def split: prod.splits)
  show ?thesis
  proof (cases "\<exists>f. ans = Inr (Some f)")
    case True
    then obtain f where f: "ans = Inr (Some f)" by blast
    let ?s2 = "store_step_cookies p (sq_url r) f s1"
    have s2: "ss_sent ?s2 = ss_sent s @ [r]" "fed_by p [r] (ss_jar s) (ss_jar ?s2)"
      by (simp add: store_step_cookies_frame(1) s1) (use store_step_cookies_frame(2) [OF refl, of p r s1 f] s1 in simp)
    show ?thesis
    proof (cases "\<not> more_hops \<or> fw_flow_error f \<noteq> []")
      case True
      with assms one f s2 show ?thesis by (auto simp: send_hop_def)
    next
      case False
      with assms one f have "follow_hop p inp policy jc r f ?s2 = (res, s')" by (auto simp: send_hop_def)
      from follow_hop_spec [OF this] s2 show ?thesis by metis
    qed
  next
    case False
    with assms one s1 show ?thesis by (auto simp: send_hop_def fed_by_refl split: sum.splits option.splits)
  qed
qed

text \<open>The same at a place of a chain, where the jar holds what the answers before have set.\<close>

definition hop_from ::
    "pipeline \<Rightarrow> step_input \<Rightarrow> string \<Rightarrow> bool \<Rightarrow> jar \<Rightarrow> send_req list \<Rightarrow> nat \<Rightarrow> bool" where
  "hop_from p inp policy jc j0 rs j \<longleftrightarrow>
     (\<exists>J. fed_by p (take (Suc j) rs) j0 J \<and> hop_rel p inp policy jc J (rs ! j) (rs ! Suc j))"

lemma hop_from_Cons:
  assumes "hop_from p inp policy jc j1 rs j" and "fed_by p [r] j0 j1"
  shows "hop_from p inp policy jc j0 (r # rs) (Suc j)"
proof -
  have "fed_by p (take (Suc (Suc j)) (r # rs)) j0 J" if "fed_by p (take (Suc j) rs) j1 J" for J
    using fed_by_trans [OF assms(2) that] by simp
  with assms(1) show ?thesis by (auto simp: hop_from_def)
qed

lemma send_loop_spec:
  "send_loop p inp policy hash jc n r s = (e, s') \<Longrightarrow>
     \<exists>rs. ss_sent s' = ss_sent s @ rs \<and> rs \<noteq> [] \<and> hd rs = r \<and> length rs \<le> Suc n
       \<and> fed_by p rs (ss_jar s) (ss_jar s') \<and> (\<forall>j. Suc j < length rs \<longrightarrow> hop_from p inp policy jc (ss_jar s) rs j)"
proof (induction p inp policy hash jc n r s rule: send_loop.induct)
  case (1 p inp policy hash jc n r s)
  obtain res s1 where hop: "send_hop p inp policy hash jc (n > 0) r s = (res, s1)" by fastforce
  note spec = send_hop_spec [OF hop]
  show ?case
  proof (cases res)
    case (Inl e')
    with 1(2) hop have "s1 = s'" by (subst (asm) send_loop.simps) simp
    with spec show ?thesis by (intro exI [where x = "[r]"]) auto
  next
    case (Inr r')
    with 1(2) hop have loop: "send_loop p inp policy hash jc (n - 1) r' s1 = (e, s')"
      by (subst (asm) send_loop.simps) simp
    from send_hop_more [of p inp policy hash jc "n > 0" r s r' s1] hop Inr have n: "n > 0" by simp
    from 1(1) [OF hop [symmetric] Inr loop] obtain rs where rs: "ss_sent s' = ss_sent s1 @ rs" "rs \<noteq> []" "hd rs = r'"
      "length rs \<le> Suc (n - 1)" "fed_by p rs (ss_jar s1) (ss_jar s')"
      "\<forall>j. Suc j < length rs \<longrightarrow> hop_from p inp policy jc (ss_jar s1) rs j" by blast
    from spec have s1: "ss_sent s1 = ss_sent s @ [r]" and fed: "fed_by p [r] (ss_jar s) (ss_jar s1)" by simp_all
    have "hop_from p inp policy jc (ss_jar s) (r # rs) j" if j: "Suc j < length (r # rs)" for j
    proof (cases j)
      case 0
      have "(r # rs) ! 0 = r" "(r # rs) ! Suc 0 = r'" using rs(2,3) by (simp_all add: hd_conv_nth)
      with spec Inr fed 0 show ?thesis by (auto simp: hop_from_def)
    next
      case (Suc m)
      with j rs(6) have "hop_from p inp policy jc (ss_jar s1) rs m" by simp
      from hop_from_Cons [OF this fed] Suc show ?thesis by simp
    qed
    moreover have "ss_sent s' = ss_sent s @ (r # rs)" "length (r # rs) \<le> Suc n" using rs s1 n by auto
    moreover have "fed_by p (r # rs) (ss_jar s) (ss_jar s')" using fed_by_trans [OF fed rs(5)] by simp
    ultimately show ?thesis by (metis list.distinct(1) list.sel(1))
  qed
qed

section \<open>Every request is checked\<close>

text \<open>
  What a step hands to the sender: its URL parses, is not one of the tool's listeners, and unless the policy
  only warns matches the pin and is in scope; its guard is the one of its host, and the sender follows no redirect.
\<close>

definition checked_request :: "pipeline \<Rightarrow> string \<Rightarrow> string \<Rightarrow> send_req \<Rightarrow> bool" where
  "checked_request p policy pin q \<longleftrightarrow>
     (\<exists>u op. ul_parse (pl_lib p) (sq_url q) = Some u \<and> \<not> is_own p (url_hostname u) (port_of u)
        \<and> (policy \<noteq> ''off'' \<and> policy \<noteq> ''warn'' \<longrightarrow> (pin = [] \<or> pin_matches p pin u) \<and> step_url_in_scope p u)
        \<and> sq_options q = Some op \<and> so_guard op = Some (guard_for p policy (url_hostname u)) \<and> \<not> so_follow op)"

lemma check_dest_passes:
  assumes "fst (fst (check_dest p policy pin u)) = NotBlocked"
  shows "\<not> is_own p (url_hostname u) (port_of u)
    \<and> (policy \<noteq> ''off'' \<and> policy \<noteq> ''warn'' \<longrightarrow> (pin = [] \<or> pin_matches p pin u) \<and> step_url_in_scope p u)"
  using assms by (auto simp: check_dest_def Let_def split: if_splits)

lemma next_hop_options:
  assumes "next_hop lib r f = Some h" and "sq_options r = Some op"
  shows "\<exists>raw. sq_options h = Some (op\<lparr>so_raw := raw\<rparr>)"
  using assms by (auto simp: next_hop_def Let_def split: option.splits prod.splits)

lemma hop_rel_checked:
  assumes hop: "hop_rel p inp policy jc J r r'" and r: "sq_options r = Some op" "\<not> so_follow op"
  shows "checked_request p policy (si_env_pin inp) r'"
proof -
  from hop obtain f h nu now where h: "next_hop (pl_lib p) r f = Some h" "ul_parse (pl_lib p) (sq_url h) = Some nu"
      "fst (fst (check_dest p policy (si_env_pin inp) nu)) = NotBlocked"
    and r': "r' = (if jc then set_hop_cookie (jar_header (jar_url_of nu) now J) (guard_hop p policy nu h)
                   else guard_hop p policy nu h)"
    by (auto simp: hop_rel_def)
  from next_hop_options [OF h(1) r(1)] obtain raw where "sq_options h = Some (op\<lparr>so_raw := raw\<rparr>)" by blast
  then have g: "sq_options (guard_hop p policy nu h)
      = Some (op\<lparr>so_raw := raw, so_guard := Some (guard_for p policy (url_hostname nu))\<rparr>)"
    by (simp add: guard_hop_def)
  then obtain op' where "sq_options r' = Some op'" "so_guard op' = Some (guard_for p policy (url_hostname nu))"
      "\<not> so_follow op'"
  proof (cases jc)
    case True
    with set_hop_cookie_options [OF g, of "jar_header (jar_url_of nu) now J"] r(2) that show thesis by (auto simp: r')
  next
    case False
    with g r(2) that show thesis by (auto simp: r')
  qed
  moreover have "sq_url r' = sq_url h" by (simp add: r' guard_hop_def)
  ultimately show ?thesis using h(2) check_dest_passes [OF h(3)] by (auto simp: checked_request_def)
qed

lemma set_headers_fields [simp]:
  "sq_url (set_headers hs raw r) = sq_url r" "sq_method (set_headers hs raw r) = sq_method r"
  by (simp_all add: set_headers_def split: prod.splits)

lemma set_headers_options:
  "sq_options r = Some op \<Longrightarrow> \<exists>raw. sq_options (set_headers hs force r) = Some (op\<lparr>so_raw := raw\<rparr>)"
proof (cases "force \<or> repeats_names hs")
  case False
  assume "sq_options r = Some op"
  with False have "sq_options (set_headers hs force r) = Some (op\<lparr>so_raw := so_raw op\<rparr>)"
    by (simp add: set_headers_def split: prod.splits)
  then show ?thesis by blast
qed (auto simp: set_headers_def)

lemma build_send_checked:
  assumes "build_send p inp st policy b u = (Inr r, ws)" and "ul_parse (pl_lib p) (bu_url b) = Some u"
  shows "checked_request p policy (si_env_pin inp) r"
proof -
  have ok: "fst (fst (check_dest p policy (si_env_pin inp) u)) = NotBlocked"
    using assms(1) by (auto simp: build_send_def split: prod.splits if_splits)
  then obtain q op where r: "r = set_headers (bu_headers b) (is_true (st_raw st)) q" "sq_url q = bu_url b"
      "sq_options q = Some op" "so_guard op = Some (guard_for p policy (url_hostname u))" "\<not> so_follow op"
    using assms(1) by (auto simp: build_send_def plain_options_def Let_def split: prod.splits)
  from set_headers_options [OF r(3)] r(1) obtain raw where "sq_options r = Some (op\<lparr>so_raw := raw\<rparr>)" by blast
  with r assms(2) check_dest_passes [OF ok] show ?thesis by (auto simp: checked_request_def)
qed

lemma step_send_chain:
  assumes "step_send p inp st policy hash jc r s0 = (e, s)"
  shows "\<exists>rs. ss_sent s = ss_sent s0 @ rs \<and> rs \<noteq> [] \<and> hd rs = r \<and> length rs \<le> Suc (step_redirects st)
    \<and> (\<forall>j. Suc j < length rs \<longrightarrow> hop_from p inp policy jc (ss_jar s0) rs j)"
proof -
  obtain e1 s1 where loop: "send_loop p inp policy hash jc (step_redirects st) r s0 = (e1, s1)" by fastforce
  with assms have "ss_sent s = ss_sent s1" by (auto simp: step_send_def split: send_end.splits)
  with send_loop_spec [OF loop] show ?thesis by auto
qed

lemma chain_checked:
  assumes hops: "\<forall>j. Suc j < length rs \<longrightarrow> hop_from p inp policy jc j0 rs j"
    and first: "checked_request p policy (si_env_pin inp) (rs ! 0)"
  shows "i < length rs \<Longrightarrow> checked_request p policy (si_env_pin inp) (rs ! i)"
proof (induction i)
  case (Suc j)
  then obtain op where op: "sq_options (rs ! j) = Some op" "\<not> so_follow op" by (auto simp: checked_request_def)
  from hops Suc.prems obtain J where "hop_rel p inp policy jc J (rs ! j) (rs ! Suc j)" by (auto simp: hop_from_def)
  from hop_rel_checked [OF this op] show ?case .
qed (rule first)

text \<open>
  (C39) Every request that a step hands to the sender has passed the destination checks for its own URL, the first
  one and each redirect: the URL parses, it is not one of the tool's own listeners whatever the policy, and
  unless the policy is off or warns it matches the pin of the environment and is in scope. There are at
  most as many redirects as the settings allow. The guard of each request is the one for its host, so whatever
  a name resolves to, every address the sender tries to connect to is vetted for it: under the block
  policy none outside the public networks unless an include rule of the scope names the host, and none of the
  tool's own listeners.
\<close>

theorem step_sends_checked:
  assumes "ul_parse (pl_lib p) (bu_url b) = Some u" and "build_send p inp st policy b u = (Inr r, ws)"
    and "step_send p inp st policy hash jc r s0 = (e, s)" and "ss_sent s0 = []"
  shows "length (ss_sent s) \<le> Suc (step_redirects st)
    \<and> (\<forall>q\<in>set (ss_sent s). checked_request p policy (si_env_pin inp) q
        \<and> (\<forall>op v resolve dial dns remote addr tried res.
             sq_options q = Some op \<and> ul_parse (pl_lib p) (sq_url q) = Some v
             \<and> resolver_ok resolve \<and> guarded_dial_via resolve dial (so_guard op) dns remote addr = (tried, res) \<longrightarrow>
             (\<forall>t\<in>set tried. vetted_target resolve (guard_for p policy (url_hostname v)) dns remote addr t)))"
proof -
  from step_send_chain [OF assms(3)] assms(4) have rs: "ss_sent s \<noteq> []" "hd (ss_sent s) = r"
      "length (ss_sent s) \<le> Suc (step_redirects st)"
      "\<forall>j. Suc j < length (ss_sent s) \<longrightarrow> hop_from p inp policy jc (ss_jar s0) (ss_sent s) j" by auto
  have "checked_request p policy (si_env_pin inp) (ss_sent s ! 0)"
    using build_send_checked [OF assms(2,1)] rs(1,2) by (simp add: hd_conv_nth)
  from chain_checked [OF rs(4) this] have q: "checked_request p policy (si_env_pin inp) q" if "q \<in> set (ss_sent s)" for q
    using that by (auto simp: in_set_conv_nth)
  have "vetted_target resolve (guard_for p policy (url_hostname v)) dns remote addr t"
    if "q \<in> set (ss_sent s)" "sq_options q = Some op" "ul_parse (pl_lib p) (sq_url q) = Some v" "resolver_ok resolve"
      "guarded_dial_via resolve dial (so_guard op) dns remote addr = (tried, res)" "t \<in> set tried"
    for q op v resolve dial dns remote addr tried res t
  proof -
    from q [OF that(1)] that(2,3) have "so_guard op = Some (guard_for p policy (url_hostname v))"
      by (auto simp: checked_request_def)
    with that(5) dial_vets [OF that(4)] that(6) show ?thesis by (metis (no_types, lifting))
  qed
  with rs(3) q show ?thesis by blast
qed

text \<open>
  (C40) A redirect of a step carries only what belongs to its target. When the jar provides the cookies, the
  cookies of a redirected request are exactly the jar's header for that request's own URL, from the cookies
  the step started with and those that the answers before it set. Any other Authorization, Cookie or
  Proxy-Authorization line was in the first request, and no redirect on the way led to another host.
\<close>

theorem step_redirects_carry_their_own:
  assumes "step_send p inp st policy hash jc r s0 = (e, s)" and "ss_sent s0 = []" and "0 < i" "i < length (ss_sent s)"
  shows "(jc \<longrightarrow> (\<exists>u J now. ul_parse (pl_lib p) (sq_url (ss_sent s ! i)) = Some u \<and> fed_by p (take i (ss_sent s)) (ss_jar s0) J
        \<and> cookie_lines (ss_sent s ! i)
            = (let c = jar_header (jar_url_of u) now J in if c = [] then [] else [(''Cookie'', c)])))
    \<and> (\<forall>k v. (k, v) \<in> set (carried (ss_sent s ! i)) \<and> credential k \<and> \<not> (jc \<and> is_cookie k) \<longrightarrow>
         (k, v) \<in> set (carried r) \<and> (\<forall>j<i. \<exists>f. same_place (pl_lib p) (ss_sent s ! j) f))"
proof -
  from step_send_chain [OF assms(1)] assms(2) have rs: "ss_sent s \<noteq> []" "hd (ss_sent s) = r"
      "\<forall>j. Suc j < length (ss_sent s) \<longrightarrow> hop_from p inp policy jc (ss_jar s0) (ss_sent s) j" by auto
  have "\<exists>u J now. ul_parse (pl_lib p) (sq_url (ss_sent s ! i)) = Some u \<and> fed_by p (take i (ss_sent s)) (ss_jar s0) J
        \<and> cookie_lines (ss_sent s ! i)
            = (let c = jar_header (jar_url_of u) now J in if c = [] then [] else [(''Cookie'', c)])" if jc: jc
  proof -
    obtain j where j: "i = Suc j" using assms(3) by (cases i) auto
    with rs(3) assms(4) obtain J where J: "fed_by p (take i (ss_sent s)) (ss_jar s0) J"
      "hop_rel p inp policy jc J (ss_sent s ! j) (ss_sent s ! i)" by (auto simp: hop_from_def)
    then obtain h nu now where "ul_parse (pl_lib p) (sq_url h) = Some nu"
      "ss_sent s ! i = set_hop_cookie (jar_header (jar_url_of nu) now J) (guard_hop p policy nu h)"
      using jc by (auto simp: hop_rel_def)
    with J(1) show ?thesis
      by (intro exI [where x = nu] exI [where x = J] exI [where x = now]) (simp add: guard_hop_def set_hop_cookie_lines)
  qed
  moreover have "(k, v) \<in> set (carried r) \<and> (\<forall>j<i. \<exists>f. same_place (pl_lib p) (ss_sent s ! j) f)"
    if kv: "(k, v) \<in> set (carried (ss_sent s ! i))" "credential k" and own: "\<not> (jc \<and> is_cookie k)" for k v
  proof -
    have "(k, v) \<in> set (carried (ss_sent s ! 0)) \<and> (\<forall>j<i. \<exists>f. same_place (pl_lib p) (ss_sent s ! j) f)"
      using _ assms(4) kv(1)
    proof (rule chain_hands_down [where S = "\<lambda>q. set (carried q)"])
      fix j assume j: "Suc j < length (ss_sent s)" "(k, v) \<in> set (carried (ss_sent s ! Suc j))"
      with rs(3) obtain f h nu now J where h: "next_hop (pl_lib p) (ss_sent s ! j) f = Some h"
        "ss_sent s ! Suc j = (if jc then set_hop_cookie (jar_header (jar_url_of nu) now J) (guard_hop p policy nu h)
                   else guard_hop p policy nu h)" by (auto simp: hop_from_def hop_rel_def)
      have "carried (guard_hop p policy nu h) = carried h"
        by (auto simp: carried_def raw_lines_def map_lines_def guard_hop_def split: option.splits)
      with h(2) j(2) own have "(k, v) \<in> set (carried h)"
        by (cases jc) (simp_all add: set_hop_cookie_other)
      from next_hop_carries [OF h(1) this] kv(2)
      show "(k, v) \<in> set (carried (ss_sent s ! j)) \<and> (\<exists>f. same_place (pl_lib p) (ss_sent s ! j) f)" by blast
    qed
    then show ?thesis using rs(1,2) by (simp add: hd_conv_nth)
  qed
  ultimately show ?thesis by blast
qed

definition demo_pipe :: pipeline where
  "demo_pipe =
     \<lparr>pl_lib = demo_lib, pl_path = url_escaped_path, pl_scope = None, pl_own_ports = [8080], pl_own_ips = [],
      pl_cookies = (\<lambda>h. [\<lparr>sc_name = ''sid'', sc_value = ''1'', sc_domain = [], sc_path = ''/'', sc_secure = False,
                        sc_http_only = False, sc_max_age = 0, sc_expires = None\<rparr>]),
      pl_send = (\<lambda>n r. let f = (if n = 0 then demo_answer_of 302 [(''Location'', [''http://a/y''])] else demo_answer_of 200 [])
                  in ([f], Inr (Some f))),
      pl_flows = True, pl_clock = int\<rparr>"

definition demo_step_input :: step_input where
  "demo_step_input =
     \<lparr>si_coll = demo_coll, si_chain = \<lparr>ch_folders = [], ch_item = demo_coll_item ''r'' [] ''request'' ''a''\<rparr>, si_layers = [],
      si_local = [], si_source = ''cli'', si_ai = False, si_scope_policy = ''block'', si_no_scripts = True,
      si_fail_on_quarantine = False, si_run = ''run'', si_iteration = 0, si_env = [], si_env_pin = ''a'',
      si_identity = [], si_parent_flow = 0\<rparr>"

definition demo_settings :: settings where
  "demo_settings =
     \<lparr>st_follow = Some True, st_max = 3, st_timeout = None, st_verify = None, st_unresolved = [], st_session = None,
      st_raw = None, st_codec = []\<rparr>"

definition demo_built :: built where
  "demo_built =
     \<lparr>bu_method = ''GET'', bu_url = ''https://a/x'', bu_headers = [(''Accept'', ''*'')], bu_body = [], bu_body_text = [],
      bu_applied = [], bu_warnings = [], bu_auth_applied = False, bu_auth_type = [], bu_auth_fields = []\<rparr>"

definition demo_send_state :: send_state where
  "demo_send_state = \<lparr>ss_jar = new_jar, ss_warnings = [], ss_flows = [], ss_ctx = [], ss_ticks = 0, ss_sent = []\<rparr>"

definition demo_url_x :: url where
  "demo_url_x = \<lparr>url_scheme = ''https'', url_host = ''a'', url_escaped_path = ''/x''\<rparr>"

definition demo_first :: send_req where
  "demo_first = projr (fst (build_send demo_pipe demo_step_input demo_settings ''block'' demo_built demo_url_x))"

lemma demo_builds:
  "build_send demo_pipe demo_step_input demo_settings ''block'' demo_built demo_url_x = (Inr demo_first, [])"
  by code_simp

definition demo_answer :: flow_answer where
  "demo_answer = demo_answer_of 302 [(''Location'', [''http://a/y''])]"

definition demo_url_y :: url where
  "demo_url_y = \<lparr>url_scheme = ''http'', url_host = ''a'', url_escaped_path = ''/y''\<rparr>"

definition demo_jar :: jar where
  "demo_jar = store_cookies (jar_url_of demo_url_x) (pl_cookies demo_pipe (fw_res_headers demo_answer)) 0 new_jar"

definition demo_second :: send_req where
  "demo_second =
     set_hop_cookie (jar_header (jar_url_of demo_url_y) 1 demo_jar)
       (guard_hop demo_pipe ''block'' demo_url_y (the (next_hop demo_lib demo_first demo_answer)))"

definition demo_state1 :: send_state where
  "demo_state1 =
     \<lparr>ss_jar = demo_jar, ss_warnings = [], ss_flows = [1], ss_ctx = [ctx_row demo_step_input ''main'' ''h'' 0 demo_answer],
      ss_ticks = 2, ss_sent = [demo_first]\<rparr>"

definition demo_last :: send_state where
  "demo_last = on_flow demo_pipe demo_step_input ''h'' (demo_answer_of 200 []) (demo_state1\<lparr>ss_sent := [demo_first, demo_second]\<rparr>)"

lemma demo_facts:
  "ul_parse demo_lib (sq_url demo_first) = Some demo_url_x"
  "next_hop demo_lib demo_first demo_answer \<noteq> None"
  "ul_parse demo_lib (sq_url (the (next_hop demo_lib demo_first demo_answer))) = Some demo_url_y"
  "check_dest demo_pipe ''block'' ''a'' demo_url_y = ((NotBlocked, []), [])"
  "next_hop demo_lib demo_second (demo_answer_of 200 []) = None"
  "jar_header (jar_url_of demo_url_y) 1 demo_jar = ''sid=1''"
  "carried demo_first = [(''Accept'', ''*'')]"
  by code_simp+

lemma demo_pipe_fields:
  "pl_lib demo_pipe = demo_lib" "pl_send demo_pipe 0 r = ([demo_answer], Inr (Some demo_answer))"
  "pl_send demo_pipe (Suc n) r = ([demo_answer_of 200 []], Inr (Some (demo_answer_of 200 [])))"
  "pl_clock demo_pipe = int" "pl_flows demo_pipe"
  by (simp_all add: demo_pipe_def demo_answer_def Let_def)

lemma demo_hop1:
  "send_hop demo_pipe demo_step_input ''block'' ''h'' True True demo_first demo_send_state = (Inr demo_second, demo_state1)"
proof -
  obtain h where h: "next_hop demo_lib demo_first demo_answer = Some h" using demo_facts(2) by blast
  have y: "ul_parse demo_lib (sq_url h) = Some demo_url_y" using demo_facts(3) h by simp
  have "si_env_pin demo_step_input = ''a''" "si_parent_flow demo_step_input = 0" by (simp_all add: demo_step_input_def)
  moreover have "fw_id demo_answer = 1" "fw_flow_error demo_answer = []" "fw_res_headers demo_answer \<noteq> []"
    by (simp_all add: demo_answer_def demo_answer_of_def)
  ultimately show ?thesis
    by (simp add: send_hop_def send_once_def demo_pipe_fields demo_send_state_def on_flow_def store_step_cookies_def
        demo_facts(1,4) follow_hop_def h y step_now_def add_warnings_def demo_second_def demo_state1_def
        demo_jar_def Let_def)
qed

lemma demo_hop2:
  "send_hop demo_pipe demo_step_input ''block'' ''h'' True True demo_second demo_state1
     = (Inl (SendDone (demo_answer_of 200 [])), demo_last)"
proof -
  have "fw_res_headers (demo_answer_of 200 []) = []" "fw_flow_error (demo_answer_of 200 []) = []" by (simp_all add: demo_answer_of_def)
  moreover have "store_step_cookies demo_pipe raw (demo_answer_of 200 []) s = s" for raw s
    by (simp add: store_step_cookies_def demo_answer_of_def split: option.splits)
  moreover have "ss_sent demo_state1 = [demo_first]" by (simp add: demo_state1_def)
  ultimately show ?thesis
    by (simp add: send_hop_def send_once_def demo_pipe_fields follow_hop_def demo_facts(5) demo_last_def)
qed

lemma demo_sent: "ss_sent demo_last = [demo_first, demo_second]"
  by (simp add: demo_last_def)

lemma demo_step_sends:
  "step_send demo_pipe demo_step_input demo_settings ''block'' ''h'' True demo_first demo_send_state
     = (SendDone (demo_answer_of 200 []), demo_last)"
proof -
  have "step_redirects demo_settings = 3" by code_simp
  moreover have "ss_flows demo_last \<noteq> []"
    by (simp add: demo_last_def demo_state1_def on_flow_def demo_answer_of_def Let_def)
  ultimately show ?thesis
    using demo_hop1 demo_hop2
    by (simp add: step_send_def send_loop.simps [of _ _ _ _ _ 3] send_loop.simps [of _ _ _ _ _ 2])
qed

theorem step_sends_checked_witness:
  "length (ss_sent demo_last) = 2 \<and> length (ss_sent demo_last) \<le> Suc (step_redirects demo_settings)
   \<and> checked_request demo_pipe ''block'' ''a'' (ss_sent demo_last ! 0)
   \<and> checked_request demo_pipe ''block'' ''a'' (ss_sent demo_last ! 1)"
proof -
  have parse: "ul_parse (pl_lib demo_pipe) (bu_url demo_built) = Some demo_url_x" by code_simp
  have len: "length (ss_sent demo_last) = 2" by (simp add: demo_sent)
  have pin: "si_env_pin demo_step_input = ''a''" by (simp add: demo_step_input_def)
  have "ss_sent demo_send_state = []" by (simp add: demo_send_state_def)
  from step_sends_checked [OF parse demo_builds demo_step_sends this] len show ?thesis
    unfolding pin by (metis nth_mem one_less_numeral_iff pos2 semiring_norm(76))
qed

theorem step_redirects_carry_their_own_witness:
  "\<exists>u J now. ul_parse (pl_lib demo_pipe) (sq_url (ss_sent demo_last ! 1)) = Some u
     \<and> fed_by demo_pipe (take 1 (ss_sent demo_last)) new_jar J
     \<and> cookie_lines (ss_sent demo_last ! 1)
         = (let c = jar_header (jar_url_of u) now J in if c = [] then [] else [(''Cookie'', c)])"
proof -
  have "length (ss_sent demo_last) = 2" by (simp add: demo_sent)
  moreover have "ss_sent demo_send_state = []" "ss_jar demo_send_state = new_jar" by (simp_all add: demo_send_state_def)
  ultimately show ?thesis using step_redirects_carry_their_own [OF demo_step_sends, of 1] by simp
qed

end
