(* ===== verification/Spec2Isabelle.thy ===== *)
theory Spec2Isabelle
  imports InterceptSystem ScopeRules FlowSystem Guard Rank IntruderSystem CredHeaders VarRequest Overlay CookieJar CollRunProps StepSend
begin

text \<open>
  Verification of the core of Interseptor, an intercepting proxy and request workbench written in Go. Paths
  below are under \<open>src/internal\<close>. The program captures HTTP exchanges, holds some of them for
  the operator, stores them in the background, replays and fuzzes them, and runs collections of templated
  requests with scripts; a control plane in front of all this serves the user interface and the MCP
  endpoint. The development models the parts that decide something: what is held, what is in scope, who may
  call, what is written, which requests an attack or a run makes, with which variables, credentials and
  cookies, and what is shown of them.

  \<^bold>\<open>How the parts interact.\<close> The proxy asks \<open>scope\<close> whether a host is in
  scope and \<open>intercept\<close> whether to hold an exchange; both are edited by the operator through
  \<open>control\<close>, whose requests have passed \<open>securityGuard\<close>. Captured flows go through
  the write-behind queue of \<open>store\<close>. The intruder builds jobs from a template and sends them
  through \<open>sender\<close>. A collection run (\<open>collrun\<close>) plans the requests of a tree,
  checks that their scripts are trusted, and executes each with \<open>collexec\<close>, which resolves the
  template with \<open>varstore\<close>, takes cookies from its jar and masks what it reports with
  \<open>redact\<close>; the variables written on the way are kept in an overlay and committed at the end.

  \<^bold>\<open>Prelude.\<close> \<open>GoBase\<close> has Go strings (byte strings, \<open>char
  list\<close>), the functions of \<open>strings\<close> and \<open>strconv\<close> that the code calls, and
  generic lemmas on lists, maps and sorting; \<open>GoText\<close> adds \<open>ReplaceAll\<close>,
  hexadecimal and escaping; \<open>GoNet\<close> has \<open>net.SplitHostPort\<close>,
  \<open>net.ParseIP\<close>, \<open>net.ParseCIDR\<close> and the parsed URL; \<open>Http\<close> has
  header maps with canonical keys; \<open>Regex\<close> names a compiled expression, whose matching is a
  parameter; \<open>RefCount\<close> is the counter kept in a map and deleted at zero. Case mapping is on
  ASCII letters, as in host names, header names and methods.

  \<^bold>\<open>Intercept engine\<close> (\<open>intercept/intercept.go\<close>,
  \<open>response.go\<close>). \<open>Intercept\<close> has the engine's record and its operations: the
  conditional filter, enter, forward, drop, cancel, drop-pending marks, toggles, snapshots and the stream of
  changes, on both sides. \<open>HoldQueue\<close> states the contract of a hold queue as a locale
  (mailboxes of capacity one, removal before delivery). \<open>InterceptRules\<close> has match and replace
  and the parsing of edited requests and responses. \<open>InterceptSystem\<close> interleaves any number of
  holders, operators and disconnecting clients as an inductive step relation; its lemmas show that a hold is
  never lost, that a marked item is dropped whoever releases it, that the engine refines an abstract gate,
  that the change stream reproduces the queues, and that each hold has one outcome; an edited request goes
  where its Host header says, with its framing derived again.

  \<^bold>\<open>Target scope\<close> (\<open>hostpattern/hostpattern.go\<close>,
  \<open>scope/scope.go\<close>, \<open>scope/normalize.go\<close>, \<open>store/scope.go\<close>,
  \<open>control/scope.go\<close>). \<open>HostPattern\<close> has \<open>Normalize\<close> and
  \<open>MatchHost\<close>; \<open>Scope\<close> has compiled rules and the decisions
  \<open>InScope\<close>, \<open>URLInScope\<close> and \<open>HostInScope\<close>;
  \<open>ScopeRules\<close> has \<open>NormalizeRule\<close>, \<open>ValidateRule\<close>, the rule table
  and the handlers, and that after any session of requests the matcher decides by exactly the stored rules.

  \<^bold>\<open>Flow write-behind queue\<close> (\<open>store/writebehind.go\<close>,
  \<open>bodies.go\<close>, \<open>tags.go\<close>, \<open>store.go\<close>). \<open>Tags\<close> has tag
  normalisation; \<open>FlowQueue\<close> the buffered writes, the batch transaction and its replay;
  \<open>FlowSystem\<close> the interleaving of producers with the flusher, its retries and its giving up.
  The properties compare the queue with writing at once and a batch with its replay, and account for every
  queued write. The buffer holds 4096 writes and a chunk has at most 512, as in the code.

  \<^bold>\<open>Control-plane guard\<close> (\<open>control/guard.go\<close>, \<open>clientip.go\<close>,
  \<open>auth.go\<close>, \<open>store/apikeys.go\<close>, \<open>store/allowlist.go\<close>).
  \<open>Allowlist\<close> has the table and its cache with generation numbers, as an interleaving of edits
  and reloads; \<open>Guard\<close> has the client address, tokens, keys, scopes, origin checks, the login
  rate limiter and the decision of \<open>securityGuard\<close>.

  \<^bold>\<open>Intruder\<close> (\<open>intruder/intruder.go\<close>, \<open>numbers.go\<close>,
  \<open>resultlog.go\<close>, \<open>recording.go\<close>, \<open>backoff.go\<close>,
  \<open>codec/body.go\<close>). \<open>Payload\<close> has the payload transforms and template
  substitution, \<open>Numbers\<close> the number source on 64-bit words, \<open>Jobs\<close> the job list
  and its reference enumeration, \<open>ResultLog\<close> the chunked log of results and the statistics over
  it, \<open>Engine\<close> the validation of a spec and the engine's record, and
  \<open>IntruderSystem\<close> the steps of \<open>Start\<close>, \<open>Stop\<close>,
  \<open>Close\<close>, the dispatcher and the workers. An attack has at most 20000 jobs and 64 threads.

  \<^bold>\<open>Secret masking\<close> (\<open>redact/redact.go\<close>, \<open>registry.go\<close>,
  \<open>http.go\<close>). \<open>Redact\<close> has placeholders, the registry and \<open>Mask\<close>;
  \<open>CredHeaders\<close> the masking of credential headers in raw messages.

  \<^bold>\<open>Variable resolver\<close> (\<open>varstore/scope.go\<close>, \<open>dynamic.go\<close>,
  \<open>pipes.go\<close>, \<open>resolve.go\<close>, \<open>request.go\<close>). \<open>VarStack\<close>
  has layers and lookup, \<open>VarDynamic\<close> the dynamic variables and the pipes,
  \<open>VarStore\<close> the evaluator with its run state, with the limits of the code: depth 8, an output
  of 2 to the 20 bytes, 10000 expansions. It needs no fuel: its recursion ends by the depth that is left and
  the text that is left, and reaching a limit is the code's own error. \<open>VarEval\<close> relates it to
  an inductive meaning of templates without limits, and \<open>VarRequest\<close> resolves whole requests
  and substitutes path variables.

  \<^bold>\<open>Collections\<close> (\<open>collection/collection.go\<close>,
  \<open>store/collections_rank.go\<close>, \<open>collrun\<close>, \<open>collexec\<close>).
  \<open>Rank\<close> has the fractional ranks; \<open>CollTree\<close> the tree, the plan of a run and the
  chain of folders; \<open>CollScripts\<close> script hashes, trust and the preflight;
  \<open>CollVars\<close> the variables of a step, with the record of changes; \<open>Overlay\<close> the
  variables of a run; \<open>CookieJar\<close> the jar; \<open>CollRun\<close> the results, totals and exit
  code, the run state and the loop; and \<open>CollRunProps\<close> what holds of every run by one rule for
  invariants of the loop, stated as a locale and interpreted for the accounts of the report and for the
  commits. A run visits each item at most 100 times unless its options say otherwise, makes at most 100000
  steps and takes at most 20000 data rows; the loop over a plan ends because every pass that goes on counts
  a step.

  \<^bold>\<open>Sender\<close> (\<open>sender/options_guard.go\<close>, \<open>options.go\<close>).
  \<open>SendDial\<close> has the destination guard and the dial of a vetted address; the predicates on
  address bytes are proved equal to the list of blocked networks. \<open>SendHop\<close> has the requests,
  the redirects of the sender and of a collection step, the cookie of a hop and the bytes of a raw request.

  \<^bold>\<open>Kinds of definitions.\<close> Sequential code is functions on records. Fallible code
  returns \<open>option\<close> or \<open>error + 'a\<close>. Loops that the code bounds recur on its bound;
  the others have a termination proof, and three that could run on are \<open>partial_function
  (option)\<close> with \<open>None\<close> for not returning: the tree builder and the log reader, proved
  to return (the reader on a working disk), and the drawing of unique random numbers, which repeats until
  enough different values came up, so that whether it ends is up to the random source. Concurrent code
  (intercept, write-behind queue, allowlist cache, intruder) is an inductive step relation in which a step
  is one critical section of the code.

  \<^bold>\<open>Parameters.\<close> Standard-library and outside code appears as arguments:
  \<open>regexp.Compile\<close> and the matching of a compiled expression, \<open>url.Parse\<close>, hash
  functions, random source, clocks, JSON encoding where only its result is passed on, the sender's answers,
  the script engine, and the store behind a run. Theorems hold for every argument unless a hypothesis names
  what they rely on (that an encoding is injective, for instance); each such theorem has a witness with
  concrete arguments.

  \<^bold>\<open>Not modelled.\<close> Network and TLS code of \<open>proxy\<close>, \<open>sender\<close>
  and \<open>tlsca\<close>, SQL statements apart from the tables named above, and the decoding of archives,
  CSV, JSON, YAML and import formats, where the code calls parsers it does not contain. The script engine
  (\<open>jsrt\<close>, \<open>pmsandbox\<close>) runs JavaScript in an outside interpreter. The manager of
  asynchronous runs, the linter and the notifiers are schedulers and callbacks around modelled operations.
  \<open>mcp\<close> and the handlers of \<open>control\<close> wrap the modelled operations in HTTP and
  JSON. The scanner, the rule catalogue, previews, reports and exports turn text into text by heuristics
  with no contract to state. Platform integration (Android, iOS, desktop, browsers, system proxy) calls
  external tools. The findings of the modelling are in the lemmas whose text says where the code and its
  comments differ.
\<close>

end
